(* ===== verification/Prelude.thy ===== *)
theory Prelude
  imports Main "HOL-Library.Word" "HOL-Library.Char_ord"
begin

text \<open>
  Shared ground of the development: what a Go call returns (\<open>result\<close>), byte
  strings, the lemma collections the component proofs use, and the list, option
  and word lemmas that several components share. Nothing here translates a file
  of \<^verbatim>\<open>src/\<close>; the language and its standard library are modelled here.
\<close>

section \<open>Results of Go calls\<close>

text \<open>
  A Go function returns a value, returns an error value, or panics. \<open>Panic\<close> is
  kept apart from \<open>Err\<close>: no caller of the modelled code handles a panic, every
  caller handles an error.
\<close>

datatype ('e, 'a) result = Ok 'a | Err 'e | Panic

fun is_Ok :: "('e, 'a) result \<Rightarrow> bool" where
  "is_Ok (Ok _) = True"
| "is_Ok _ = False"

fun bind_result :: "('e, 'a) result \<Rightarrow> ('a \<Rightarrow> ('e, 'b) result) \<Rightarrow> ('e, 'b) result" where
  "bind_result (Ok a) f = f a"
| "bind_result (Err e) f = Err e"
| "bind_result Panic f = Panic"

lemma bind_result_cong [fundef_cong]:
  assumes "m = m'" and "\<And>a. m' = Ok a \<Longrightarrow> f a = f' a"
  shows "bind_result m f = bind_result m' f'"
  using assms by (cases m') auto

lemma bind_result_Ok_iff [simp]:
  "bind_result m f = Ok b \<longleftrightarrow> (\<exists>a. m = Ok a \<and> f a = Ok b)"
  by (cases m) auto

section \<open>Bytes and machine integers\<close>

type_synonym byte = "8 word"
type_synonym bytes = "byte list"
type_synonym int32 = "32 word"
type_synonym int64 = "64 word"
type_synonym uint64 = "64 word"

text \<open>A Go string is a sequence of bytes; \<open>bytes_of\<close> is the conversion \<open>[]byte(s)\<close>.\<close>

definition bytes_of :: "string \<Rightarrow> bytes" where
  "bytes_of s = map (\<lambda>c. word_of_nat (of_char c)) s"

lemma length_bytes_of [simp]: "length (bytes_of s) = length s"
  by (simp add: bytes_of_def)

lemma unat_of_char_byte [simp]: "unat (word_of_nat (of_char c) :: byte) = of_char c"
  using nat_of_char_less_256 [of c] by (simp add: unat_of_nat)

section \<open>Collections of facts\<close>

named_theorems order_simps \<open>equations of the three-way comparisons\<close>
named_theorems wf_intros \<open>preservation of component invariants\<close>

end
