(* ===== verification/Ordering.thy ===== *)
theory Ordering
  imports Prelude
begin

text \<open>
  Three-way comparison, \<^verbatim>\<open>internal/types/compare.go\<close>: the result type
  \<open>CompareResult\<close>, \<open>compareInvert\<close>, \<open>compareOrdered\<close>, and the standard
  library's \<open>bytes.Compare\<close>. The locale \<open>three_way\<close> is the contract every
  comparison function of the program has to meet before a caller may sort, take
  a minimum or walk an index with it.
\<close>

section \<open>Comparison results\<close>

datatype CompareResult = Less | Equal | Greater

fun compareInvert :: "CompareResult \<Rightarrow> CompareResult" where
  "compareInvert Equal = Equal"
| "compareInvert Less = Greater"
| "compareInvert Greater = Less"

definition compareOrdered :: "'a::linorder \<Rightarrow> 'a \<Rightarrow> CompareResult" where
  "compareOrdered a b = (if a = b then Equal else if a < b then Less else Greater)"

lemma compareInvert_invert [simp]: "compareInvert (compareInvert r) = r"
  by (cases r) auto

lemma compareInvert_simps [simp]:
  "compareInvert r = Equal \<longleftrightarrow> r = Equal"
  "compareInvert r = Less \<longleftrightarrow> r = Greater"
  "compareInvert r = Greater \<longleftrightarrow> r = Less"
  by (cases r; simp)+

lemma compareOrdered_iff [order_simps]:
  "compareOrdered a b = Equal \<longleftrightarrow> a = b"
  "compareOrdered a b = Less \<longleftrightarrow> a < b"
  "compareOrdered a b = Greater \<longleftrightarrow> b < a"
  by (auto simp: compareOrdered_def)

lemma compareOrdered_invert: "compareOrdered b a = compareInvert (compareOrdered a b)"
  by (auto simp: compareOrdered_def)

lemma compareOrdered_same [simp]: "compareOrdered a a = Equal"
  by (simp add: compareOrdered_def)

section \<open>The contract of a comparison\<close>

locale three_way =
  fixes cmp :: "'a \<Rightarrow> 'a \<Rightarrow> CompareResult"
    and A :: "'a set"
  assumes cmp_refl: "a \<in> A \<Longrightarrow> cmp a a = Equal"
    and cmp_invert: "a \<in> A \<Longrightarrow> b \<in> A \<Longrightarrow> cmp b a = compareInvert (cmp a b)"
    and cmp_trans: "a \<in> A \<Longrightarrow> b \<in> A \<Longrightarrow> c \<in> A \<Longrightarrow>
      cmp a b \<noteq> Greater \<Longrightarrow> cmp b c \<noteq> Greater \<Longrightarrow> cmp a c \<noteq> Greater"
begin

lemma equal_sym: "a \<in> A \<Longrightarrow> b \<in> A \<Longrightarrow> cmp a b = Equal \<Longrightarrow> cmp b a = Equal"
  by (simp add: cmp_invert [of a b])

lemma equal_left:
  assumes "a \<in> A" "b \<in> A" "c \<in> A" and eq: "cmp a b = Equal"
  shows "cmp a c = cmp b c"
proof -
  have eq': "cmp b a = Equal" using assms by (simp add: equal_sym)
  have "cmp a c = Greater \<longleftrightarrow> cmp b c = Greater"
    using cmp_trans [of a b c] cmp_trans [of b a c] assms(1-3) eq eq' by auto
  moreover have "cmp c a = Greater \<longleftrightarrow> cmp c b = Greater"
    using cmp_trans [of c a b] cmp_trans [of c b a] assms(1-3) eq eq' by auto
  then have "cmp a c = Less \<longleftrightarrow> cmp b c = Less"
    using assms(1-3) cmp_invert [of a c] cmp_invert [of b c] by simp
  ultimately show ?thesis by (metis CompareResult.exhaust)
qed

lemma equal_right:
  assumes "a \<in> A" "b \<in> A" "c \<in> A" and "cmp b c = Equal"
  shows "cmp a b = cmp a c"
  using equal_left [of b c a] cmp_invert [of b a] cmp_invert [of c a] assms by simp

lemma less_trans:
  assumes "a \<in> A" "b \<in> A" "c \<in> A" and "cmp a b = Less" "cmp b c = Less"
  shows "cmp a c = Less"
proof (cases "cmp a c")
  case Equal
  then have "cmp b c = Greater"
    using assms equal_left [of a c b] cmp_invert [of c b] by simp
  with assms show ?thesis by simp
next
  case Greater
  with assms cmp_trans [of a b c] show ?thesis by simp
qed

lemma le_less_trans:
  assumes "a \<in> A" "b \<in> A" "c \<in> A" and "cmp a b \<noteq> Greater" "cmp b c = Less"
  shows "cmp a c = Less"
  using assms less_trans [of a b c] equal_left [of a b c] by (cases "cmp a b") simp_all

lemma less_le_trans:
  assumes "a \<in> A" "b \<in> A" "c \<in> A" and "cmp a b = Less" "cmp b c \<noteq> Greater"
  shows "cmp a c = Less"
  using assms less_trans [of a b c] equal_right [of a b c] by (cases "cmp b c") simp_all

text \<open>The loop of \<open>Array.Min\<close>: it keeps the first element no later one is below.\<close>

lemma fold_min:
  assumes "m \<in> A" and "set xs \<subseteq> A"
  defines "r \<equiv> foldl (\<lambda>m v. if cmp m v = Greater then v else m) m xs"
  shows "r \<in> insert m (set xs) \<and> (\<forall>x \<in> insert m (set xs). cmp r x \<noteq> Greater)"
  using assms(1,2) unfolding r_def
proof (induction xs arbitrary: m)
  case Nil
  then show ?case by (simp add: cmp_refl)
next
  case (Cons v xs)
  let ?m = "if cmp m v = Greater then v else m"
  let ?r = "foldl (\<lambda>m v. if cmp m v = Greater then v else m) ?m xs"
  have m: "?m \<in> A" using Cons.prems by auto
  have ih: "?r \<in> insert ?m (set xs)" "\<forall>x \<in> insert ?m (set xs). cmp ?r x \<noteq> Greater"
    using Cons.IH [OF m] Cons.prems by auto
  have r: "?r \<in> A" using ih(1) m Cons.prems by auto
  have "cmp ?m m \<noteq> Greater" "cmp ?m v \<noteq> Greater"
    using Cons.prems by (auto simp: cmp_refl cmp_invert [of m v])
  then have "cmp ?r m \<noteq> Greater" "cmp ?r v \<noteq> Greater"
    using cmp_trans [OF r m, of m] cmp_trans [OF r m, of v] ih(2) Cons.prems by auto
  with ih show ?case by auto
qed

end

lemma three_way_subset:
  assumes "three_way cmp A" and "B \<subseteq> A"
  shows "three_way cmp B"
proof (rule three_way.intro)
  show "cmp a a = Equal" if "a \<in> B" for a
    using that assms three_way.cmp_refl [OF assms(1)] by auto
  show "cmp b a = compareInvert (cmp a b)" if "a \<in> B" "b \<in> B" for a b
    using that assms three_way.cmp_invert [OF assms(1), of a b] by auto
  show "cmp a c \<noteq> Greater"
    if "a \<in> B" "b \<in> B" "c \<in> B" "cmp a b \<noteq> Greater" "cmp b c \<noteq> Greater" for a b c
    using that assms three_way.cmp_trans [OF assms(1), of a b c] by auto
qed

lemma three_way_converse:
  assumes "three_way cmp A"
  shows "three_way (\<lambda>a b. cmp b a) A"
proof (rule three_way.intro)
  show "cmp a a = Equal" if "a \<in> A" for a using that by (rule three_way.cmp_refl [OF assms])
  show "cmp a b = compareInvert (cmp b a)" if "a \<in> A" "b \<in> A" for a b
    using that by (intro three_way.cmp_invert [OF assms])
  show "cmp c a \<noteq> Greater"
    if "a \<in> A" "b \<in> A" "c \<in> A" "cmp b a \<noteq> Greater" "cmp c b \<noteq> Greater" for a b c
    using that three_way.cmp_trans [OF assms, of c b a] by simp
qed

interpretation ordered: three_way compareOrdered UNIV
  by unfold_locales (auto simp: compareOrdered_def split: if_splits)

section \<open>Composition of comparisons\<close>

definition cmp_then :: "('a \<Rightarrow> 'a \<Rightarrow> CompareResult) \<Rightarrow> ('a \<Rightarrow> 'a \<Rightarrow> CompareResult) \<Rightarrow> 'a \<Rightarrow> 'a \<Rightarrow> CompareResult" where
  "cmp_then c d a b = (case c a b of Equal \<Rightarrow> d a b | r \<Rightarrow> r)"

lemma three_way_then:
  assumes c: "three_way c A" and d: "\<And>a. a \<in> A \<Longrightarrow> three_way d {b \<in> A. c a b = Equal}"
  shows "three_way (cmp_then c d) A"
proof (rule three_way.intro)
  note refl = three_way.cmp_refl [OF c] and inv = three_way.cmp_invert [OF c]
  show "cmp_then c d a a = Equal" if "a \<in> A" for a
    using three_way.cmp_refl [OF d [OF that], of a] that refl [OF that] by (simp add: cmp_then_def)
  show "cmp_then c d b a = compareInvert (cmp_then c d a b)" if "a \<in> A" "b \<in> A" for a b
    using three_way.cmp_invert [OF d [OF that(1)], of a b] that refl [OF that(1)] inv [OF that]
    by (cases "c a b") (simp_all add: cmp_then_def)
  show "cmp_then c d x z \<noteq> Greater"
    if A: "x \<in> A" "y \<in> A" "z \<in> A" and le: "cmp_then c d x y \<noteq> Greater" "cmp_then c d y z \<noteq> Greater" for x y z
  proof (cases "c x y = Equal \<and> c y z = Equal")
    case True
    then have "c x z = Equal" by (simp add: three_way.equal_left [OF c A])
    then show ?thesis
      using three_way.cmp_trans [OF d [OF A(1)], of x y z] A refl [OF A(1)] True le
      by (simp add: cmp_then_def)
  next
    case False
    have "c x y \<noteq> Greater" "c y z \<noteq> Greater" using le by (auto simp: cmp_then_def split: CompareResult.splits)
    then have "c x z = Less"
      using False three_way.le_less_trans [OF c A] three_way.less_le_trans [OF c A]
      by (cases "c y z"; cases "c x y") simp_all
    then show ?thesis by (simp add: cmp_then_def)
  qed
qed

lemma three_way_vimage:
  assumes "three_way cmp B" and "\<And>a. a \<in> A \<Longrightarrow> f a \<in> B"
    and "\<And>a b. a \<in> A \<Longrightarrow> b \<in> A \<Longrightarrow> c a b = cmp (f a) (f b)"
  shows "three_way c A"
proof (rule three_way.intro)
  show "c a a = Equal" if "a \<in> A" for a
    using that assms(2) [of a] assms(3) [of a a] three_way.cmp_refl [OF assms(1), of "f a"] by simp
  show "c b a = compareInvert (c a b)" if "a \<in> A" "b \<in> A" for a b
    using that assms(2) [of a] assms(2) [of b] assms(3) [of a b] assms(3) [of b a]
      three_way.cmp_invert [OF assms(1), of "f a" "f b"] by simp
  show "c x z \<noteq> Greater"
    if "x \<in> A" "y \<in> A" "z \<in> A" "c x y \<noteq> Greater" "c y z \<noteq> Greater" for x y z
    using that assms(2) [of x] assms(2) [of y] assms(2) [of z] assms(3) [of x y] assms(3) [of y z]
      assms(3) [of x z] three_way.cmp_trans [OF assms(1), of "f x" "f y" "f z"] by simp
qed

section \<open>Lexicographic comparison\<close>

fun lexcmp :: "('a \<Rightarrow> 'a \<Rightarrow> CompareResult) \<Rightarrow> 'a list \<Rightarrow> 'a list \<Rightarrow> CompareResult" where
  "lexcmp c [] [] = Equal"
| "lexcmp c [] (y # ys) = Less"
| "lexcmp c (x # xs) [] = Greater"
| "lexcmp c (x # xs) (y # ys) = (case c x y of Equal \<Rightarrow> lexcmp c xs ys | r \<Rightarrow> r)"

context three_way
begin

lemma lexcmp_refl: "set xs \<subseteq> A \<Longrightarrow> lexcmp cmp xs xs = Equal"
  by (induction xs) (auto simp: cmp_refl)

lemma lexcmp_invert:
  "set xs \<subseteq> A \<Longrightarrow> set ys \<subseteq> A \<Longrightarrow> lexcmp cmp ys xs = compareInvert (lexcmp cmp xs ys)"
proof (induction xs arbitrary: ys)
  case Nil
  then show ?case by (cases ys) auto
next
  case (Cons x xs)
  show ?case
  proof (cases ys)
    case (Cons y ys')
    with Cons.prems Cons.IH [of ys'] show ?thesis
      using cmp_invert [of x y] by (cases "cmp x y") auto
  qed simp
qed

lemma lexcmp_trans:
  "set xs \<subseteq> A \<Longrightarrow> set ys \<subseteq> A \<Longrightarrow> set zs \<subseteq> A \<Longrightarrow>
   lexcmp cmp xs ys \<noteq> Greater \<Longrightarrow> lexcmp cmp ys zs \<noteq> Greater \<Longrightarrow> lexcmp cmp xs zs \<noteq> Greater"
proof (induction xs arbitrary: ys zs)
  case Nil
  then show ?case by (cases zs) auto
next
  case (Cons x xs)
  obtain y ys' z zs' where ys: "ys = y # ys'" and zs: "zs = z # zs'"
    using Cons.prems(4,5) by (cases ys; cases zs) auto
  have in_A: "x \<in> A" "y \<in> A" "z \<in> A" using Cons.prems ys zs by auto
  have le: "cmp x y \<noteq> Greater" "cmp y z \<noteq> Greater"
    using Cons.prems(4,5) ys zs by (auto split: CompareResult.splits)
  show ?case
  proof (cases "cmp x y = Equal \<and> cmp y z = Equal")
    case True
    then have "cmp x z = Equal" by (simp add: equal_left [OF in_A])
    moreover have "lexcmp cmp xs zs' \<noteq> Greater"
      using True Cons.prems ys zs by (intro Cons.IH [of ys' zs']) auto
    ultimately show ?thesis by (simp add: zs)
  next
    case False
    then have "cmp x z = Less"
      using le le_less_trans [OF in_A] less_le_trans [OF in_A] by (cases "cmp y z"; cases "cmp x y") simp_all
    then show ?thesis by (simp add: zs)
  qed
qed

lemma three_way_lexcmp: "three_way (lexcmp cmp) {xs. set xs \<subseteq> A}"
proof (rule three_way.intro)
  show "lexcmp cmp a a = Equal" if "a \<in> {xs. set xs \<subseteq> A}" for a
    using that by (simp add: lexcmp_refl)
  show "lexcmp cmp b a = compareInvert (lexcmp cmp a b)"
    if "a \<in> {xs. set xs \<subseteq> A}" "b \<in> {xs. set xs \<subseteq> A}" for a b
    using that by (intro lexcmp_invert) simp_all
  show "lexcmp cmp a c \<noteq> Greater"
    if "a \<in> {xs. set xs \<subseteq> A}" "b \<in> {xs. set xs \<subseteq> A}" "c \<in> {xs. set xs \<subseteq> A}"
      "lexcmp cmp a b \<noteq> Greater" "lexcmp cmp b c \<noteq> Greater" for a b c
    using that lexcmp_trans [of a b c] by simp
qed

end

text \<open>The standard library's \<open>bytes.Compare\<close>, and \<open>cmp.Compare\<close> on strings.\<close>

definition bytes_compare :: "'a::linorder list \<Rightarrow> 'a list \<Rightarrow> CompareResult" where
  "bytes_compare xs ys = lexcmp compareOrdered xs ys"

interpretation bytewise: three_way bytes_compare UNIV
  using ordered.three_way_lexcmp unfolding bytes_compare_def [abs_def] by simp

lemma bytes_compare_simps [simp]:
  "bytes_compare [] [] = Equal"
  "bytes_compare [] (y # ys) = Less"
  "bytes_compare (x # xs) [] = Greater"
  "bytes_compare (x # xs) (y # ys) =
     (if x = y then bytes_compare xs ys else if x < y then Less else Greater)"
  by (auto simp: bytes_compare_def compareOrdered_def)

lemma bytes_compare_Equal [simp]: "bytes_compare xs ys = Equal \<longleftrightarrow> xs = ys"
proof (induction xs arbitrary: ys)
  case Nil
  show ?case by (cases ys) auto
next
  case (Cons x xs)
  then show ?case by (cases ys) auto
qed

lemma bytes_compare_refl [simp]: "bytes_compare xs xs = Equal"
  by simp

lemma bytes_compare_prefix [simp]: "bytes_compare (zs @ xs) (zs @ ys) = bytes_compare xs ys"
  by (induction zs) auto

lemma bytes_compare_snoc:
  "length xs = length ys \<Longrightarrow>
   bytes_compare (xs @ [x]) (ys @ [y]) =
     (if xs = ys then compareOrdered x y else bytes_compare xs ys)"
  by (induction xs ys rule: list_induct2) (auto simp: compareOrdered_def)

text \<open>A difference inside strings of one length decides, whatever follows them.\<close>

lemma bytes_compare_append:
  "length xs = length ys \<Longrightarrow> xs \<noteq> ys \<Longrightarrow> bytes_compare (xs @ us) (ys @ vs) = bytes_compare xs ys"
  by (induction xs ys rule: list_induct2) auto

lemma bytes_compare_map:
  assumes "\<And>x y. x \<in> set xs \<Longrightarrow> y \<in> set ys \<Longrightarrow> (f x < f y) = (x < y)"
    and "\<And>x y. x \<in> set xs \<Longrightarrow> y \<in> set ys \<Longrightarrow> (f x = f y) = (x = y)"
  shows "bytes_compare (map f xs) (map f ys) = bytes_compare xs ys"
  using assms
proof (induction xs arbitrary: ys)
  case Nil
  show ?case by (cases ys) auto
next
  case (Cons x xs)
  then show ?case by (cases ys) auto
qed

end
