(* ===== verification/Float64.thy ===== *)
theory Float64
  imports Prelude
begin

unbundle bit_operations_syntax

text \<open>
  Go's \<open>float64\<close> and what the program uses of it and of package \<open>math\<close>. A value
  is its IEEE 754 bit pattern, a \<open>64 word\<close>: sign, 11 bits of exponent, 52 bits of
  fraction. Every finite double is an integral multiple of \<open>2\<^sup>-\<^sup>1\<^sup>0\<^sup>7\<^sup>4\<close>, so the
  real value is kept exactly as an \<open>int\<close> in that unit (\<open>f64_val\<close>); addition is
  exact there and then rounded to nearest, ties to even (\<open>fmag_round\<close>). The
  infinities take the value the pattern would denote, which is beyond every finite
  double, so one order serves all patterns that are not a NaN.
\<close>

section \<open>Bit patterns and their values\<close>

type_synonym float64 = "64 word"

abbreviation f64_unit :: nat where "f64_unit \<equiv> 2 ^ 1074"
abbreviation f64_inf_mag :: nat where "f64_inf_mag \<equiv> 2047 * 2 ^ 52"

definition f64_neg :: "float64 \<Rightarrow> bool" where
  "f64_neg f \<longleftrightarrow> 2 ^ 63 \<le> unat f"

definition f64_mag :: "float64 \<Rightarrow> nat" where
  "f64_mag f = unat f mod 2 ^ 63"

definition fmag_val :: "nat \<Rightarrow> nat" where
  "fmag_val b = (if b div 2 ^ 52 = 0 then b else (2 ^ 52 + b mod 2 ^ 52) * 2 ^ (b div 2 ^ 52 - 1))"

definition f64_val :: "float64 \<Rightarrow> int" where
  "f64_val f = (if f64_neg f then - int (fmag_val (f64_mag f)) else int (fmag_val (f64_mag f)))"

definition IsNaN :: "float64 \<Rightarrow> bool" where
  "IsNaN f \<longleftrightarrow> f64_inf_mag < f64_mag f"

definition IsInf_pos :: "float64 \<Rightarrow> bool" where
  "IsInf_pos f \<longleftrightarrow> f64_mag f = f64_inf_mag \<and> \<not> f64_neg f"

definition IsInf_neg :: "float64 \<Rightarrow> bool" where
  "IsInf_neg f \<longleftrightarrow> f64_mag f = f64_inf_mag \<and> f64_neg f"

definition f64_finite :: "float64 \<Rightarrow> bool" where
  "f64_finite f \<longleftrightarrow> f64_mag f < f64_inf_mag"

text \<open>The operators \<open>==\<close> and \<open><\<close>: false when a NaN is involved; \<open>-0 == 0\<close>.\<close>

definition f64_eq :: "float64 \<Rightarrow> float64 \<Rightarrow> bool" where
  "f64_eq a b \<longleftrightarrow> \<not> IsNaN a \<and> \<not> IsNaN b \<and> f64_val a = f64_val b"

definition f64_lt :: "float64 \<Rightarrow> float64 \<Rightarrow> bool" where
  "f64_lt a b \<longleftrightarrow> \<not> IsNaN a \<and> \<not> IsNaN b \<and> f64_val a < f64_val b"

section \<open>Rounding\<close>

fun nbits :: "nat \<Rightarrow> nat" where
  "nbits n = (if n = 0 then 0 else Suc (nbits (n div 2)))"

declare nbits.simps [simp del]

text \<open>Nearest integer to \<open>n / 2\<^sup>k\<close>, ties to even.\<close>

definition rne :: "nat \<Rightarrow> nat \<Rightarrow> nat" where
  "rne n k = (let q = n div 2 ^ k; r = n mod 2 ^ k in
     if 2 ^ k < 2 * r \<or> 2 * r = 2 ^ k \<and> odd q then Suc q else q)"

definition fmag_round :: "nat \<Rightarrow> nat" where
  "fmag_round n = (let k = nbits n - 53 in min f64_inf_mag (k * 2 ^ 52 + rne n k))"

definition f64_make :: "bool \<Rightarrow> nat \<Rightarrow> float64" where
  "f64_make s b = word_of_nat (if s then 2 ^ 63 + b else b)"

definition f64_of_val :: "int \<Rightarrow> float64" where
  "f64_of_val n = f64_make (n < 0) (fmag_round (nat \<bar>n\<bar>))"

definition f64_of_int :: "int \<Rightarrow> float64" where
  "f64_of_int i = f64_of_val (i * int f64_unit)"

text \<open>Sum and the \<open>math\<close> functions, on finite arguments.\<close>

definition f64_add :: "float64 \<Rightarrow> float64 \<Rightarrow> float64" where
  "f64_add a b = f64_of_val (f64_val a + f64_val b)"

definition f64_sub :: "float64 \<Rightarrow> float64 \<Rightarrow> float64" where
  "f64_sub a b = f64_of_val (f64_val a - f64_val b)"

definition f64_uminus :: "float64 \<Rightarrow> float64" where
  "f64_uminus f = f64_make (\<not> f64_neg f) (f64_mag f)"

definition Floor :: "float64 \<Rightarrow> float64" where
  "Floor f = f64_of_int (f64_val f div int f64_unit)"

definition Ceil :: "float64 \<Rightarrow> float64" where
  "Ceil f = f64_of_int (- ((- f64_val f) div int f64_unit))"

definition Trunc :: "float64 \<Rightarrow> float64" where
  "Trunc f = f64_of_int (sgn (f64_val f) * (\<bar>f64_val f\<bar> div int f64_unit))"

text \<open>The integer a conversion such as \<open>int64(f)\<close> takes: \<open>f\<close> truncated towards zero.\<close>

definition f64_to_int :: "float64 \<Rightarrow> int" where
  "f64_to_int f = sgn (f64_val f) * (\<bar>f64_val f\<bar> div int f64_unit)"

section \<open>The value function is strictly monotone\<close>

lemma nbits_bounds: "0 < n \<Longrightarrow> 2 ^ (nbits n - 1) \<le> n \<and> n < 2 ^ nbits n \<and> 0 < nbits n"
proof (induction n rule: nbits.induct)
  case (1 n)
  show ?case
  proof (cases "n = 1")
    case True
    then show ?thesis by (simp add: nbits.simps)
  next
    case False
    with "1.prems" have pos: "0 < n div 2" by auto
    have ih: "2 ^ (nbits (n div 2) - 1) \<le> n div 2" "n div 2 < 2 ^ nbits (n div 2)"
      "0 < nbits (n div 2)"
      using "1.IH" "1.prems" pos by auto
    then obtain j where j: "nbits (n div 2) = Suc j" by (cases "nbits (n div 2)") auto
    have "nbits n = Suc (Suc j)"
      using "1.prems" j by (subst nbits.simps) simp
    moreover have "2 ^ Suc j \<le> n" "n < 2 ^ Suc (Suc j)"
      using ih j by auto
    ultimately show ?thesis by simp
  qed
qed

lemma nbits_le: "n < 2 ^ k \<Longrightarrow> nbits n \<le> k"
proof (cases "n = 0")
  case True
  then show ?thesis by (simp add: nbits.simps)
next
  case False
  assume "n < 2 ^ k"
  moreover have "2 ^ (nbits n - 1) \<le> n" using False nbits_bounds [of n] by simp
  ultimately have "2 ^ (nbits n - 1) < (2::nat) ^ k" by (rule le_less_trans [rotated])
  then have "nbits n - 1 < k" by (rule power_less_imp_less_exp [rotated]) simp
  then show ?thesis by simp
qed

lemma nbits_eq:
  assumes "2 ^ k \<le> n" "n < 2 ^ Suc k"
  shows "nbits n = Suc k"
proof -
  have "0 < n" using assms(1) by (metis gr0I not_le zero_less_numeral zero_less_power)
  then have "n < 2 ^ nbits n" using nbits_bounds by blast
  with assms(1) have "2 ^ k < (2::nat) ^ nbits n" by (rule le_less_trans)
  then have "k < nbits n" by (rule power_less_imp_less_exp [rotated]) simp
  with nbits_le [OF assms(2)] show ?thesis by simp
qed

lemma nbits_mono: "m \<le> n \<Longrightarrow> nbits m \<le> nbits n"
  using nbits_bounds [of n] by (cases "n = 0") (auto intro!: nbits_le)

lemma fmag_val_small: "b < 2 ^ 52 \<Longrightarrow> fmag_val b = b"
  by (simp add: fmag_val_def)

lemma fmag_val_big:
  "2 ^ 52 \<le> b \<Longrightarrow> fmag_val b = (2 ^ 52 + b mod 2 ^ 52) * 2 ^ (b div 2 ^ 52 - 1)"
  by (auto simp: fmag_val_def div_eq_0_iff)

lemma fmag_val_0 [simp]: "fmag_val 0 = 0"
  by (simp add: fmag_val_def)

lemma fmag_val_Suc: "fmag_val b < fmag_val (Suc b)"
proof -
  define e m where "e = b div 2 ^ 52" and "m = b mod 2 ^ 52"
  have b: "b = e * 2 ^ 52 + m" and m: "m < 2 ^ 52"
    by (auto simp: e_def m_def)
  show ?thesis
  proof (cases "Suc m < 2 ^ 52")
    case True
    then have "Suc b div 2 ^ 52 = e" "Suc b mod 2 ^ 52 = Suc m"
      using b by (auto simp: div_nat_eqI mod_nat_eqI)
    then show ?thesis by (simp add: fmag_val_def e_def m_def)
  next
    case False
    with m have m': "m = 2 ^ 52 - 1" by simp
    then have "Suc b = Suc e * 2 ^ 52" using b by simp
    then have "Suc b div 2 ^ 52 = Suc e" "Suc b mod 2 ^ 52 = 0" by auto
    then show ?thesis
      using m' by (cases e) (auto simp: fmag_val_def e_def [symmetric] m_def [symmetric])
  qed
qed

lemma fmag_val_strict_mono: "a < b \<Longrightarrow> fmag_val a < fmag_val b"
  by (rule lift_Suc_mono_less [of fmag_val]) (rule fmag_val_Suc)

lemma fmag_val_less_iff [simp]: "fmag_val a < fmag_val b \<longleftrightarrow> a < b"
  using fmag_val_strict_mono [of a b] fmag_val_strict_mono [of b a] by (cases a b rule: linorder_cases) auto

lemma fmag_val_le_iff [simp]: "fmag_val a \<le> fmag_val b \<longleftrightarrow> a \<le> b"
  by (simp add: linorder_not_less [symmetric])

lemma fmag_val_eq_iff [simp]: "fmag_val a = fmag_val b \<longleftrightarrow> a = b"
  by (auto simp: eq_iff)

section \<open>Rounding is exact on doubles and monotone\<close>

lemma rne_multiple: "rne (q * 2 ^ k) k = q"
  by (simp add: rne_def)

lemma fmag_round_small: "n < 2 ^ 53 \<Longrightarrow> fmag_round n = n"
  using nbits_le [of n 53] by (simp add: fmag_round_def rne_def)

lemma fmag_round_val: "b \<le> f64_inf_mag \<Longrightarrow> fmag_round (fmag_val b) = b"
proof (cases "b < 2 ^ 52")
  case True
  then show ?thesis by (simp add: fmag_val_small fmag_round_small)
next
  case False
  assume le: "b \<le> f64_inf_mag"
  define e m where "e = b div 2 ^ 52 - 1" and "m = b mod 2 ^ 52"
  have "0 < b div 2 ^ 52" using False by (simp add: div_greater_zero_iff)
  then have b: "b = Suc e * 2 ^ 52 + m" and m: "m < 2 ^ 52"
    by (auto simp: e_def m_def)
  have v: "fmag_val b = (2 ^ 52 + m) * 2 ^ e"
    using False by (simp add: fmag_val_big e_def m_def)
  have "2 ^ (52 + e) \<le> (2 ^ 52 + m) * 2 ^ e" "(2 ^ 52 + m) * 2 ^ e < 2 ^ Suc (52 + e)"
    using m by (auto simp: power_add)
  then have "nbits (fmag_val b) = Suc (52 + e)"
    unfolding v by (rule nbits_eq)
  then have "fmag_round (fmag_val b) = min f64_inf_mag (e * 2 ^ 52 + (2 ^ 52 + m))"
    unfolding fmag_round_def by (simp add: v rne_multiple)
  also have "e * 2 ^ 52 + (2 ^ 52 + m) = b" by (simp add: b)
  finally show ?thesis using le by simp
qed

lemma rne_mono: "m \<le> n \<Longrightarrow> rne m k \<le> rne n k"
proof -
  assume le: "m \<le> n"
  then have q: "m div 2 ^ k \<le> n div 2 ^ k" by (rule div_le_mono)
  show ?thesis
  proof (cases "m div 2 ^ k = n div 2 ^ k")
    case True
    then have "m mod 2 ^ k \<le> n mod 2 ^ k"
      using le by (metis div_mult_mod_eq add_le_cancel_left)
    with True show ?thesis by (auto simp: rne_def Let_def)
  next
    case False
    with q have "Suc (m div 2 ^ k) \<le> n div 2 ^ k" by simp
    moreover have "rne m k \<le> Suc (m div 2 ^ k)" "n div 2 ^ k \<le> rne n k"
      by (auto simp: rne_def Let_def)
    ultimately show ?thesis by simp
  qed
qed

lemma rne_upper: "n < 2 ^ (j + k) \<Longrightarrow> rne n k \<le> 2 ^ j"
  using rne_mono [of n "2 ^ j * 2 ^ k" k] by (simp add: power_add rne_multiple)

lemma rne_lower: "2 ^ (j + k) \<le> n \<Longrightarrow> 2 ^ j \<le> rne n k"
  using rne_mono [of "2 ^ j * 2 ^ k" n k] by (simp add: power_add rne_multiple)

lemma fmag_round_mono: "m \<le> n \<Longrightarrow> fmag_round m \<le> fmag_round n"
proof -
  assume le: "m \<le> n"
  define k l where "k = nbits m - 53" and "l = nbits n - 53"
  have kl: "k \<le> l" using nbits_mono [OF le] by (simp add: k_def l_def)
  have "k * 2 ^ 52 + rne m k \<le> l * 2 ^ 52 + rne n l"
  proof (cases "k = l")
    case True
    then show ?thesis using rne_mono [OF le] by simp
  next
    case False
    with kl have "k < l" by simp
    then have l: "nbits n = 53 + l" and n: "0 < n"
      by (auto simp: l_def nbits.simps [of 0] intro: ccontr)
    then have "2 ^ (52 + l) \<le> n" using nbits_bounds [of n] by simp
    then have low: "2 ^ 52 \<le> rne n l" by (rule rne_lower)
    have "m < 2 ^ (53 + k)"
    proof (cases "m = 0")
      case False
      then have "m < 2 ^ nbits m" using nbits_bounds by blast
      also have "(2::nat) ^ nbits m \<le> 2 ^ (53 + k)"
        by (rule power_increasing) (auto simp: k_def)
      finally show ?thesis .
    qed simp
    then have "rne m k \<le> 2 ^ 53" by (rule rne_upper)
    moreover have "Suc k * 2 ^ 52 \<le> l * 2 ^ 52"
      using \<open>k < l\<close> by (intro mult_le_mono1) simp
    ultimately show ?thesis using low by simp
  qed
  then show ?thesis
    by (simp add: fmag_round_def k_def [symmetric] l_def [symmetric] min.coboundedI2)
qed

text \<open>Rounding never leaves the interval between two doubles.\<close>

lemma fmag_round_le: "n \<le> fmag_val b \<Longrightarrow> b \<le> f64_inf_mag \<Longrightarrow> fmag_round n \<le> b"
  using fmag_round_mono [of n "fmag_val b"] by (simp add: fmag_round_val)

lemma fmag_round_ge: "fmag_val b \<le> n \<Longrightarrow> b \<le> f64_inf_mag \<Longrightarrow> b \<le> fmag_round n"
  using fmag_round_mono [of "fmag_val b" n] by (simp add: fmag_round_val)

lemma fmag_val_surj:
  assumes "q < 2 ^ 53"
  shows "\<exists>b. q * 2 ^ k = fmag_val b"
  using assms
proof (induction k arbitrary: q)
  case 0
  show ?case
  proof (cases "q < 2 ^ 52")
    case True
    then show ?thesis using fmag_val_small by (intro exI [of _ q]) simp
  next
    case False
    with 0 have "q div 2 ^ 52 = 1" by (auto simp: div_nat_eqI)
    moreover from this have "2 ^ 52 + q mod 2 ^ 52 = q" using div_mult_mod_eq [of q "2 ^ 52"] by simp
    ultimately show ?thesis using False by (intro exI [of _ q]) (simp add: fmag_val_big)
  qed
next
  case (Suc k)
  show ?case
  proof (cases "q < 2 ^ 52")
    case True
    then have "q * 2 < 2 ^ 53" by simp
    from Suc.IH [OF this] show ?thesis by (simp add: mult.assoc)
  next
    case False
    define r where "r = q - 2 ^ 52"
    define b where "b = (k + 2) * 2 ^ 52 + r"
    have r: "r < 2 ^ 52" "q = 2 ^ 52 + r" using Suc.prems False by (auto simp: r_def)
    have "b mod 2 ^ 52 = r" unfolding b_def using r(1) by (simp only: mod_mult_self3 mod_less)
    moreover have "b div 2 ^ 52 = k + 2" using r by (auto simp: b_def div_nat_eqI)
    ultimately have "fmag_val b = q * 2 ^ Suc k"
      using r by (simp add: fmag_val_def)
    then show ?thesis by metis
  qed
qed

section \<open>Words built from sign and magnitude\<close>

lemma f64_mag_less: "f64_mag f < 2 ^ 63"
  by (simp add: f64_mag_def)

lemmas f64_mag_less_num [simp] = f64_mag_less [simplified]

lemma unat_f64: "unat f = (if f64_neg f then 2 ^ 63 else 0) + f64_mag f"
proof -
  have "unat f < 2 ^ 64" using unsigned_less [of f] by simp
  then have "f64_neg f \<Longrightarrow> unat f div 2 ^ 63 = 1" by (auto simp: f64_neg_def div_nat_eqI)
  moreover have "\<not> f64_neg f \<Longrightarrow> unat f div 2 ^ 63 = 0" by (simp add: f64_neg_def)
  ultimately show ?thesis
    using div_mult_mod_eq [of "unat f" "2 ^ 63"] by (cases "f64_neg f") (simp_all add: f64_mag_def)
qed

lemma unat_f64_make [simp]: "b < 2 ^ 63 \<Longrightarrow> unat (f64_make s b) = (if s then 2 ^ 63 else 0) + b"
  by (simp add: f64_make_def unat_of_nat)

lemma f64_neg_make [simp]: "b < 2 ^ 63 \<Longrightarrow> f64_neg (f64_make s b) = s"
  by (simp add: f64_neg_def)

lemma f64_mag_make [simp]: "b < 2 ^ 63 \<Longrightarrow> f64_mag (f64_make s b) = b"
  by (simp add: f64_mag_def)

lemma fmag_round_less: "fmag_round n < 2 ^ 63"
  by (auto simp: fmag_round_def Let_def)

lemmas fmag_round_less_num [simp] = fmag_round_less [simplified]

lemma f64_val_of_val: "nat \<bar>n\<bar> = fmag_val b \<Longrightarrow> b \<le> f64_inf_mag \<Longrightarrow> f64_val (f64_of_val n) = n"
  by (auto simp: f64_val_def f64_of_val_def fmag_round_val)

lemma f64_mag_of_val: "f64_mag (f64_of_val n) = fmag_round (nat \<bar>n\<bar>)"
  by (simp add: f64_of_val_def)

lemma f64_val_eq_0 [simp]: "f64_val f = 0 \<longleftrightarrow> f64_mag f = 0"
  using fmag_val_eq_iff [of "f64_mag f" 0] by (simp add: f64_val_def)

lemma f64_val_pos: "0 < f64_val f \<longleftrightarrow> \<not> f64_neg f \<and> f64_mag f \<noteq> 0"
  using fmag_val_less_iff [of 0 "f64_mag f"] by (auto simp: f64_val_def)

lemma f64_val_neg: "f64_val f < 0 \<longleftrightarrow> f64_neg f \<and> f64_mag f \<noteq> 0"
  using fmag_val_less_iff [of 0 "f64_mag f"] by (auto simp: f64_val_def)

text \<open>Two patterns have one value only if they are equal or the two zeros.\<close>

definition f64_norm0 :: "float64 \<Rightarrow> float64" where
  "f64_norm0 f = (if f64_mag f = 0 then 0 else f)"

lemma f64_val_inject: "f64_val a = f64_val b \<longleftrightarrow> f64_norm0 a = f64_norm0 b"
proof
  assume eq: "f64_val a = f64_val b"
  show "f64_norm0 a = f64_norm0 b"
  proof (cases "f64_mag a = 0")
    case True
    then have "f64_mag b = 0" using eq f64_val_eq_0 by metis
    with True show ?thesis by (simp add: f64_norm0_def)
  next
    case False
    then have nz: "f64_mag b \<noteq> 0" using eq f64_val_eq_0 by metis
    have "f64_neg a = f64_neg b"
      using eq False nz f64_val_neg [of a] f64_val_neg [of b] by auto
    moreover from this have "f64_mag a = f64_mag b"
      using eq by (auto simp: f64_val_def split: if_splits)
    ultimately have "unat a = unat b" by (simp add: unat_f64)
    then have "a = b" by (simp add: word_unat_eq_iff)
    then show ?thesis by simp
  qed
next
  assume "f64_norm0 a = f64_norm0 b"
  then show "f64_val a = f64_val b"
    using f64_val_eq_0 [of a] f64_val_eq_0 [of b]
    by (auto simp: f64_norm0_def f64_mag_def f64_val_def split: if_splits)
qed

end
