(* ===== verification/Values.thy ===== *)
theory Values
  imports Ordering Float64 Strconv
begin

text \<open>
  The BSON value model of \<^verbatim>\<open>internal/types\<close>: one constructor per Go type of
  \<^verbatim>\<open>types.go\<close>'s \<open>ScalarType\<close> and \<open>CompositeType\<close>; \<open>Identical\<close>
  (\<^verbatim>\<open>identical.go\<close>) and the size computation of \<^verbatim>\<open>bson_size.go\<close>.
  A \<open>time.Time\<close> stored in a document has millisecond precision and is kept as its
  \<open>UnixMilli\<close>. Nested documents and arrays are values, not shared pointers.
\<close>

section \<open>BSON values\<close>

datatype bson =
    BDocument "(string \<times> bson) list"
  | BArray "bson list"
  | BDouble float64
  | BString string
  | BBinary byte bytes
  | BObjectID bytes
  | BBool bool
  | BDate int64
  | BNull
  | BRegex string string
  | BInt32 int32
  | BTimestamp uint64
  | BInt64 int64
  | BDecimal128 uint64 uint64
  | BMinKey
  | BMaxKey
  | BUndefined

type_synonym fields = "(string \<times> bson) list"

fun isScalar :: "bson \<Rightarrow> bool" where
  "isScalar (BDocument _) = False"
| "isScalar (BArray _) = False"
| "isScalar _ = True"

lemma size_field_value [termination_simp]: "(k, v) \<in> set fs \<Longrightarrow> size v < Suc (size_list (size_prod (\<lambda>_. 0) size) fs)"
  by (induction fs) auto

text \<open>Field access by key, as the scan of \<open>Document.Get\<close> does it: the first match.\<close>

fun field_get :: "fields \<Rightarrow> string \<Rightarrow> bson option" where
  "field_get [] k = None"
| "field_get ((k', v) # fs) k = (if k' = k then Some v else field_get fs k)"

lemma field_get_map_of: "field_get fs k = map_of fs k"
  by (induction fs) auto

section \<open>Identical\<close>

text \<open>
  Both iterators return the key and the value of the next field; the loop over two
  documents discards the keys and compares the values.
\<close>

fun Identical :: "bson \<Rightarrow> bson \<Rightarrow> bool"
  and identical_fields :: "fields \<Rightarrow> fields \<Rightarrow> bool"
  and identical_items :: "bson list \<Rightarrow> bson list \<Rightarrow> bool" where
  "Identical (BDocument a) w =
     (case w of BDocument b \<Rightarrow> length a = length b \<and> identical_fields a b | _ \<Rightarrow> False)"
| "Identical (BArray a) w =
     (case w of BArray b \<Rightarrow> length a = length b \<and> identical_items a b | _ \<Rightarrow> False)"
| "Identical (BDouble a) w = (case w of BDouble b \<Rightarrow> f64_eq a b | _ \<Rightarrow> False)"
| "Identical (BString a) w = (case w of BString b \<Rightarrow> a = b | _ \<Rightarrow> False)"
| "Identical (BBinary s a) w =
     (case w of BBinary t b \<Rightarrow> length a = length b \<and> s = t \<and> a = b | _ \<Rightarrow> False)"
| "Identical (BObjectID a) w = (case w of BObjectID b \<Rightarrow> a = b | _ \<Rightarrow> False)"
| "Identical (BBool a) w = (case w of BBool b \<Rightarrow> a = b | _ \<Rightarrow> False)"
| "Identical (BDate a) w = (case w of BDate b \<Rightarrow> a = b | _ \<Rightarrow> False)"
| "Identical BNull w = (w = BNull)"
| "Identical (BRegex p q) w = (case w of BRegex p' q' \<Rightarrow> p = p' \<and> q = q' | _ \<Rightarrow> False)"
| "Identical (BInt32 a) w = (case w of BInt32 b \<Rightarrow> a = b | _ \<Rightarrow> False)"
| "Identical (BTimestamp a) w = (case w of BTimestamp b \<Rightarrow> a = b | _ \<Rightarrow> False)"
| "Identical (BInt64 a) w = (case w of BInt64 b \<Rightarrow> a = b | _ \<Rightarrow> False)"
| "Identical (BDecimal128 l h) w = (case w of BDecimal128 l' h' \<Rightarrow> l = l' \<and> h = h' | _ \<Rightarrow> False)"
| "Identical BUndefined w = (w = BUndefined)"
| "Identical BMinKey w = (w = BMinKey)"
| "Identical BMaxKey w = (w = BMaxKey)"
| "identical_fields [] ys = True"
| "identical_fields (x # xs) [] = False"
| "identical_fields ((_, v) # xs) ((_, w) # ys) = (Identical v w \<and> identical_fields xs ys)"
| "identical_items [] ys = True"
| "identical_items (x # xs) [] = False"
| "identical_items (v # xs) (w # ys) = (Identical v w \<and> identical_items xs ys)"

section \<open>Encoded sizes\<close>

fun bsonValueSize :: "bson \<Rightarrow> nat"
  and fields_size :: "fields \<Rightarrow> nat"
  and items_size :: "nat \<Rightarrow> bson list \<Rightarrow> nat" where
  "bsonValueSize (BDocument fs) = 5 + fields_size fs"
| "bsonValueSize (BArray vs) = 5 + items_size 0 vs"
| "bsonValueSize (BDouble _) = 8"
| "bsonValueSize (BDate _) = 8"
| "bsonValueSize (BTimestamp _) = 8"
| "bsonValueSize (BInt64 _) = 8"
| "bsonValueSize (BString s) = 4 + length s + 1"
| "bsonValueSize (BBinary _ b) = 4 + 1 + length b"
| "bsonValueSize (BObjectID _) = 12"
| "bsonValueSize (BBool _) = 1"
| "bsonValueSize BNull = 0"
| "bsonValueSize BMinKey = 0"
| "bsonValueSize BMaxKey = 0"
| "bsonValueSize BUndefined = 0"
| "bsonValueSize (BRegex p q) = length p + 1 + length q + 1"
| "bsonValueSize (BInt32 _) = 4"
| "bsonValueSize (BDecimal128 _ _) = 16"
| "fields_size [] = 0"
| "fields_size ((k, v) # fs) = 1 + length k + 1 + bsonValueSize v + fields_size fs"
| "items_size i [] = 0"
| "items_size i (v # vs) = 1 + length (Itoa i) + 1 + bsonValueSize v + items_size (Suc i) vs"

definition BSONSize :: "fields \<Rightarrow> nat" where
  "BSONSize fs = bsonValueSize (BDocument fs)"

section \<open>What Identical decides\<close>

text \<open>
  \<open>erase_keys\<close> replaces every field name by the empty string and \<open>-0\<close> by \<open>0\<close>;
  \<open>nan_free\<close> says no double inside the value is a NaN.
\<close>

fun erase_keys :: "bson \<Rightarrow> bson" where
  "erase_keys (BDocument fs) = BDocument (map (\<lambda>(k, v). ([], erase_keys v)) fs)"
| "erase_keys (BArray vs) = BArray (map erase_keys vs)"
| "erase_keys (BDouble f) = BDouble (f64_norm0 f)"
| "erase_keys v = v"

fun nan_free :: "bson \<Rightarrow> bool" where
  "nan_free (BDocument fs) = list_all (\<lambda>(k, v). nan_free v) fs"
| "nan_free (BArray vs) = list_all nan_free vs"
| "nan_free (BDouble f) = (\<not> IsNaN f)"
| "nan_free v = True"

lemma IsNaN_norm0: "f64_norm0 a = f64_norm0 b \<Longrightarrow> IsNaN a = IsNaN b"
  by (auto simp: f64_norm0_def IsNaN_def f64_mag_def split: if_splits)

lemma bson_case_iff:
  "(case w of BDocument b \<Rightarrow> P1 b | _ \<Rightarrow> False) \<longleftrightarrow> (\<exists>b. w = BDocument b \<and> P1 b)"
  "(case w of BArray b \<Rightarrow> P2 b | _ \<Rightarrow> False) \<longleftrightarrow> (\<exists>b. w = BArray b \<and> P2 b)"
  "(case w of BDouble b \<Rightarrow> P3 b | _ \<Rightarrow> False) \<longleftrightarrow> (\<exists>b. w = BDouble b \<and> P3 b)"
  "(case w of BString b \<Rightarrow> P4 b | _ \<Rightarrow> False) \<longleftrightarrow> (\<exists>b. w = BString b \<and> P4 b)"
  "(case w of BObjectID b \<Rightarrow> P5 b | _ \<Rightarrow> False) \<longleftrightarrow> (\<exists>b. w = BObjectID b \<and> P5 b)"
  "(case w of BBool b \<Rightarrow> P6 b | _ \<Rightarrow> False) \<longleftrightarrow> (\<exists>b. w = BBool b \<and> P6 b)"
  "(case w of BDate b \<Rightarrow> P7 b | _ \<Rightarrow> False) \<longleftrightarrow> (\<exists>b. w = BDate b \<and> P7 b)"
  "(case w of BInt32 b \<Rightarrow> P8 b | _ \<Rightarrow> False) \<longleftrightarrow> (\<exists>b. w = BInt32 b \<and> P8 b)"
  "(case w of BTimestamp b \<Rightarrow> P9 b | _ \<Rightarrow> False) \<longleftrightarrow> (\<exists>b. w = BTimestamp b \<and> P9 b)"
  "(case w of BInt64 b \<Rightarrow> P10 b | _ \<Rightarrow> False) \<longleftrightarrow> (\<exists>b. w = BInt64 b \<and> P10 b)"
  "(case w of BBinary a b \<Rightarrow> Q11 a b | _ \<Rightarrow> False) \<longleftrightarrow> (\<exists>a b. w = BBinary a b \<and> Q11 a b)"
  "(case w of BRegex a b \<Rightarrow> Q12 a b | _ \<Rightarrow> False) \<longleftrightarrow> (\<exists>a b. w = BRegex a b \<and> Q12 a b)"
  "(case w of BDecimal128 a b \<Rightarrow> Q13 a b | _ \<Rightarrow> False) \<longleftrightarrow> (\<exists>a b. w = BDecimal128 a b \<and> Q13 a b)"
  by (cases w; simp)+

lemma erase_keys_scalar:
  "BString b1 = erase_keys w \<longleftrightarrow> w = BString b1"
  "BObjectID b2 = erase_keys w \<longleftrightarrow> w = BObjectID b2"
  "BBool b3 = erase_keys w \<longleftrightarrow> w = BBool b3"
  "BDate b4 = erase_keys w \<longleftrightarrow> w = BDate b4"
  "BInt32 b5 = erase_keys w \<longleftrightarrow> w = BInt32 b5"
  "BTimestamp b6 = erase_keys w \<longleftrightarrow> w = BTimestamp b6"
  "BInt64 b7 = erase_keys w \<longleftrightarrow> w = BInt64 b7"
  "BBinary a8 b8 = erase_keys w \<longleftrightarrow> w = BBinary a8 b8"
  "BRegex a9 b9 = erase_keys w \<longleftrightarrow> w = BRegex a9 b9"
  "BDecimal128 a10 b10 = erase_keys w \<longleftrightarrow> w = BDecimal128 a10 b10"
  "BNull = erase_keys w \<longleftrightarrow> w = BNull"
  "BMinKey = erase_keys w \<longleftrightarrow> w = BMinKey"
  "BMaxKey = erase_keys w \<longleftrightarrow> w = BMaxKey"
  "BUndefined = erase_keys w \<longleftrightarrow> w = BUndefined"
  by (cases w; auto)+

lemma Identical_characterization:
  "Identical v w \<longleftrightarrow> nan_free v \<and> erase_keys v = erase_keys w"
  "identical_fields a b \<and> length a = length b \<longleftrightarrow>
     list_all (\<lambda>(k, v). nan_free v) a \<and>
     map (\<lambda>(k, v). ([] :: string, erase_keys v)) a = map (\<lambda>(k, v). ([], erase_keys v)) b"
  "identical_items c d \<and> length c = length d \<longleftrightarrow>
     list_all nan_free c \<and> map erase_keys c = map erase_keys d"
proof (induction v w and a b and c d rule: Identical_identical_fields_identical_items.induct)
  case (1 a w)
  then show ?case by (cases w) auto
next
  case (2 a w)
  then show ?case by (cases w) auto
next
  case (3 a w)
  show ?case
  proof (cases w)
    case (BDouble b)
    then show ?thesis using IsNaN_norm0 [of a b] by (auto simp: f64_eq_def f64_val_inject)
  qed simp_all
qed (auto simp: bson_case_iff erase_keys_scalar)

end
