(* ===== verification/Codec.thy ===== *)
theory Codec
  imports Values "HOL-Library.Multiset"
begin

text \<open>
  The BSON codec: the encoder \<^verbatim>\<open>internal/types/bson_encode.go\<close> and the raw
  decoder \<^verbatim>\<open>internal/bson/decode_raw.go\<close> with \<open>rawBSONValueSize\<close> of
  \<^verbatim>\<open>internal/bson/minmaxkey.go\<close>. The encoder appends to a byte buffer and patches
  tags and lengths in place; here the bytes of each part are computed and joined. The
  decoder keeps an offset into the raw document; here it keeps the bytes that remain.
\<close>

section \<open>Little-endian integers and C strings\<close>

fun le_bytes :: "nat \<Rightarrow> nat \<Rightarrow> bytes" where
  "le_bytes 0 n = []"
| "le_bytes (Suc k) n = word_of_nat n # le_bytes k (n div 256)"

fun le_read :: "bytes \<Rightarrow> nat" where
  "le_read [] = 0"
| "le_read (b # bs) = unat b + 256 * le_read bs"

definition PutUint32 :: "32 word \<Rightarrow> bytes" where "PutUint32 w = le_bytes 4 (unat w)"
definition PutUint64 :: "64 word \<Rightarrow> bytes" where "PutUint64 w = le_bytes 8 (unat w)"
definition Uint32 :: "bytes \<Rightarrow> 32 word" where "Uint32 b = word_of_nat (le_read (take 4 b))"
definition Uint64 :: "bytes \<Rightarrow> 64 word" where "Uint64 b = word_of_nat (le_read (take 8 b))"

definition string_of :: "bytes \<Rightarrow> string" where
  "string_of bs = map (\<lambda>b. char_of (unat b)) bs"

text \<open>\<open>bytes.IndexByte(b, 0)\<close>: the bytes before the first zero and those after it.\<close>

fun split_nul :: "bytes \<Rightarrow> (bytes \<times> bytes) option" where
  "split_nul [] = None"
| "split_nul (b # bs) = (if b = 0 then Some ([], bs) else
     (case split_nul bs of None \<Rightarrow> None | Some (x, y) \<Rightarrow> Some (b # x, y)))"

lemma length_le_bytes [simp]: "length (le_bytes k n) = k"
  by (induction k arbitrary: n) auto

lemma le_read_le_bytes: "le_read (le_bytes k n) = n mod 256 ^ k"
proof (induction k arbitrary: n)
  case (Suc k)
  have "le_read (le_bytes (Suc k) n) = n mod 256 + 256 * (n div 256 mod 256 ^ k)"
    by (simp add: Suc unat_of_nat)
  also have "\<dots> = n mod (256 * 256 ^ k)" by (simp add: mod_mult2_eq)
  finally show ?case by simp
qed simp

lemma length_Put [simp]: "length (PutUint32 w) = 4" "length (PutUint64 u) = 8"
  by (simp_all add: PutUint32_def PutUint64_def)

lemma Uint32_Put [simp]: "Uint32 (PutUint32 w @ b) = w"
  using unsigned_less [of w, where 'a = nat]
  by (simp add: Uint32_def PutUint32_def le_read_le_bytes)

lemma Uint64_Put [simp]: "Uint64 (PutUint64 u @ b) = u"
  using unsigned_less [of u, where 'a = nat]
  by (simp add: Uint64_def PutUint64_def le_read_le_bytes)

lemma string_of_bytes_of [simp]: "string_of (bytes_of s) = s"
  by (simp add: string_of_def bytes_of_def comp_def)

lemma split_nul_append: "0 \<notin> set x \<Longrightarrow> split_nul (x @ 0 # y) = Some (x, y)"
  by (induction x) auto

lemma split_nul_SomeD: "split_nul b = Some (x, y) \<Longrightarrow> b = x @ 0 # y \<and> 0 \<notin> set x"
proof (induction b arbitrary: x)
  case (Cons c b)
  show ?case
  proof (cases "c = 0")
    case False
    with Cons.prems obtain x' where "split_nul b = Some (x', y)" "x = c # x'"
      by (auto split: option.splits)
    with Cons.IH [of x'] False show ?thesis by simp
  qed (use Cons.prems in auto)
qed simp

lemma split_nul_length: "split_nul b = Some (x, y) \<Longrightarrow> length y < length b"
  using split_nul_SomeD [of b x y] by simp

lemma zero_in_bytes_of: "0 \<in> set (bytes_of s) \<longleftrightarrow> CHR 0x00 \<in> set s"
proof -
  have *: "(word_of_nat (of_char c) :: byte) = 0 \<longleftrightarrow> c = CHR 0x00" for c
  proof -
    have "(word_of_nat (of_char c) :: byte) = 0 \<longleftrightarrow> (of_char c :: nat) = of_char (CHR 0x00)"
      by (simp add: unat_eq_0 [symmetric])
    then show ?thesis by (simp only: of_char_eq_iff)
  qed
  have "0 \<in> set (bytes_of s) \<longleftrightarrow> (\<exists>c\<in>set s. (word_of_nat (of_char c) :: byte) = 0)"
    by (auto simp: bytes_of_def)
  then show ?thesis by (simp only: *) auto
qed

section \<open>The encoder\<close>

text \<open>\<open>bson_tag\<close> is the tag \<open>appendBSONValue\<close> stores at \<open>dst[tagAt]\<close>.\<close>

fun bson_tag :: "bson \<Rightarrow> byte" where
  "bson_tag (BDocument _) = 0x03"
| "bson_tag (BArray _) = 0x04"
| "bson_tag (BDouble _) = 0x01"
| "bson_tag (BString _) = 0x02"
| "bson_tag (BBinary _ _) = 0x05"
| "bson_tag (BObjectID _) = 0x07"
| "bson_tag (BBool _) = 0x08"
| "bson_tag (BDate _) = 0x09"
| "bson_tag BNull = 0x0a"
| "bson_tag BUndefined = 0x06"
| "bson_tag (BRegex _ _) = 0x0b"
| "bson_tag (BInt32 _) = 0x10"
| "bson_tag (BTimestamp _) = 0x11"
| "bson_tag (BInt64 _) = 0x12"
| "bson_tag (BDecimal128 _ _) = 0x13"
| "bson_tag BMinKey = 0xff"
| "bson_tag BMaxKey = 0x7f"

text \<open>The length prefix over the body of a document or array, and one field of it.\<close>

definition framed :: "bytes \<Rightarrow> bytes" where
  "framed body = PutUint32 (word_of_nat (4 + length body + 1)) @ body @ [0]"

definition element :: "byte \<Rightarrow> string \<Rightarrow> bytes \<Rightarrow> bytes" where
  "element t k body = t # bytes_of k @ [0] @ body"

fun appendBSONValue :: "bson \<Rightarrow> bytes"
  and fields_bson :: "fields \<Rightarrow> bytes"
  and items_bson :: "nat \<Rightarrow> bson list \<Rightarrow> bytes" where
  "appendBSONValue (BDocument fs) = framed (fields_bson fs)"
| "appendBSONValue (BArray vs) = framed (items_bson 0 vs)"
| "appendBSONValue (BDouble f) = PutUint64 f"
| "appendBSONValue (BString s) = PutUint32 (word_of_nat (length s + 1)) @ bytes_of s @ [0]"
| "appendBSONValue (BBinary t b) = PutUint32 (word_of_nat (length b)) @ [t] @ b"
| "appendBSONValue (BObjectID oid) = oid"
| "appendBSONValue (BBool b) = [if b then 1 else 0]"
| "appendBSONValue (BDate d) = PutUint64 d"
| "appendBSONValue BNull = []"
| "appendBSONValue BUndefined = []"
| "appendBSONValue (BRegex p q) = bytes_of p @ [0] @ bytes_of q @ [0]"
| "appendBSONValue (BInt32 i) = PutUint32 i"
| "appendBSONValue (BTimestamp t) = PutUint64 t"
| "appendBSONValue (BInt64 i) = PutUint64 i"
| "appendBSONValue (BDecimal128 l h) = PutUint64 l @ PutUint64 h"
| "appendBSONValue BMinKey = []"
| "appendBSONValue BMaxKey = []"
| "fields_bson [] = []"
| "fields_bson ((k, v) # fs) = element (bson_tag v) k (appendBSONValue v) @ fields_bson fs"
| "items_bson i [] = []"
| "items_bson i (v # vs) = element (bson_tag v) (Itoa i) (appendBSONValue v) @ items_bson (Suc i) vs"

definition AppendBSON :: "bytes \<Rightarrow> fields \<Rightarrow> bytes" where
  "AppendBSON dst fs = dst @ framed (fields_bson fs)"

text \<open>\<open>slices.SortStableFunc(fields, compareFieldKeys)\<close>, as a stable insertion sort.\<close>

definition compareFieldKeys :: "string \<times> 'v \<Rightarrow> string \<times> 'v \<Rightarrow> CompareResult" where
  "compareFieldKeys a b = bytes_compare (bytes_of (fst a)) (bytes_of (fst b))"

fun insert_field :: "string \<times> 'v \<Rightarrow> (string \<times> 'v) list \<Rightarrow> (string \<times> 'v) list" where
  "insert_field a [] = [a]"
| "insert_field a (b # fs) =
     (if compareFieldKeys a b = Greater then b # insert_field a fs else a # b # fs)"

fun sort_fields :: "(string \<times> 'v) list \<Rightarrow> (string \<times> 'v) list" where
  "sort_fields [] = []"
| "sort_fields (f # fs) = insert_field f (sort_fields fs)"

lemma mset_insert_field [simp]: "mset (insert_field a fs) = add_mset a (mset fs)"
  by (induction fs) auto

lemma mset_sort_fields [simp]: "mset (sort_fields fs) = mset fs"
  by (induction fs) auto

lemma set_sort_fields [simp]: "set (sort_fields fs) = set fs"
  by (metis mset_sort_fields set_mset_mset)

lemma in_enumerate_size [termination_simp]:
  "(i, v) \<in> set (List.enumerate n vs) \<Longrightarrow> size v < Suc (size_list size vs)"
  by (induction vs arbitrary: n) fastforce+

lemma in_sort_fields_size [termination_simp]:
  "(k, v) \<in> set (sort_fields fs) \<Longrightarrow> size v < Suc (size_list (size_prod (\<lambda>_. 0) size) fs)"
  using size_field_value [of k v fs] by simp

fun appendSortedKeysValue :: "bson \<Rightarrow> bytes" where
  "appendSortedKeysValue (BDocument fs) = framed (concat (map (\<lambda>(k, v).
     element (bson_tag v) k
       (if k = ''_id'' then appendBSONValue v else appendSortedKeysValue v)) (sort_fields fs)))"
| "appendSortedKeysValue (BArray vs) = framed (concat (map (\<lambda>(i, v).
     element (bson_tag v) (Itoa i) (appendSortedKeysValue v)) (List.enumerate 0 vs)))"
| "appendSortedKeysValue v = appendBSONValue v"

definition AppendBSONSortedKeys :: "bytes \<Rightarrow> fields \<Rightarrow> bytes" where
  "AppendBSONSortedKeys dst fs = dst @ appendSortedKeysValue (BDocument fs)"

section \<open>The decoder\<close>

datatype decode_error =
    ErrNestingTooDeep
  | ShortDocument nat
  | LengthPrefixMismatch nat nat
  | DocumentNotTerminated
  | UnexpectedEnd
  | EarlyTerminator
  | UnterminatedFieldName
  | InvalidArrayIndex bytes
  | ValueOverruns nat
  | ShortEmbedded nat
  | EmbeddedLengthOutOfRange nat nat
  | NeedsBytes byte nat nat
  | StringLengthPrefix int
  | StringExceeds int nat
  | StringNotTerminated
  | BinaryExceeds nat nat
  | InvalidBool byte
  | RegexUnterminated
  | UnsupportedTag byte
  | ShortLength
  | UnknownTag byte
  | InField bytes decode_error

type_synonym 'a decoded = "(decode_error, 'a) result"

definition MaxNestingDepth :: nat where "MaxNestingDepth = 200"

definition checkRawLength :: "bytes \<Rightarrow> unit decoded" where
  "checkRawLength raw =
     (if length raw < 5 then Err (ShortDocument (length raw))
      else if unat (Uint32 raw) \<noteq> length raw
        then Err (LengthPrefixMismatch (unat (Uint32 raw)) (length raw))
      else if last raw \<noteq> 0 then Err DocumentNotTerminated
      else Ok ())"

definition embeddedLength :: "bytes \<Rightarrow> nat decoded" where
  "embeddedLength b =
     (if length b < 5 then Err (ShortEmbedded (length b))
      else let l = unat (Uint32 b) in
        if l < 5 \<or> l > length b then Err (EmbeddedLengthOutOfRange l (length b)) else Ok l)"

definition containsName :: "string list \<Rightarrow> bytes \<Rightarrow> bool" where
  "containsName names name = list_ex (\<lambda>n. n = string_of name) names"

text \<open>
  \<open>regex_span\<close> is one of the two loops of the regex case of \<open>rawBSONValueSize\<close>, its
  terminator included: \<open>n\<close> steps past the end when there is none.
\<close>

definition regex_span :: "bytes \<Rightarrow> nat" where
  "regex_span b = length (takeWhile (\<lambda>x. x \<noteq> 0) b) + 1"

definition rawBSONValueSize :: "bytes \<Rightarrow> byte \<Rightarrow> nat decoded" where
  "rawBSONValueSize data t =
     (if t = 0x01 then Ok 8
      else if t = 0x02 then (if length data < 4 then Err ShortLength else Ok (4 + unat (Uint32 data)))
      else if t = 0x03 \<or> t = 0x04 then (if length data < 4 then Err ShortLength else Ok (unat (Uint32 data)))
      else if t = 0x05 then (if length data < 4 then Err ShortLength else Ok (4 + 1 + unat (Uint32 data)))
      else if t = 0x06 then Ok 0
      else if t = 0x07 then Ok 12
      else if t = 0x08 then Ok 1
      else if t = 0x09 then Ok 8
      else if t = 0x0a then Ok 0
      else if t = 0x0b then (let n = regex_span data in Ok (n + regex_span (drop n data)))
      else if t = 0x10 then Ok 4
      else if t = 0x11 then Ok 8
      else if t = 0x12 then Ok 8
      else if t = 0x13 then Ok 16
      else if t = 0x7f then Ok 0
      else if t = 0xff then Ok 0
      else Err (UnknownTag t))"

text \<open>\<open>fixed\<close> is the closure of \<open>decodeRawValue\<close> that checks the bytes at hand.\<close>

definition fixed :: "bytes \<Rightarrow> byte \<Rightarrow> nat \<Rightarrow> 'a decoded \<Rightarrow> 'a decoded" where
  "fixed b t n k = (if length b < n then Err (NeedsBytes t n (length b)) else k)"

fun scalarValue :: "bytes \<Rightarrow> byte \<Rightarrow> (bson \<times> nat) decoded" where
  "scalarValue b t =
     (if t = 0x01 then fixed b t 8 (Ok (BDouble (Uint64 b), 8))
      else if t = 0x02 then fixed b t 5 (let l = sint (Uint32 b) in
        if l < 1 then Err (StringLengthPrefix l)
        else if 4 + l > int (length b) then Err (StringExceeds l (length b - 4))
        else if b ! (4 + nat l - 1) \<noteq> 0 then Err StringNotTerminated
        else Ok (BString (string_of (take (nat l - 1) (drop 4 b))), 4 + nat l))
      else if t = 0x05 then fixed b t 5 (let l = unat (Uint32 b) in
        if 5 + l > length b then Err (BinaryExceeds l (length b - 5))
        else Ok (BBinary (b ! 4) (take l (drop 5 b)), 5 + l))
      else if t = 0x07 then fixed b t 12 (Ok (BObjectID (take 12 b), 12))
      else if t = 0x08 then fixed b t 1
        (if b ! 0 = 0 then Ok (BBool False, 1)
         else if b ! 0 = 1 then Ok (BBool True, 1) else Err (InvalidBool (b ! 0)))
      else if t = 0x09 then fixed b t 8 (Ok (BDate (Uint64 b), 8))
      else if t = 0x0a then Ok (BNull, 0)
      else if t = 0x0b then (case split_nul b of None \<Rightarrow> Err RegexUnterminated
        | Some (p, r) \<Rightarrow> (case split_nul r of None \<Rightarrow> Err RegexUnterminated
          | Some (q, _) \<Rightarrow> Ok (BRegex (string_of p) (string_of q), length p + 1 + length q + 1)))
      else if t = 0x10 then fixed b t 4 (Ok (BInt32 (Uint32 b), 4))
      else if t = 0x11 then fixed b t 8 (Ok (BTimestamp (Uint64 b), 8))
      else if t = 0x12 then fixed b t 8 (Ok (BInt64 (Uint64 b), 8))
      else if t = 0x13 then fixed b t 16 (Ok (BDecimal128 (Uint64 b) (Uint64 (drop 8 b)), 16))
      else if t = 0x06 then Ok (BUndefined, 0)
      else if t = 0xff then Ok (BMinKey, 0)
      else if t = 0x7f then Ok (BMaxKey, 0)
      else Err (UnsupportedTag t))"

declare scalarValue.simps [simp del]

lemma checkRawLength_Ok: "checkRawLength raw = Ok u \<Longrightarrow> 5 \<le> length raw"
  by (auto simp: checkRawLength_def split: if_splits)

text \<open>
  \<open>decodeRawLoop\<close> is the loop of \<open>decodeRawFields\<close> on the bytes from \<open>offset\<close> on; it
  returns the arguments of the calls of \<open>add\<close>, in order.
\<close>

function decodeRawDocument :: "bytes \<Rightarrow> nat \<Rightarrow> string list option \<Rightarrow> fields decoded"
  and decodeRawArray :: "bytes \<Rightarrow> nat \<Rightarrow> bson list decoded"
  and decodeRawLoop :: "bytes \<Rightarrow> bool \<Rightarrow> nat \<Rightarrow> string list option \<Rightarrow> nat \<Rightarrow> fields decoded"
  and decodeRawValue :: "bytes \<Rightarrow> byte \<Rightarrow> nat \<Rightarrow> (bson \<times> nat) decoded" where
  "decodeRawDocument raw depth want =
     (if depth > MaxNestingDepth then Err ErrNestingTooDeep
      else bind_result (checkRawLength raw) (\<lambda>_. decodeRawLoop (drop 4 raw) False depth want 0))"
| "decodeRawArray raw depth =
     (if depth > MaxNestingDepth then Err ErrNestingTooDeep
      else bind_result (checkRawLength raw) (\<lambda>_.
        bind_result (decodeRawLoop (drop 4 raw) True depth None 0) (\<lambda>fs. Ok (map snd fs))))"
| "decodeRawLoop rest isArray depth want cnt =
     (case rest of [] \<Rightarrow> Err UnexpectedEnd
      | t # r1 \<Rightarrow>
        if t = 0 then (if r1 = [] then Ok [] else Err EarlyTerminator)
        else (case split_nul r1 of None \<Rightarrow> Err UnterminatedFieldName
          | Some (nameBytes, r2) \<Rightarrow>
            if (case want of None \<Rightarrow> False | Some ws \<Rightarrow> \<not> containsName ws nameBytes) then
              (case rawBSONValueSize r2 t of Err e \<Rightarrow> Err (InField nameBytes e) | Panic \<Rightarrow> Panic
               | Ok n \<Rightarrow> if n > length r2 then Err (InField nameBytes (ValueOverruns n))
                   else decodeRawLoop (drop n r2) isArray depth want cnt)
            else if isArray \<and> string_of nameBytes \<noteq> Itoa cnt
              then Err (InvalidArrayIndex nameBytes)
            else (case decodeRawValue r2 t depth of Err e \<Rightarrow> Err (InField nameBytes e) | Panic \<Rightarrow> Panic
               | Ok (v, n) \<Rightarrow>
                 bind_result (decodeRawLoop (drop n r2) isArray depth want (Suc cnt)) (\<lambda>fs.
                   Ok ((if isArray then [] else string_of nameBytes, v) # fs)))))"
| "decodeRawValue b t depth =
     (if t = 0x03 then bind_result (embeddedLength b) (\<lambda>l.
        bind_result (decodeRawDocument (take l b) (Suc depth) None) (\<lambda>fs. Ok (BDocument fs, l)))
      else if t = 0x04 then bind_result (embeddedLength b) (\<lambda>l.
        bind_result (decodeRawArray (take l b) (Suc depth)) (\<lambda>vs. Ok (BArray vs, l)))
      else scalarValue b t)"
  by pat_completeness auto

termination
  by (relation "measure (\<lambda>x. case x of
        Inl (Inl (raw, _)) \<Rightarrow> 2 * length raw
      | Inl (Inr (raw, _)) \<Rightarrow> 2 * length raw
      | Inr (Inl (rest, _)) \<Rightarrow> 2 * length rest
      | Inr (Inr (b, _)) \<Rightarrow> 2 * length b + 1)")
    (auto dest!: checkRawLength_Ok split_nul_length)

declare decodeRawDocument.simps [simp del] decodeRawArray.simps [simp del]
  decodeRawLoop.simps [simp del] decodeRawValue.simps [simp del]

definition DecodeRawDocument :: "bytes \<Rightarrow> fields decoded" where
  "DecodeRawDocument raw = decodeRawDocument raw 1 None"

definition DecodeRawDocumentFields :: "bytes \<Rightarrow> string list option \<Rightarrow> fields decoded" where
  "DecodeRawDocumentFields raw want = decodeRawDocument raw 1 want"

section \<open>Well-formed values\<close>

text \<open>
  What the encoding can carry: field names and regexes without a zero byte and object
  ids of 12 bytes. \<open>nesting\<close> counts the documents and arrays on the deepest path.
\<close>

fun bson_wf :: "bson \<Rightarrow> bool" where
  "bson_wf (BDocument fs) = list_all (\<lambda>(k, v). CHR 0x00 \<notin> set k \<and> bson_wf v) fs"
| "bson_wf (BArray vs) = list_all bson_wf vs"
| "bson_wf (BObjectID oid) = (length oid = 12)"
| "bson_wf (BRegex p q) = (CHR 0x00 \<notin> set p \<and> CHR 0x00 \<notin> set q)"
| "bson_wf _ = True"

fun nesting :: "bson \<Rightarrow> nat" where
  "nesting (BDocument fs) = Suc (foldr (\<lambda>(k, v) n. max (nesting v) n) fs 0)"
| "nesting (BArray vs) = Suc (foldr (\<lambda>v n. max (nesting v) n) vs 0)"
| "nesting _ = 0"

lemma length_framed [simp]: "length (framed b) = 5 + length b"
  by (simp add: framed_def)

lemma length_element [simp]: "length (element t k b) = 2 + length k + length b"
  by (simp add: element_def)

lemma length_appendBSONValue:
  "bson_wf v \<Longrightarrow> length (appendBSONValue v) = bsonValueSize v"
  "bson_wf (BDocument fs) \<Longrightarrow> length (fields_bson fs) = fields_size fs"
  "bson_wf (BArray vs) \<Longrightarrow> length (items_bson i vs) = items_size i vs"
  by (induction v and fs and i vs rule: appendBSONValue_fields_bson_items_bson.induct) auto

section \<open>Decoding what the encoder wrote\<close>

lemma Uint32_length: "n < 2 ^ 32 \<Longrightarrow> unat (Uint32 (PutUint32 (word_of_nat n) @ b)) = n"
  by (simp add: unat_of_nat)

lemma sint_Uint32_length: "n < 2 ^ 31 \<Longrightarrow> sint (Uint32 (PutUint32 (word_of_nat n) @ b)) = int n"
  by (simp add: signed_of_nat signed_take_bit_int_eq_self)

lemma regex_span_append: "CHR 0x00 \<notin> set p \<Longrightarrow> regex_span (bytes_of p @ 0 # r) = length p + 1"
proof -
  assume "CHR 0x00 \<notin> set p"
  then have "x \<in> set (bytes_of p) \<Longrightarrow> x \<noteq> 0" for x using zero_in_bytes_of [of p] by auto
  then have "takeWhile (\<lambda>x. x \<noteq> 0) (bytes_of p @ 0 # r) = bytes_of p"
    by (subst takeWhile_append2) auto
  then show ?thesis by (simp add: regex_span_def)
qed

lemma split_nul_string: "CHR 0x00 \<notin> set k \<Longrightarrow> split_nul (bytes_of k @ 0 # r) = Some (bytes_of k, r)"
  by (simp add: split_nul_append zero_in_bytes_of)

lemma scalarValue_append:
  assumes "isScalar v" "bson_wf v" "bsonValueSize v < 2 ^ 31"
  shows "scalarValue (appendBSONValue v @ r) (bson_tag v) = Ok (v, length (appendBSONValue v))"
proof (cases v)
  case (BString s)
  then show ?thesis using assms sint_Uint32_length [of "length s + 1" "bytes_of s @ 0 # r"]
    by (simp add: scalarValue.simps fixed_def Let_def nth_append nat_add_distrib)
next
  case (BBinary t b)
  then show ?thesis using assms Uint32_length [of "length b" "t # b @ r"]
    by (simp add: scalarValue.simps fixed_def Let_def nth_append)
qed (use assms in \<open>simp_all add: scalarValue.simps fixed_def split_nul_string\<close>)

lemma unat_framed: "length b < 2 ^ 31 \<Longrightarrow> unat (Uint32 (framed b @ r)) = 5 + length b"
  using Uint32_length [of "5 + length b" "b @ 0 # r"] by (simp add: framed_def add.commute)

lemma rawBSONValueSize_append:
  assumes "bson_wf v" "bsonValueSize v < 2 ^ 31"
  shows "rawBSONValueSize (appendBSONValue v @ r) (bson_tag v) = Ok (length (appendBSONValue v))"
proof (cases v)
  case (BDocument fs)
  then show ?thesis using assms length_appendBSONValue(2) [of fs] unat_framed [of "fields_bson fs" r]
    by (simp add: rawBSONValueSize_def)
next
  case (BArray vs)
  then show ?thesis using assms length_appendBSONValue(3) [of vs 0] unat_framed [of "items_bson 0 vs" r]
    by (simp add: rawBSONValueSize_def)
next
  case (BString s)
  then show ?thesis using assms Uint32_length [of "length s + 1" "bytes_of s @ 0 # r"]
    by (simp add: rawBSONValueSize_def)
next
  case (BBinary t b)
  then show ?thesis using assms Uint32_length [of "length b" "t # b @ r"]
    by (simp add: rawBSONValueSize_def)
next
  case (BRegex p q)
  then show ?thesis using assms regex_span_append [of p "bytes_of q @ 0 # r"] regex_span_append [of q r]
    by (simp add: rawBSONValueSize_def Let_def)
qed (use assms in \<open>simp_all add: rawBSONValueSize_def\<close>)

lemma checkRawLength_framed: "length b < 2 ^ 31 \<Longrightarrow> checkRawLength (framed b) = Ok ()"
  using unat_framed [of b "[]"] by (simp add: checkRawLength_def) (simp add: framed_def)

lemma embeddedLength_framed:
  "length b < 2 ^ 31 \<Longrightarrow> embeddedLength (framed b @ r) = Ok (5 + length b)"
  using unat_framed [of b r] by (simp add: embeddedLength_def Let_def)

lemma drop_framed: "drop 4 (framed b) = b @ [0]"
  by (simp add: framed_def)

lemma bson_tag_nonzero [simp]: "bson_tag v \<noteq> 0"
  by (cases v) auto

definition kept :: "string list option \<Rightarrow> fields \<Rightarrow> fields" where
  "kept want fs = filter (\<lambda>(k, v). case want of None \<Rightarrow> True | Some ws \<Rightarrow> k \<in> set ws) fs"

lemma kept_simps [simp]:
  "kept None fs = fs"
  "kept (Some ws) fs = filter (\<lambda>(k, v). k \<in> set ws) fs"
  "kept want [] = []"
  by (simp_all add: kept_def)

lemma containsName_iff [simp]: "containsName ws (bytes_of k) \<longleftrightarrow> k \<in> set ws"
  by (auto simp: containsName_def list_ex_iff)

lemma decodeRawLoop_keep:
  assumes "t \<noteq> 0" "CHR 0x00 \<notin> set k" "isArray \<Longrightarrow> k = Itoa cnt"
    and "case want of None \<Rightarrow> True | Some ws \<Rightarrow> k \<in> set ws"
    and "decodeRawValue (body @ r) t depth = Ok (v, length body)"
  shows "decodeRawLoop (element t k body @ r) isArray depth want cnt =
     bind_result (decodeRawLoop r isArray depth want (Suc cnt))
       (\<lambda>fs. Ok ((if isArray then [] else k, v) # fs))"
  using assms
  by (subst decodeRawLoop.simps) (auto simp: element_def split_nul_string split: option.splits)

lemma decodeRawLoop_skip:
  assumes "t \<noteq> 0" "CHR 0x00 \<notin> set k" "k \<notin> set ws"
    and "rawBSONValueSize (body @ r) t = Ok (length body)"
  shows "decodeRawLoop (element t k body @ r) isArray depth (Some ws) cnt =
     decodeRawLoop r isArray depth (Some ws) cnt"
  using assms
  by (subst decodeRawLoop.simps) (simp add: element_def split_nul_string)

lemma decodeRawLoop_end [simp]: "decodeRawLoop [0] isArray depth want cnt = Ok []"
  by (simp add: decodeRawLoop.simps)

lemma decodeRawValue_scalar:
  assumes "isScalar v" "bson_wf v" "bsonValueSize v < 2 ^ 31"
  shows "decodeRawValue (appendBSONValue v @ r) (bson_tag v) depth = Ok (v, length (appendBSONValue v))"
proof -
  have "bson_tag v \<noteq> 3" "bson_tag v \<noteq> 4" using assms(1) by (cases v; simp)+
  then show ?thesis using scalarValue_append [OF assms] by (simp add: decodeRawValue.simps)
qed

text \<open>
  The three decoders on the output of the three encoders, by induction along the encoder.
\<close>

lemma decode_encode:
  "bson_wf v \<Longrightarrow> bsonValueSize v < 2 ^ 31 \<Longrightarrow> depth + nesting v \<le> MaxNestingDepth \<Longrightarrow>
     decodeRawValue (appendBSONValue v @ r) (bson_tag v) depth = Ok (v, length (appendBSONValue v))"
  "bson_wf (BDocument fs) \<Longrightarrow> fields_size fs + 5 < 2 ^ 31 \<Longrightarrow>
     depth + nesting (BDocument fs) \<le> Suc MaxNestingDepth \<Longrightarrow>
     decodeRawLoop (fields_bson fs @ [0]) False depth want cnt = Ok (kept want fs)"
  "bson_wf (BArray vs) \<Longrightarrow> items_size i vs + 5 < 2 ^ 31 \<Longrightarrow>
     depth + nesting (BArray vs) \<le> Suc MaxNestingDepth \<Longrightarrow>
     decodeRawLoop (items_bson i vs @ [0]) True depth None i = Ok (map (Pair []) vs)"
proof (induction v and fs and i vs arbitrary: depth r and depth want cnt and depth
    rule: appendBSONValue_fields_bson_items_bson.induct)
  case (1 fs)
  let ?b = "fields_bson fs"
  have len: "length ?b < 2 ^ 31" using 1 length_appendBSONValue(2) [of fs] by simp
  have "decodeRawLoop (?b @ [0]) False (Suc depth) None 0 = Ok fs"
    using 1 "1.IH" [of "Suc depth" None 0] by simp
  then have "decodeRawDocument (framed ?b) (Suc depth) None = Ok fs"
    using 1 len by (simp add: decodeRawDocument.simps checkRawLength_framed drop_framed)
  then show ?case using len by (simp add: decodeRawValue.simps embeddedLength_framed)
next
  case (2 vs)
  let ?b = "items_bson 0 vs"
  have len: "length ?b < 2 ^ 31" using 2 length_appendBSONValue(3) [of vs 0] by simp
  have "decodeRawLoop (?b @ [0]) True (Suc depth) None 0 = Ok (map (Pair []) vs)"
    using 2 "2.IH" [of "Suc depth"] by simp
  then have "decodeRawArray (framed ?b) (Suc depth) = Ok vs"
    using 2 len by (simp add: decodeRawArray.simps checkRawLength_framed drop_framed comp_def)
  then show ?case using len by (simp add: decodeRawValue.simps embeddedLength_framed)
next
  case (19 k v fs)
  let ?b = "appendBSONValue v" and ?r = "fields_bson fs @ [0]"
  have v: "decodeRawValue (?b @ ?r) (bson_tag v) depth = Ok (v, length ?b)"
    using 19 "19.IH"(1) [of depth ?r] by simp
  have sz: "rawBSONValueSize (?b @ ?r) (bson_tag v) = Ok (length ?b)"
    using 19 by (intro rawBSONValueSize_append) simp_all
  have IH: "decodeRawLoop ?r False depth want cnt' = Ok (kept want fs)" for cnt'
    using 19 "19.IH"(2) [of depth want cnt'] by simp
  show ?case
  proof (cases "case want of None \<Rightarrow> True | Some ws \<Rightarrow> k \<in> set ws")
    case True
    then show ?thesis using 19 IH decodeRawLoop_keep [OF _ _ _ True v, where isArray = False and cnt = cnt]
      by (simp add: kept_def)
  next
    case False
    then obtain ws where "want = Some ws" "k \<notin> set ws" by (auto split: option.splits)
    then show ?thesis using 19 IH [of cnt] decodeRawLoop_skip [OF _ _ _ sz, where isArray = False and cnt = cnt and depth = depth]
      by simp
  qed
next
  case (21 i v vs)
  let ?b = "appendBSONValue v" and ?r = "items_bson (Suc i) vs @ [0]"
  have v: "decodeRawValue (?b @ ?r) (bson_tag v) depth = Ok (v, length ?b)"
    using 21 "21.IH"(1) [of depth ?r] by simp
  have IH: "decodeRawLoop ?r True depth None (Suc i) = Ok (map (Pair []) vs)"
    using 21 "21.IH"(2) [of depth] by simp
  show ?case using IH decodeRawLoop_keep [OF _ _ _ _ v, where isArray = True and k = "Itoa i" and cnt = i and want = None] Itoa_no_NUL [of i]
    by simp
qed (simp_all del: appendBSONValue.simps bson_tag.simps add: decodeRawValue_scalar)

section \<open>Encoding what the decoder read\<close>

lemma byte_less_256: "unat (x :: byte) < 256"
  using unsigned_less [of x, where 'a = nat] by simp

lemma bytes_of_string_of [simp]: "bytes_of (string_of b) = b"
  by (induction b) (simp_all add: bytes_of_def string_of_def byte_less_256)

lemma le_bytes_le_read: "le_bytes (length b) (le_read b) = b"
proof (induction b)
  case (Cons x b)
  have "unat (word_of_nat (unat x + 256 * le_read b) :: byte) = (unat x + 256 * le_read b) mod 256"
    by (simp only: unat_of_nat) simp
  then have "(word_of_nat (unat x + 256 * le_read b) :: byte) = x"
    using byte_less_256 [of x] by (simp only: word_unat_eq_iff) simp
  then show ?case using Cons byte_less_256 [of x] by simp
qed simp

lemma le_read_bound: "le_read b < 256 ^ length b"
proof (induction b)
  case (Cons x b)
  with byte_less_256 [of x] show ?case by simp
qed simp

lemma Put_Uint32: "4 \<le> length b \<Longrightarrow> PutUint32 (Uint32 b) = take 4 b"
  using le_bytes_le_read [of "take 4 b"] le_read_bound [of "take 4 b"]
  by (simp add: PutUint32_def Uint32_def unat_of_nat min_absorb2)

lemma Put_Uint64: "8 \<le> length b \<Longrightarrow> PutUint64 (Uint64 b) = take 8 b"
  using le_bytes_le_read [of "take 8 b"] le_read_bound [of "take 8 b"]
  by (simp add: PutUint64_def Uint64_def unat_of_nat min_absorb2)

lemma framed_checked:
  assumes "checkRawLength raw = Ok u" "drop 4 raw = body @ [0]"
  shows "framed body = raw"
proof -
  have 5: "5 \<le> length raw" and len: "unat (Uint32 raw) = length raw"
    using assms(1) by (auto simp: checkRawLength_def split: if_splits)
  have "4 + length body + 1 = length raw"
    using arg_cong [OF assms(2), of length] 5 by simp
  moreover have "word_of_nat (length raw) = Uint32 raw" by (simp flip: len)
  moreover have "PutUint32 (Uint32 raw) = take 4 raw" using 5 by (simp add: Put_Uint32)
  ultimately have "PutUint32 (word_of_nat (4 + length body + 1)) = take 4 raw"
    by (simp only:)
  then show ?thesis using assms(2) by (metis append_take_drop_id framed_def)
qed

lemma length_string_of: "length (string_of b) = length b"
  by (simp add: string_of_def)

lemma take_binary: "5 + l \<le> length b \<Longrightarrow> take 4 b @ b ! 4 # take l (drop 5 b) = take (5 + l) b"
  using take_Suc_conv_app_nth [of 4 b] by (simp add: take_add [of 5 l])

lemma take_decimal: "take 8 b @ take 8 (drop 8 b) = take 16 b"
  using take_add [of 8 8 b] by simp

lemma take_bool: "b \<noteq> [] \<Longrightarrow> b ! 0 = x \<Longrightarrow> [x] = take (Suc 0) b \<and> Suc 0 \<le> length b"
  by (cases b) auto

lemma stringValue_Ok:
  assumes "scalarValue b 2 = Ok (v, n)"
  shows "bson_tag v = 2 \<and> n \<le> length b \<and> appendBSONValue v = take n b \<and> bson_wf v"
proof -
  let ?l = "sint (Uint32 b)"
  have l: "5 \<le> length b" "1 \<le> ?l" "4 + ?l \<le> int (length b)" "b ! (4 + nat ?l - 1) = 0"
    "v = BString (string_of (take (nat ?l - 1) (drop 4 b)))" "n = 4 + nat ?l"
    using assms by (auto simp: scalarValue.simps fixed_def Let_def split: if_splits)
  define m where "m = nat ?l - 1"
  have m: "nat ?l = Suc m" "?l = int (Suc m)" using l(2) by (simp_all add: m_def)
  have "word_of_nat (Suc m) = (word_of_int ?l :: 32 word)" by (simp only: m(2)) simp
  then have w: "PutUint32 (word_of_nat (Suc m)) = take 4 b"
    using l(1) by (simp add: Put_Uint32 del: of_nat_Suc)
  have "drop 4 b ! m = 0" using l(1,4) m(1) by simp
  then have z: "take m (drop 4 b) @ [0] = take (Suc m) (drop 4 b)"
    using l(3) m(2) by (subst take_Suc_conv_app_nth) auto
  have "appendBSONValue v = take 4 b @ take (Suc m) (drop 4 b)"
    using l(1,3) m w z by (simp add: l(5) length_string_of min_absorb2 flip: w z del: of_nat_Suc)
  then have "appendBSONValue v = take n b" using l(6) m(1) by (simp only: take_add)
  then show ?thesis using l by auto
qed

lemma scalarValue_Ok:
  assumes "scalarValue b t = Ok (v, n)"
  shows "bson_tag v = t \<and> n \<le> length b \<and> appendBSONValue v = take n b \<and> bson_wf v"
proof (cases "t = 2")
  case True
  then show ?thesis using assms stringValue_Ok by simp
next
  case False
  then show ?thesis using assms
    by (auto simp: scalarValue.simps fixed_def Let_def Put_Uint32 Put_Uint64 zero_in_bytes_of [symmetric]
      take_binary take_decimal take_bool dest!: split_nul_SomeD split: if_splits option.splits)
qed

lemma embeddedLength_Ok: "embeddedLength b = Ok l \<Longrightarrow> l \<le> length b"
  by (auto simp: embeddedLength_def Let_def split: if_splits)

lemma encode_decode:
  "decodeRawDocument raw1 depth want = Ok fs1 \<Longrightarrow> want = None \<Longrightarrow> framed (fields_bson fs1) = raw1"
  "decodeRawArray raw2 depth2 = Ok vs \<Longrightarrow> framed (items_bson 0 vs) = raw2"
  "decodeRawLoop rest isArray depth3 want3 cnt = Ok fs \<Longrightarrow> want3 = None \<Longrightarrow>
     rest = (if isArray then items_bson cnt (map snd fs) else fields_bson fs) @ [0]"
  "decodeRawValue b t depth4 = Ok (v, n) \<Longrightarrow>
     bson_tag v = t \<and> n \<le> length b \<and> appendBSONValue v = take n b"
proof (induction raw1 depth want and raw2 depth2 and rest isArray depth3 want3 cnt and b t depth4
    arbitrary: fs1 and vs and fs and v n
    rule: decodeRawDocument_decodeRawArray_decodeRawLoop_decodeRawValue.induct)
  case (1 raw depth want)
  have "\<not> MaxNestingDepth < depth" "checkRawLength raw = Ok ()"
    "decodeRawLoop (drop 4 raw) False depth want 0 = Ok fs1"
    using "1.prems"(1) [unfolded decodeRawDocument.simps [of raw]] by (auto split: if_splits)
  with "1.IH" [of "()" fs1] "1.prems" show ?case by (intro framed_checked) auto
next
  case (2 raw depth)
  obtain fs where *: "\<not> MaxNestingDepth < depth" "checkRawLength raw = Ok ()"
    "decodeRawLoop (drop 4 raw) True depth None 0 = Ok fs" "vs = map snd fs"
    using "2.prems" [unfolded decodeRawArray.simps [of raw]] by (auto split: if_splits)
  with "2.IH" [of "()" fs] show ?case by (intro framed_checked) auto
next
  case (3 rest isArray depth want cnt)
  note loop = "3.prems"(1) [unfolded decodeRawLoop.simps [of rest]]
  obtain t r1 where rest: "rest = t # r1" using loop by (cases rest) auto
  show ?case
  proof (cases "t = 0")
    case True
    then show ?thesis using loop rest by (auto split: if_splits)
  next
    case False
    obtain name r2 v n fs' where *: "split_nul r1 = Some (name, r2)"
      "\<not> (isArray \<and> string_of name \<noteq> Itoa cnt)"
      "decodeRawValue r2 t depth = Ok (v, n)"
      "decodeRawLoop (drop n r2) isArray depth want (Suc cnt) = Ok fs'"
      "fs = (if isArray then [] else string_of name, v) # fs'"
      using loop False rest "3.prems"(2) by (auto split: if_splits option.splits result.splits)
    have v: "bson_tag v = t" "appendBSONValue v = take n r2"
      using "3.IH"(2) [OF rest False *(1) _ _ *(2,3)] *(2) "3.prems"(2) by auto
    have r: "drop n r2 = (if isArray then items_bson (Suc cnt) (map snd fs') else fields_bson fs') @ [0]"
      using "3.IH"(3) [OF rest False *(1) _ _ *(2,3) _ *(4)] *(2) "3.prems"(2) by auto
    have "isArray \<Longrightarrow> bytes_of (Itoa cnt) = name" using *(2) by (metis bytes_of_string_of)
    moreover have "r1 = name @ 0 # take n r2 @ drop n r2" using split_nul_SomeD [OF *(1)] by simp
    ultimately show ?thesis using v r rest *(5) by (auto simp: element_def)
  qed
next
  case (4 b t depth)
  show ?case
  proof (cases "t = 3 \<or> t = 4")
    case True
    then show ?thesis using "4.prems" [unfolded decodeRawValue.simps [of b]] "4.IH"
      by (auto dest: embeddedLength_Ok split: if_splits)
  next
    case False
    then show ?thesis using "4.prems" [unfolded decodeRawValue.simps [of b]] scalarValue_Ok [of b t v n]
      by simp
  qed
qed

section \<open>Encoding with sorted keys\<close>

text \<open>
  \<open>sortKeys\<close> is the value whose plain encoding the sorted-keys encoder writes: every
  document's fields in byte order of their keys, the value of an \<open>_id\<close> as it is.
\<close>

fun sortKeys :: "bson \<Rightarrow> bson" where
  "sortKeys (BDocument fs) = BDocument (map (\<lambda>(k, v). (k, if k = ''_id'' then v else sortKeys v)) (sort_fields fs))"
| "sortKeys (BArray vs) = BArray (map sortKeys vs)"
| "sortKeys v = v"

lemma fields_bson_concat:
  "fields_bson fs = concat (map (\<lambda>(k, v). element (bson_tag v) k (appendBSONValue v)) fs)"
  by (induction fs) auto

lemma items_bson_concat:
  "items_bson i vs = concat (map (\<lambda>(j, v). element (bson_tag v) (Itoa j) (appendBSONValue v)) (List.enumerate i vs))"
  by (induction vs arbitrary: i) auto

lemma bson_tag_sortKeys [simp]: "bson_tag (sortKeys v) = bson_tag v"
  by (cases v) auto

lemma enumerate_map: "List.enumerate n (map f xs) = map (\<lambda>(i, x). (i, f x)) (List.enumerate n xs)"
  by (induction xs arbitrary: n) auto

lemma appendSortedKeysValue_eq: "appendSortedKeysValue v = appendBSONValue (sortKeys v)"
proof (induction v rule: appendSortedKeysValue.induct)
  case (1 fs)
  have "element (bson_tag v) k (if k = ''_id'' then appendBSONValue v else appendSortedKeysValue v) =
      element (bson_tag (if k = ''_id'' then v else sortKeys v)) k
        (appendBSONValue (if k = ''_id'' then v else sortKeys v))"
    if "(k, v) \<in> set (sort_fields fs)" for k v
    using 1 [of "(k, v)" k v] that by simp
  then show ?case
    by (auto simp: fields_bson_concat comp_def case_prod_beta
        intro!: arg_cong [of _ _ framed] arg_cong [of _ _ concat] map_cong)
next
  case (2 vs)
  have "appendSortedKeysValue v = appendBSONValue (sortKeys v)" if "(i, v) \<in> set (List.enumerate 0 vs)" for i v
    using 2 [of "(i, v)" i v] that by simp
  then show ?case
    by (auto simp: items_bson_concat comp_def case_prod_beta enumerate_map
        intro!: arg_cong [of _ _ framed] arg_cong [of _ _ concat] map_cong)
qed simp_all

lemma sorted_wrt_set_unique:
  assumes "\<And>x y. R x y \<Longrightarrow> \<not> R y x" "sorted_wrt R xs" "sorted_wrt R ys" "set xs = set ys"
  shows "xs = ys"
  using assms(2-)
proof (induction xs arbitrary: ys)
  case (Cons x xs)
  then obtain y ys' where ys: "ys = y # ys'" by (cases ys) auto
  have "x = y"
  proof (rule ccontr)
    assume "x \<noteq> y"
    then have "x \<in> set ys'" "y \<in> set xs" using Cons.prems(3) ys by auto
    then show False using Cons.prems(1,2) ys assms(1) by auto
  qed
  moreover have "x \<notin> set xs" "y \<notin> set ys'" using Cons.prems(1,2) ys assms(1) by auto
  ultimately have "set xs = set ys'" using Cons.prems(3) ys by auto
  with Cons.IH [of ys'] Cons.prems(1,2) ys \<open>x = y\<close> show ?case by simp
qed simp

lemma compareFieldKeys_simps:
  "compareFieldKeys a b = Equal \<longleftrightarrow> fst a = fst b"
  "compareFieldKeys a b = Less \<longleftrightarrow> compareFieldKeys b a = Greater"
proof -
  show "compareFieldKeys a b = Equal \<longleftrightarrow> fst a = fst b"
    by (metis bytes_compare_Equal compareFieldKeys_def string_of_bytes_of)
  show "compareFieldKeys a b = Less \<longleftrightarrow> compareFieldKeys b a = Greater"
  proof -
    have "compareFieldKeys b a = compareInvert (compareFieldKeys a b)"
      unfolding compareFieldKeys_def by (rule bytewise.cmp_invert) auto
    then show ?thesis by (cases "compareFieldKeys a b") auto
  qed
qed

lemma compareFieldKeys_less_trans:
  "compareFieldKeys a b = Less \<Longrightarrow> compareFieldKeys b c = Less \<Longrightarrow> compareFieldKeys a c = Less"
  unfolding compareFieldKeys_def by (rule bytewise.less_trans) auto

lemma insert_field_sorted:
  "sorted_wrt (\<lambda>a b. compareFieldKeys a b = Less) fs \<Longrightarrow> fst a \<notin> fst ` set fs \<Longrightarrow>
   sorted_wrt (\<lambda>a b. compareFieldKeys a b = Less) (insert_field a fs)"
proof (induction fs)
  case (Cons b fs)
  show ?case
  proof (cases "compareFieldKeys a b")
    case Less
    then show ?thesis using Cons.prems compareFieldKeys_less_trans [OF Less] by auto
  next
    case Equal
    then show ?thesis using Cons.prems by (auto simp: compareFieldKeys_simps)
  next
    case Greater
    have "set (insert_field a fs) = insert a (set fs)"
      by (metis mset_insert_field set_mset_add_mset_insert set_mset_mset)
    then show ?thesis using Cons Greater compareFieldKeys_simps(2) [of b a] by auto
  qed
qed simp

lemma sort_fields_sorted:
  "distinct (map fst fs) \<Longrightarrow> sorted_wrt (\<lambda>a b. compareFieldKeys a b = Less) (sort_fields fs)"
  by (induction fs) (auto intro!: insert_field_sorted)

lemma sort_fields_permuted:
  assumes "mset fs = mset gs" "distinct (map fst fs)"
  shows "sort_fields fs = sort_fields gs"
proof (rule sorted_wrt_set_unique [of "\<lambda>a b. compareFieldKeys a b = Less"])
  have "distinct (map fst gs)" using assms by (metis mset_eq_imp_distinct_iff mset_map)
  then show "sorted_wrt (\<lambda>a b. compareFieldKeys a b = Less) (sort_fields gs)"
    by (rule sort_fields_sorted)
  show "set (sort_fields fs) = set (sort_fields gs)" using mset_eq_setD [OF assms(1)] by simp
  show "sorted_wrt (\<lambda>a b. compareFieldKeys a b = Less) (sort_fields fs)"
    using assms(2) by (rule sort_fields_sorted)
  show "compareFieldKeys b a \<noteq> Less" if "compareFieldKeys a b = Less"
    for a b :: "string \<times> 'a"
    using that compareFieldKeys_simps(2) [of b a] by auto
qed

lemma bson_wf_sortKeys: "bson_wf v \<Longrightarrow> bson_wf (sortKeys v)"
proof (induction v rule: sortKeys.induct)
  case (1 fs)
  then show ?case by (fastforce simp: list_all_iff)
qed (auto simp: list_all_iff)

text \<open>
  What sorted and reordered mean, apart from the encoder: \<open>byte_less\<close> is the lexicographic order
  of the bytes of two keys, \<open>keys_sorted\<close> and \<open>keys_distinct\<close> look at every document the
  encoder sorts, and \<open>reordered\<close> relates values that differ in the order of the fields of
  such documents only.
\<close>

definition byte_less :: "string \<Rightarrow> string \<Rightarrow> bool" where
  "byte_less s t \<longleftrightarrow> (s, t) \<in> lexord {(a, b). (of_char a :: nat) < of_char b}"

fun keys_sorted :: "bson \<Rightarrow> bool" where
  "keys_sorted (BDocument fs) \<longleftrightarrow> sorted_wrt byte_less (map fst fs) \<and> list_all (\<lambda>(k, v). k = ''_id'' \<or> keys_sorted v) fs"
| "keys_sorted (BArray vs) \<longleftrightarrow> list_all keys_sorted vs"
| "keys_sorted _ \<longleftrightarrow> True"

fun keys_distinct :: "bson \<Rightarrow> bool" where
  "keys_distinct (BDocument fs) \<longleftrightarrow> distinct (map fst fs) \<and> list_all (\<lambda>(k, v). k = ''_id'' \<or> keys_distinct v) fs"
| "keys_distinct (BArray vs) \<longleftrightarrow> list_all keys_distinct vs"
| "keys_distinct _ \<longleftrightarrow> True"

inductive reordered :: "bson \<Rightarrow> bson \<Rightarrow> bool" where
  kept: "reordered v v"
| twice: "reordered u v \<Longrightarrow> reordered v w \<Longrightarrow> reordered u w"
| permuted: "mset fs = mset gs \<Longrightarrow> reordered (BDocument fs) (BDocument gs)"
| in_field: "reordered v w \<Longrightarrow> k \<noteq> ''_id'' \<Longrightarrow> reordered (BDocument (fs @ (k, v) # gs)) (BDocument (fs @ (k, w) # gs))"
| in_array: "reordered v w \<Longrightarrow> reordered (BArray (vs @ v # ws)) (BArray (vs @ w # ws))"

lemma compareFieldKeys_less: "compareFieldKeys a b = Less \<longleftrightarrow> byte_less (fst a) (fst b)"
proof -
  have ord: "(word_of_nat (of_char c) :: byte) < word_of_nat (of_char d) \<longleftrightarrow> (of_char c :: nat) < of_char d" for c d
    by (simp add: word_less_nat_alt)
  have inj: "(word_of_nat (of_char c) :: byte) = word_of_nat (of_char d) \<longleftrightarrow> c = d" for c d
    by (metis char_of_char unat_of_char_byte)
  have "bytes_compare (bytes_of s) (bytes_of t) = Less \<longleftrightarrow> byte_less s t" for s t
    unfolding bytes_of_def byte_less_def
    by (induction s t rule: list_induct2') (auto simp: ord inj)
  then show ?thesis by (simp add: compareFieldKeys_def)
qed

lemma sort_fields_map: "sort_fields (map (\<lambda>(k, v). (k, f k v)) fs) = map (\<lambda>(k, v). (k, f k v)) (sort_fields fs)"
proof -
  have "insert_field (fst x, f (fst x) (snd x)) (map (\<lambda>(k, v). (k, f k v)) gs) = map (\<lambda>(k, v). (k, f k v)) (insert_field x gs)" for x gs
    by (cases x, induction gs) (auto simp: compareFieldKeys_def)
  then show ?thesis by (induction fs) (auto simp: case_prod_beta)
qed

definition sort_value :: "string \<times> bson \<Rightarrow> string \<times> bson" where
  "sort_value = (\<lambda>(k, v). (k, if k = ''_id'' then v else sortKeys v))"

lemma sortKeys_fields: "sortKeys (BDocument fs) = BDocument (sort_fields (map sort_value fs))"
  by (simp add: sort_value_def sort_fields_map)

lemma fst_sort_value [simp]: "fst (sort_value f) = fst f" "fst \<circ> sort_value = fst"
  by (auto simp: sort_value_def split: prod.splits)

lemma reordered_distinct: "reordered v w \<Longrightarrow> keys_distinct v \<longleftrightarrow> keys_distinct w"
proof (induction rule: reordered.induct)
  case (permuted fs gs)
  then have "set fs = set gs" "distinct (map fst fs) = distinct (map fst gs)"
    by (metis set_mset_mset, metis mset_eq_imp_distinct_iff mset_map)
  then show ?case by (simp add: list_all_iff)
qed auto

lemma reordered_sortKeys: "reordered v w \<Longrightarrow> keys_distinct v \<Longrightarrow> sortKeys v = sortKeys w"
proof (induction rule: reordered.induct)
  case (permuted fs gs)
  then show ?case by (simp add: sort_fields_permuted)
next
  case (in_field v w k fs gs)
  then show ?case unfolding sortKeys_fields by (simp add: sort_value_def)
qed (auto dest: reordered_distinct)

lemma reordered_sort_values:
  "(\<And>k v. (k, v) \<in> set gs \<Longrightarrow> k \<noteq> ''_id'' \<Longrightarrow> reordered v (sortKeys v)) \<Longrightarrow>
    reordered (BDocument (fs @ gs)) (BDocument (fs @ map sort_value gs))"
proof (induction gs arbitrary: fs)
  case Nil
  show ?case by (simp add: reordered.kept)
next
  case (Cons g gs)
  obtain k v where g: "g = (k, v)" by (cases g)
  have "reordered (BDocument (fs @ (k, v) # gs)) (BDocument (fs @ sort_value (k, v) # gs))"
    using Cons.prems [of k v] by (auto simp: g sort_value_def intro: reordered.kept reordered.in_field)
  moreover have "reordered (BDocument ((fs @ [sort_value (k, v)]) @ gs)) (BDocument ((fs @ [sort_value (k, v)]) @ map sort_value gs))"
    by (rule Cons.IH) (auto intro: Cons.prems)
  ultimately show ?case using reordered.twice by (fastforce simp: g)
qed

lemma reordered_sort_items:
  "(\<And>v. v \<in> set ws \<Longrightarrow> reordered v (sortKeys v)) \<Longrightarrow> reordered (BArray (vs @ ws)) (BArray (vs @ map sortKeys ws))"
proof (induction ws arbitrary: vs)
  case Nil
  show ?case by (simp add: reordered.kept)
next
  case (Cons w ws)
  have "reordered (BArray (vs @ w # ws)) (BArray (vs @ sortKeys w # ws))" using Cons.prems by (simp add: reordered.in_array)
  moreover have "reordered (BArray ((vs @ [sortKeys w]) @ ws)) (BArray ((vs @ [sortKeys w]) @ map sortKeys ws))"
    by (rule Cons.IH) (auto intro: Cons.prems)
  ultimately show ?case using reordered.twice by fastforce
qed

lemma sortKeys_reordered: "reordered v (sortKeys v)"
proof (induction v rule: sortKeys.induct)
  case (1 fs)
  have "reordered (BDocument fs) (BDocument (map sort_value fs))"
    using reordered_sort_values [of fs "[]"] 1 by fastforce
  moreover have "reordered (BDocument (map sort_value fs)) (BDocument (sort_fields (map sort_value fs)))"
    by (rule reordered.permuted) simp
  ultimately show ?case unfolding sortKeys_fields by (rule reordered.twice)
next
  case (2 vs)
  then show ?case using reordered_sort_items [of vs "[]"] by simp
qed (auto intro: reordered.kept)

lemma sortKeys_sorted: "keys_distinct v \<Longrightarrow> keys_sorted (sortKeys v)"
proof (induction v rule: sortKeys.induct)
  case (1 fs)
  have "sorted_wrt (\<lambda>a b. compareFieldKeys a b = Less) (sort_fields (map sort_value fs))"
    using 1(2) by (intro sort_fields_sorted) simp
  then have "sorted_wrt byte_less (map fst (sort_fields (map sort_value fs)))"
    by (simp add: compareFieldKeys_less sorted_wrt_map)
  moreover have "k = ''_id'' \<or> keys_sorted v" if kv: "(k, v) \<in> set (map sort_value fs)" for k v
  proof -
    obtain w where w: "(k, w) \<in> set fs" "v = (if k = ''_id'' then w else sortKeys w)"
      using kv by (auto simp: sort_value_def split: prod.splits)
    then have "k = ''_id'' \<or> keys_distinct w" using 1(2) by (auto simp: list_all_iff)
    then show ?thesis using 1(1) [of "(k, w)" k w] w by auto
  qed
  then have "list_all (\<lambda>(k, v). k = ''_id'' \<or> keys_sorted v) (sort_fields (map sort_value fs))"
    unfolding list_all_iff set_sort_fields by blast
  ultimately show ?case unfolding sortKeys_fields by simp
qed (auto simp: list_all_iff)

lemma fields_size_sum: "fields_size fs = (\<Sum>(k, v)\<leftarrow>fs. 2 + length k + bsonValueSize v)"
  by (induction fs) auto

lemma bsonValueSize_sortKeys: "bsonValueSize (sortKeys v) = bsonValueSize v"
proof (induction v rule: sortKeys.induct)
  case (1 fs)
  let ?size = "\<lambda>(k, v). 2 + length k + bsonValueSize v"
  have "?size (sort_value f) = ?size f" if "f \<in> set fs" for f
    using 1 [of f "fst f" "snd f"] that by (cases f) (simp add: sort_value_def)
  then have "map ?size (map sort_value fs) = map ?size fs" by simp
  moreover have "sum_list (map ?size (sort_fields gs)) = sum_list (map ?size gs)" for gs
    by (simp flip: sum_mset_sum_list)
  ultimately show ?case unfolding sortKeys_fields by (simp only: bsonValueSize.simps fields_size_sum)
next
  case (2 vs)
  have "items_size i (map sortKeys ws) = items_size i ws" if "set ws \<subseteq> set vs" for i ws
    using that 2 by (induction ws arbitrary: i) auto
  then show ?case by simp
qed simp_all

lemma nesting_Max:
  "nesting (BDocument fs) = Suc (Max (insert 0 ((nesting \<circ> snd) ` set fs)))" "nesting (BArray vs) = Suc (Max (insert 0 (nesting ` set vs)))"
proof -
  have "foldr (\<lambda>x n. max (f x) n) xs 0 = Max (insert 0 (f ` set xs))" for f :: "'a \<Rightarrow> nat" and xs
    by (induction xs) (simp_all add: insert_commute [of 0])
  from this [of "nesting \<circ> snd" fs] this [of nesting vs] show
    "nesting (BDocument fs) = Suc (Max (insert 0 ((nesting \<circ> snd) ` set fs)))" "nesting (BArray vs) = Suc (Max (insert 0 (nesting ` set vs)))"
    by (simp_all add: case_prod_beta')
qed

lemma nesting_sortKeys: "nesting (sortKeys v) = nesting v"
proof (induction v rule: sortKeys.induct)
  case (1 fs)
  have "(nesting \<circ> snd) ` sort_value ` set fs = (nesting \<circ> snd) ` set fs"
    unfolding image_image using 1 by (intro image_cong) (auto simp: sort_value_def)
  then show ?case unfolding sortKeys_fields nesting_Max by simp
next
  case (2 vs)
  have "nesting ` sortKeys ` set vs = nesting ` set vs" unfolding image_image using 2 by (intro image_cong) auto
  then show ?case by (simp add: nesting_Max(2) del: nesting.simps)
qed simp_all

section \<open>Properties of the codec\<close>

text \<open>
  Property C1 (roundtrip). Decoding an encoded document gives the document back: for a document whose
  field names and regexes have no zero byte, whose encoding is under 2 GiB and which nests
  at most \<open>MaxNestingDepth\<close> deep, \<open>DecodeRawDocument\<close> of \<open>AppendBSON\<close> succeeds with
  every field, in order, with its type.
\<close>

theorem DecodeRawDocument_AppendBSON:
  assumes "bson_wf (BDocument fs)" "BSONSize fs < 2 ^ 31" "nesting (BDocument fs) \<le> MaxNestingDepth"
  shows "DecodeRawDocument (AppendBSON [] fs) = Ok fs"
proof -
  have "length (fields_bson fs) < 2 ^ 31"
    using assms length_appendBSONValue(2) [of fs] by (simp add: BSONSize_def)
  then show ?thesis
    using assms decode_encode(2) [of fs 1 None 0]
    by (simp add: DecodeRawDocument_def AppendBSON_def decodeRawDocument.simps
        checkRawLength_framed drop_framed BSONSize_def)
qed

definition sample_document :: fields where
  "sample_document = [(''_id'', BObjectID [1,2,3,4,5,6,7,8,9,10,11,12]), (''n'', BInt32 7),
     (''a'', BArray [BString ''x'', BDocument [(''z'', BNull), (''b'', BBool True)]])]"

lemmas sample_simps = sample_document_def BSONSize_def MaxNestingDepth_def

theorem DecodeRawDocument_AppendBSON_witness:
  "DecodeRawDocument (AppendBSON [] sample_document) = Ok sample_document"
  by (rule DecodeRawDocument_AppendBSON) (simp_all add: sample_simps Itoa.simps)

text \<open>
  Property C2 (roundtrip). The decoder accepts nothing but encodings: when \<open>DecodeRawDocument\<close> accepts a byte
  string, encoding the document it returns gives exactly those bytes. This is what lets a
  document keep the bytes it was decoded from and hand them out instead of encoding again.
\<close>

theorem AppendBSON_DecodeRawDocument:
  assumes "DecodeRawDocument raw = Ok fs"
  shows "AppendBSON [] fs = raw"
  using encode_decode(1) [of raw 1 None fs] assms by (simp add: DecodeRawDocument_def AppendBSON_def)

theorem AppendBSON_DecodeRawDocument_witness:
  "AppendBSON [] [(''a'', BInt32 1)] = [12, 0, 0, 0, 0x10, 97, 0, 1, 0, 0, 0, 0]"
  by (rule AppendBSON_DecodeRawDocument) code_simp

text \<open>
  Property C29 (functional). \<open>DecodeRawDocumentFields\<close> on an encoded document returns exactly the fields named
  in \<open>fields\<close>, in document order, and skips the others without decoding them; with no
  list it returns them all.
\<close>

theorem DecodeRawDocumentFields_AppendBSON:
  assumes "bson_wf (BDocument fs)" "BSONSize fs < 2 ^ 31" "nesting (BDocument fs) \<le> MaxNestingDepth"
  shows "DecodeRawDocumentFields (AppendBSON [] fs) want =
    Ok (case want of None \<Rightarrow> fs | Some ws \<Rightarrow> filter (\<lambda>(k, v). k \<in> set ws) fs)"
proof -
  have "length (fields_bson fs) < 2 ^ 31"
    using assms length_appendBSONValue(2) [of fs] by (simp add: BSONSize_def)
  then show ?thesis
    using assms decode_encode(2) [of fs 1 want 0]
    by (simp add: DecodeRawDocumentFields_def AppendBSON_def decodeRawDocument.simps
        checkRawLength_framed drop_framed BSONSize_def split: option.splits)
qed

theorem DecodeRawDocumentFields_AppendBSON_witness:
  "DecodeRawDocumentFields (AppendBSON [] sample_document) (Some [''n'', ''q'']) = Ok [(''n'', BInt32 7)]"
  using DecodeRawDocumentFields_AppendBSON [of sample_document "Some [''n'', ''q'']"]
  by (simp add: sample_simps Itoa.simps)

text \<open>
  \<open>BSONSize\<close> is the length of the encoding, so a buffer sized with it is never
  reallocated, and \<open>AppendBSON\<close> leaves what the buffer held in place.
\<close>

theorem AppendBSON_length:
  assumes "bson_wf (BDocument fs)"
  shows "length (AppendBSON dst fs) = length dst + BSONSize fs \<and> take (length dst) (AppendBSON dst fs) = dst"
  using length_appendBSONValue(2) [of fs] assms by (simp add: AppendBSON_def BSONSize_def)

theorem AppendBSON_length_witness:
  "length (AppendBSON [7] sample_document) = 1 + BSONSize sample_document \<and>
   take 1 (AppendBSON [7] sample_document) = [7]"
  using AppendBSON_length [of sample_document "[7]"] by (simp add: sample_simps)

text \<open>
  Property C30 (functional). \<open>AppendBSONSortedKeys\<close> writes a canonical encoding: it is the same for any two documents
  that differ in the order of fields only, at any level, and it decodes to such a document
  whose keys, and those of every nested document, are in strictly ascending byte order. The
  value of an \<open>_id\<close> field is left as it is, and keys are distinct in each document.
\<close>

theorem AppendBSONSortedKeys_canonical:
  assumes "reordered (BDocument fs) (BDocument gs)" "keys_distinct (BDocument fs)" "bson_wf (BDocument fs)"
    and "BSONSize fs < 2 ^ 31" "nesting (BDocument fs) \<le> MaxNestingDepth"
  shows "AppendBSONSortedKeys [] fs = AppendBSONSortedKeys [] gs \<and>
    (\<exists>hs. decodeRawDocument (AppendBSONSortedKeys [] fs) 1 None = Ok hs \<and>
      reordered (BDocument fs) (BDocument hs) \<and> keys_sorted (BDocument hs))"
proof
  show "AppendBSONSortedKeys [] fs = AppendBSONSortedKeys [] gs"
    using reordered_sortKeys [OF assms(1,2)] by (simp add: AppendBSONSortedKeys_def appendSortedKeysValue_eq del: sortKeys.simps)
  obtain hs where hs: "sortKeys (BDocument fs) = BDocument hs" by simp
  have wf: "bson_wf (BDocument hs)" using bson_wf_sortKeys [OF assms(3)] hs by metis
  have "length (fields_bson hs) < 2 ^ 31"
    using assms(4) wf length_appendBSONValue(2) [of hs] bsonValueSize_sortKeys [of "BDocument fs"] hs by (simp add: BSONSize_def)
  moreover have "bsonValueSize (BDocument hs) < 2 ^ 31" "nesting (BDocument hs) \<le> MaxNestingDepth"
    using assms(4,5) bsonValueSize_sortKeys [of "BDocument fs"] nesting_sortKeys [of "BDocument fs"] hs by (simp_all add: BSONSize_def)
  ultimately have "decodeRawDocument (AppendBSONSortedKeys [] fs) 1 None = Ok hs"
    using hs wf decode_encode(2) [of hs 1 None 0]
    by (simp add: AppendBSONSortedKeys_def appendSortedKeysValue_eq decodeRawDocument.simps
        checkRawLength_framed drop_framed BSONSize_def del: sortKeys.simps)
  then show "\<exists>hs. decodeRawDocument (AppendBSONSortedKeys [] fs) 1 None = Ok hs \<and>
      reordered (BDocument fs) (BDocument hs) \<and> keys_sorted (BDocument hs)"
    using sortKeys_reordered [of "BDocument fs"] sortKeys_sorted [OF assms(2)] hs by auto
qed

theorem AppendBSONSortedKeys_canonical_witness:
  "AppendBSONSortedKeys [] [(''b'', BDocument [(''y'', BNull), (''x'', BNull)]), (''a'', BInt32 1)] =
     AppendBSONSortedKeys [] [(''a'', BInt32 1), (''b'', BDocument [(''y'', BNull), (''x'', BNull)])] \<and>
   (\<exists>hs. decodeRawDocument (AppendBSONSortedKeys [] [(''b'', BDocument [(''y'', BNull), (''x'', BNull)]), (''a'', BInt32 1)]) 1 None = Ok hs \<and>
      keys_sorted (BDocument hs))"
  using AppendBSONSortedKeys_canonical [of "[(''b'', BDocument [(''y'', BNull), (''x'', BNull)]), (''a'', BInt32 1)]"
      "[(''a'', BInt32 1), (''b'', BDocument [(''y'', BNull), (''x'', BNull)])]", OF reordered.permuted]
  by (auto simp: sample_simps)

end
