(* ===== verification/Paths.thy ===== *)
theory Paths
  imports Values
begin

text \<open>
  Dot-notation paths: \<^verbatim>\<open>internal/types/path.go\<close>, with the field operations of
  \<^verbatim>\<open>document.go\<close> on a document's decoded fields (\<open>fields_Get\<close>,
  \<open>fields_Set\<close>, \<open>fields_Remove\<close>) and \<open>Document.SetByPath\<close>. A nested document or
  array that the code changes through a pointer is rebuilt here on the way back up.
\<close>

section \<open>Errors and paths\<close>

datatype PathErrorCode =
    ErrPathElementEmpty | ErrPathElementInvalid | ErrPathKeyNotFound | ErrPathIndexInvalid
  | ErrPathIndexOutOfBound | ErrPathCannotAccess | ErrPathCannotCreateField
  | ErrPathConflictOverwrite | ErrPathConflictCollision string

text \<open>
  \<open>PathError\<close> carries the code, for a collision with the reason that ends up in the
  command error; \<open>OtherError\<close> is an error without a code.
\<close>

datatype path_error = PathError PathErrorCode | OtherError

type_synonym path = "string list"

fun check_elements :: "path \<Rightarrow> PathErrorCode option" where
  "check_elements [] = None"
| "check_elements (e # es) =
     (if e = [] then Some ErrPathElementEmpty
      else if TrimSpace e \<noteq> e then Some ErrPathElementInvalid
      else if CHR ''.'' \<in> set e then Some ErrPathElementInvalid
      else check_elements es)"

definition newPath :: "path \<Rightarrow> (path_error, path) result" where
  "newPath path = (case check_elements path of Some c \<Rightarrow> Err (PathError c) | None \<Rightarrow> Ok path)"

definition NewPathFromString :: "string \<Rightarrow> (path_error, path) result" where
  "NewPathFromString s = newPath (split_dot s)"

definition Path_String :: "path \<Rightarrow> string" where
  "Path_String p = join_dot p"

text \<open>\<open>must.NotFail\<close> turns the error of \<open>newPath\<close> into a panic.\<close>

definition NewStaticPath :: "path \<Rightarrow> (path_error, path) result" where
  "NewStaticPath p = (case newPath p of Ok q \<Rightarrow> Ok q | _ \<Rightarrow> Panic)"

definition TrimSuffix :: "path \<Rightarrow> (path_error, path) result" where
  "TrimSuffix p = (if length p \<le> 1 then Panic else NewStaticPath (butlast p))"

definition TrimPrefix :: "path \<Rightarrow> (path_error, path) result" where
  "TrimPrefix p = (if length p \<le> 1 then Panic else NewStaticPath (tl p))"

definition Path_Append :: "path \<Rightarrow> string \<Rightarrow> (path_error, path) result" where
  "Path_Append p elem = NewStaticPath (p @ [elem])"

text \<open>\<open>matches\<close> is the inner loop of \<open>IsConflictPath\<close>: \<open>\<not> different\<close>.\<close>

fun matches :: "path \<Rightarrow> path \<Rightarrow> bool" where
  "matches [] target = True"
| "matches (x # prefix) (y # target) = (x = y \<and> matches prefix target)"
| "matches (x # prefix) [] = False"

fun IsConflictPath :: "path list \<Rightarrow> path \<Rightarrow> (path_error, unit) result" where
  "IsConflictPath [] path = Ok ()"
| "IsConflictPath (p # paths) path =
     (let target = (if length p < length path then path else p);
          prefix = (if length p < length path then p else path) in
      if prefix = [] then Panic
      else if \<not> matches prefix target then IsConflictPath paths path
      else if length p \<ge> length path then Err (PathError ErrPathConflictOverwrite)
      else Err (PathError (ErrPathConflictCollision (join_dot (drop (length prefix) target)))))"

section \<open>Fields of a document\<close>

definition key_count :: "fields \<Rightarrow> string \<Rightarrow> nat" where
  "key_count fs k = length (filter (\<lambda>f. fst f = k) fs)"

text \<open>\<open>Get\<close>, \<open>Set\<close> and \<open>Remove\<close> panic on a key the document has more than once.\<close>

definition fields_Get :: "fields \<Rightarrow> string \<Rightarrow> (path_error, bson) result" where
  "fields_Get fs k = (if key_count fs k > 1 then Panic
     else case field_get fs k of Some v \<Rightarrow> Ok v | None \<Rightarrow> Err OtherError)"

fun fields_put :: "fields \<Rightarrow> string \<Rightarrow> bson \<Rightarrow> fields" where
  "fields_put [] k v = [(k, v)]"
| "fields_put ((k', w) # fs) k v = (if k' = k then (k', v) # fs else (k', w) # fields_put fs k v)"

definition fields_Set :: "fields \<Rightarrow> string \<Rightarrow> bson \<Rightarrow> (path_error, fields) result" where
  "fields_Set fs k v = (if key_count fs k > 1 then Panic else Ok (fields_put fs k v))"

fun fields_del :: "fields \<Rightarrow> string \<Rightarrow> fields" where
  "fields_del [] k = []"
| "fields_del ((k', w) # fs) k = (if k' = k then fs else (k', w) # fields_del fs k)"

definition fields_Remove :: "fields \<Rightarrow> string \<Rightarrow> (path_error, fields) result" where
  "fields_Remove fs k = (if key_count fs k > 1 then Panic else Ok (fields_del fs k))"

section \<open>Reading, removing and setting by path\<close>

fun path_step :: "bson \<Rightarrow> string \<Rightarrow> (path_error, bson) result" where
  "path_step (BDocument fs) p = (case fields_Get fs p of
     Ok v \<Rightarrow> Ok v | Err _ \<Rightarrow> Err (PathError ErrPathKeyNotFound) | Panic \<Rightarrow> Panic)"
| "path_step (BArray vs) p = (case Atoi p of
     None \<Rightarrow> Err (PathError ErrPathIndexInvalid)
   | Some index \<Rightarrow>
       if index < 0 then Err (PathError ErrPathIndexInvalid)
       else if index \<ge> int (length vs) then Err (PathError ErrPathIndexOutOfBound)
       else Ok (vs ! nat index))"
| "path_step _ p = Err (PathError ErrPathCannotAccess)"

fun getByPath :: "bson \<Rightarrow> path \<Rightarrow> (path_error, bson) result" where
  "getByPath root [] = Ok root"
| "getByPath root (p # ps) = bind_result (path_step root p) (\<lambda>next. getByPath next ps)"

text \<open>
  A negative array index passes the bounds check \<open>i > len(v.s)-1\<close> of \<open>removeByPath\<close>
  and panics in the slice or index expression.
\<close>

fun removeByPath :: "bson \<Rightarrow> path \<Rightarrow> (path_error, bson) result" where
  "removeByPath v [] = Ok v"
| "removeByPath (BDocument fs) (key # rest) =
     (case field_get fs key of None \<Rightarrow> Ok (BDocument fs)
      | Some v \<Rightarrow>
          if rest = [] then bind_result (fields_Remove fs key) (\<lambda>fs'. Ok (BDocument fs'))
          else bind_result (removeByPath v rest) (\<lambda>v'. Ok (BDocument (fields_put fs key v'))))"
| "removeByPath (BArray vs) (key # rest) =
     (case Atoi key of None \<Rightarrow> Ok (BArray vs)
      | Some i \<Rightarrow>
          if i > int (length vs) - 1 then Ok (BArray vs)
          else if i < 0 then Panic
          else if rest = [] then Ok (BArray (take (nat i) vs @ drop (Suc (nat i)) vs))
          else bind_result (removeByPath (vs ! nat i) rest) (\<lambda>v'. Ok (BArray (vs[nat i := v']))))"
| "removeByPath v (key # rest) = Ok v"

text \<open>Writing a changed child back into the document or array it was read from.\<close>

fun path_put :: "bson \<Rightarrow> string \<Rightarrow> bson \<Rightarrow> bson" where
  "path_put (BDocument fs) p c = BDocument (fields_put fs p c)"
| "path_put (BArray vs) p c = (case Atoi p of Some i \<Rightarrow> BArray (vs[nat i := c]) | None \<Rightarrow> BArray vs)"
| "path_put v p c = v"

text \<open>
  \<open>insertByPath\<close> walks the path without its last element; \<open>next\<close> is the value at the
  elements walked so far. Once an element was missing, all that follow are created.
\<close>

fun insertByPath :: "bson \<Rightarrow> path \<Rightarrow> (path_error, bson) result" where
  "insertByPath next [] = Ok next"
| "insertByPath next (pathElem # elems) =
     (case path_step next pathElem of Panic \<Rightarrow> Panic
      | Ok v \<Rightarrow> bind_result (insertByPath v elems) (\<lambda>v'. Ok (path_put next pathElem v'))
      | Err _ \<Rightarrow>
        (case next of
           BDocument fs \<Rightarrow> bind_result (insertByPath (BDocument []) elems) (\<lambda>v'.
             bind_result (fields_Set fs pathElem v') (\<lambda>fs'. Ok (BDocument fs')))
         | BArray vs \<Rightarrow>
             (case Atoi pathElem of None \<Rightarrow> Err (PathError ErrPathCannotCreateField)
              | Some ind \<Rightarrow>
                  if ind < 0 then Err (PathError ErrPathIndexOutOfBound)
                  else bind_result (insertByPath (BDocument []) elems) (\<lambda>v'.
                    Ok (BArray (vs @ replicate (nat ind - length vs) BNull @ [v']))))
         | _ \<Rightarrow> Err (PathError ErrPathCannotCreateField)))"

fun setInner :: "bson \<Rightarrow> string \<Rightarrow> bson \<Rightarrow> (path_error, bson) result" where
  "setInner (BDocument fs) suffix value = bind_result (fields_Set fs suffix value) (\<lambda>fs'. Ok (BDocument fs'))"
| "setInner (BArray vs) suffix value = (case Atoi suffix of None \<Rightarrow> Err OtherError
     | Some index \<Rightarrow>
         if index < 0 then Err OtherError
         else Ok (BArray ((vs @ replicate (Suc (nat index) - length vs) BNull)[nat index := value])))"
| "setInner v suffix value = Err OtherError"

fun updateByPath :: "bson \<Rightarrow> path \<Rightarrow> (bson \<Rightarrow> (path_error, bson) result) \<Rightarrow> (path_error, bson) result" where
  "updateByPath v [] f = f v"
| "updateByPath v (p # ps) f = bind_result (path_step v p) (\<lambda>c.
     bind_result (updateByPath c ps f) (\<lambda>c'. Ok (path_put v p c')))"

definition setByPath :: "fields \<Rightarrow> path \<Rightarrow> bson \<Rightarrow> (path_error, bson) result" where
  "setByPath fs path value =
     (if length path = 1 then bind_result (fields_Set fs (hd path) value) (\<lambda>fs'. Ok (BDocument fs'))
      else bind_result (TrimSuffix path) (\<lambda>prefix.
        bind_result (case getByPath (BDocument fs) prefix of Ok _ \<Rightarrow> Ok (BDocument fs)
            | Err _ \<Rightarrow> insertByPath (BDocument fs) prefix | Panic \<Rightarrow> Panic) (\<lambda>d.
          updateByPath d prefix (\<lambda>inner. setInner inner (last path) value))))"

section \<open>Fields\<close>

lemma key_count_simps [simp]:
  "key_count [] k = 0"
  "key_count ((k', v) # fs) k = (if k' = k then Suc (key_count fs k) else key_count fs k)"
  by (simp_all add: key_count_def)

lemma field_get_None: "field_get fs k = None \<longleftrightarrow> key_count fs k = 0"
  by (induction fs) (auto split: if_splits)

lemma field_get_put [simp]: "field_get (fields_put fs k v) k' = (if k' = k then Some v else field_get fs k')"
  by (induction fs) auto

lemma key_count_put [simp]:
  "key_count (fields_put fs k v) k' = (if k' = k then max 1 (key_count fs k) else key_count fs k')"
  by (induction fs) auto

lemma key_count_del [simp]:
  "key_count (fields_del fs k) k' = (if k' = k then key_count fs k - 1 else key_count fs k')"
  by (induction fs) auto

lemma field_get_del: "k' \<noteq> k \<Longrightarrow> field_get (fields_del fs k) k' = field_get fs k'"
  by (induction fs) auto

lemma fields_del_absent: "key_count fs k = 0 \<Longrightarrow> fields_del fs k = fs"
  by (induction fs) (auto split: if_splits)

lemma fields_del_subset: "set (fields_del fs k) \<subseteq> set fs"
  by (induction fs) (auto split: if_splits)

lemma fields_Get_Ok: "fields_Get fs k = Ok v \<longleftrightarrow> key_count fs k = 1 \<and> field_get fs k = Some v"
  using field_get_None [of fs k]
  by (cases "key_count fs k") (auto simp: fields_Get_def split: option.splits)

section \<open>Steps\<close>

lemma path_put_same: "path_step v p = Ok c \<Longrightarrow> path_step (path_put v p c') p = Ok c'"
  by (cases v) (auto simp: fields_Get_def split: result.splits option.splits if_splits)

lemma path_step_Ok_document: "path_step (BDocument fs) p = Ok c \<longleftrightarrow> fields_Get fs p = Ok c"
  by (auto split: result.splits)

lemma getByPath_append: "getByPath v (p @ q) = bind_result (getByPath v p) (\<lambda>w. getByPath w q)"
proof (induction p arbitrary: v)
  case (Cons a p)
  show ?case by (cases "path_step v a") (simp_all add: Cons)
qed simp

lemma getByPath_update:
  "updateByPath v ps f = Ok v' \<Longrightarrow> \<exists>w w'. getByPath v ps = Ok w \<and> f w = Ok w' \<and> getByPath v' ps = Ok w'"
proof (induction ps arbitrary: v v')
  case (Cons p ps)
  then obtain c c' where c: "path_step v p = Ok c" "updateByPath c ps f = Ok c'" "v' = path_put v p c'"
    by auto
  from Cons.IH [OF c(2)] show ?case using c path_put_same [OF c(1)] by simp
qed simp

lemma setInner_get: "setInner v s value = Ok w \<Longrightarrow> path_step w s = Ok value"
proof (cases v)
  case (BArray vs)
  assume "setInner v s value = Ok w"
  then obtain i where i: "Atoi s = Some i" "0 \<le> i"
    "w = BArray ((vs @ replicate (Suc (nat i) - length vs) BNull)[nat i := value])"
    using BArray by (auto split: option.splits if_splits)
  then have "nat i < length vs + (Suc (nat i) - length vs)" by simp
  with i show ?thesis by (simp add: nat_less_iff)
qed (auto simp: fields_Get_def fields_Set_def split: result.splits if_splits)

section \<open>Valid paths\<close>

lemma check_elements_None:
  "check_elements p = None \<longleftrightarrow> list_all (\<lambda>e. e \<noteq> [] \<and> TrimSpace e = e \<and> CHR ''.'' \<notin> set e) p"
  by (induction p) auto

lemma newPath_Ok: "newPath p = Ok q \<longleftrightarrow> q = p \<and> check_elements p = None"
  by (auto simp: newPath_def split: option.splits)

lemma TrimSuffix_Ok: "TrimSuffix p = Ok q \<Longrightarrow> 1 < length p \<and> q = butlast p"
  by (auto simp: TrimSuffix_def NewStaticPath_def newPath_Ok split: if_splits result.splits)

lemma matches_iff: "matches p t \<longleftrightarrow> take (length p) t = p"
  by (induction p t rule: matches.induct) auto

section \<open>Documents without duplicate keys\<close>

fun no_dup :: "bson \<Rightarrow> bool" where
  "no_dup (BDocument fs) \<longleftrightarrow> distinct (map fst fs) \<and> list_all (\<lambda>(k, v). no_dup v) fs"
| "no_dup (BArray vs) \<longleftrightarrow> list_all no_dup vs"
| "no_dup _ \<longleftrightarrow> True"

lemma key_count_zero: "key_count fs k = 0 \<longleftrightarrow> k \<notin> fst ` set fs"
  by (induction fs) (auto split: if_splits)

lemma key_count_distinct: "distinct (map fst fs) \<Longrightarrow> key_count fs k \<le> 1"
  by (induction fs) (auto simp: key_count_zero)

lemma fields_put_fst: "fst ` set (fields_put fs k v) = insert k (fst ` set fs)"
proof (induction fs)
  case (Cons f fs)
  then show ?case by (cases f; cases "fst f = k") auto
qed simp

lemma no_dup_put: "no_dup (BDocument fs) \<Longrightarrow> no_dup v \<Longrightarrow> no_dup (BDocument (fields_put fs k v))"
proof (induction fs)
  case (Cons f fs)
  then show ?case by (cases f) (auto simp: fields_put_fst)
qed simp

lemma field_get_in: "field_get fs k = Some v \<Longrightarrow> (k, v) \<in> set fs"
  by (induction fs) (auto split: if_splits)

lemma path_step_no_dup:
  assumes "no_dup v"
  shows "path_step v p \<noteq> Panic" and "path_step v p = Ok c \<Longrightarrow> no_dup c"
proof -
  show "path_step v p \<noteq> Panic"
    using assms key_count_distinct [of _ p] by (cases v)
      (auto simp: fields_Get_def not_less split: option.splits result.splits if_splits)
  show "no_dup c" if "path_step v p = Ok c"
  proof (cases v)
    case (BDocument fs)
    then have "(p, c) \<in> set fs" using that by (auto simp: fields_Get_Ok dest: field_get_in split: result.splits)
    then show ?thesis using assms BDocument by (auto simp: list_all_iff)
  qed (use assms that in \<open>auto simp: list_all_iff split: option.splits if_splits\<close>)
qed

lemma no_dup_path_put: "no_dup v \<Longrightarrow> no_dup c \<Longrightarrow> no_dup (path_put v p c)"
proof (cases v)
  case (BDocument fs)
  assume "no_dup v" "no_dup c"
  then show ?thesis using no_dup_put [of fs c p] BDocument by simp
next
  case (BArray vs)
  assume "no_dup v" "no_dup c"
  then show ?thesis using BArray set_update_subset_insert [of vs]
    by (auto simp: list_all_iff split: option.splits)
qed auto

lemma insertByPath_no_dup:
  "no_dup v \<Longrightarrow> insertByPath v ps \<noteq> Panic \<and> (\<forall>w. insertByPath v ps = Ok w \<longrightarrow> no_dup w)"
proof (induction ps arbitrary: v)
  case (Cons p ps)
  show ?case
  proof (cases "path_step v p")
    case (Ok c)
    then show ?thesis using Cons.IH [of c] path_step_no_dup(2) [OF Cons.prems Ok] no_dup_path_put [OF Cons.prems]
      by (cases "insertByPath c ps") auto
  next
    case (Err e)
    have nd: "no_dup (BDocument [])" by simp
    show ?thesis
    proof (cases v)
      case (BDocument fs)
      then show ?thesis using Cons.IH [OF nd] Err Cons.prems key_count_distinct [of fs p] no_dup_put [of fs _ p]
        by (cases "insertByPath (BDocument []) ps") (auto simp: fields_Set_def)
    next
      case (BArray vs)
      then show ?thesis using Cons.IH [OF nd] Err Cons.prems
        by (cases "insertByPath (BDocument []) ps") (auto simp: list_all_iff split: option.splits)
    qed (use Err in simp_all)
  qed (use path_step_no_dup(1) [OF Cons.prems, of p] in simp)
qed simp

lemma insertByPath_get: "insertByPath v ps = Ok w \<Longrightarrow> \<exists>c. getByPath w ps = Ok c"
proof (induction ps arbitrary: v w)
  case (Cons p ps)
  show ?case
  proof (cases "path_step v p")
    case (Ok c)
    with Cons.prems obtain c' where c': "insertByPath c ps = Ok c'" "w = path_put v p c'" by auto
    then show ?thesis using Cons.IH [OF c'(1)] path_put_same [OF Ok, of c'] by simp
  next
    case (Err e)
    show ?thesis
    proof (cases v)
      case (BDocument fs)
      with Cons.prems Err obtain c' where c': "insertByPath (BDocument []) ps = Ok c'"
        "\<not> 1 < key_count fs p" "w = BDocument (fields_put fs p c')"
        by (auto simp: fields_Set_def split: if_splits)
      then show ?thesis using Cons.IH [OF c'(1)] by (simp add: fields_Get_def)
    next
      case (BArray vs)
      with Cons.prems Err obtain i c' where i: "Atoi p = Some i" "0 \<le> i" and
        c': "insertByPath (BDocument []) ps = Ok c'" "w = BArray (vs @ replicate (nat i - length vs) BNull @ [c'])"
        by (auto split: option.splits if_splits)
      have "length vs \<le> nat i" using Err BArray i by (auto split: if_splits)
      then have "path_step w p = Ok c'" using i c'(2) by (simp add: nth_append)
      then show ?thesis using Cons.IH [OF c'(1)] by simp
    qed (use Cons.prems Err in simp_all)
  qed (use Cons.prems in simp)
qed simp

lemma updateByPath_document:
  "updateByPath (BDocument fs) (p # ps) f = Ok d \<Longrightarrow> \<exists>c. d = BDocument (fields_put fs p c)"
  by (auto simp: fields_Set_def split: result.splits if_splits)

lemma insertByPath_document:
  "insertByPath (BDocument fs) (p # ps) = Ok d \<Longrightarrow> \<exists>c. d = BDocument (fields_put fs p c)"
  by (auto simp: fields_Set_def split: result.splits if_splits)

lemma fields_put_put [simp]: "fields_put (fields_put fs k v) k w = fields_put fs k w"
  by (induction fs) auto

lemma getByPath_put_other:
  "k \<noteq> p \<Longrightarrow> getByPath (BDocument (fields_put fs p c)) (k # ks) = getByPath (BDocument fs) (k # ks)"
  by (simp add: fields_Get_def)

lemma setByPath_longE:
  assumes "setByPath fs path value = Ok d" "length path \<noteq> 1"
  obtains d' where "1 < length path"
    "updateByPath d' (butlast path) (\<lambda>inner. setInner inner (last path) value) = Ok d"
    "d' = BDocument fs \<or> insertByPath (BDocument fs) (butlast path) = Ok d'"
proof -
  obtain q where q: "TrimSuffix path = Ok q" using assms by (auto simp: setByPath_def)
  then have "1 < length path" "q = butlast path" by (auto dest: TrimSuffix_Ok)
  with that assms q show thesis
    by (cases "getByPath (BDocument fs) q") (auto simp: setByPath_def)
qed

lemma setByPath_put:
  assumes "setByPath fs path value = Ok d"
  shows "\<exists>c. d = BDocument (fields_put fs (hd path) c)"
proof (cases "length path = 1")
  case True
  then show ?thesis using assms by (auto simp: setByPath_def fields_Set_def split: if_splits)
next
  case False
  then obtain d' where prefix: "1 < length path" and d': "updateByPath d' (butlast path)
      (\<lambda>inner. setInner inner (last path) value) = Ok d"
    and ins: "d' = BDocument fs \<or> insertByPath (BDocument fs) (butlast path) = Ok d'"
    using setByPath_longE [OF assms] by metis
  obtain p ps where ps: "butlast path = p # ps" "hd path = p"
    using prefix by (cases path; cases "tl path") auto
  obtain fs' where "d' = BDocument fs'" "fs' = fs \<or> (\<exists>c. fs' = fields_put fs p c)"
    using ins insertByPath_document [of fs p ps d'] ps by auto
  then show ?thesis using updateByPath_document [of fs' p ps _ d] d' ps by auto
qed

lemma setByPath_get:
  assumes "setByPath fs path value = Ok d"
  shows "getByPath d path = Ok value"
proof (cases "length path = 1")
  case True
  then obtain k where "path = [k]" by (cases path) auto
  then show ?thesis using assms by (auto simp: setByPath_def fields_Set_def fields_Get_def split: if_splits)
next
  case False
  then obtain d' where prefix: "1 < length path" and d': "updateByPath d' (butlast path)
      (\<lambda>inner. setInner inner (last path) value) = Ok d"
    using setByPath_longE [OF assms] by metis
  obtain w w' where "setInner w (last path) value = Ok w'" "getByPath d (butlast path) = Ok w'"
    using getByPath_update [OF d'] by blast
  then have "getByPath d (butlast path @ [last path]) = Ok value"
    by (simp add: getByPath_append setInner_get)
  then show ?thesis using prefix by (metis append_butlast_last_id list.size(3) not_less_zero)
qed

section \<open>Setting and removing without duplicate keys\<close>

lemma setInner_no_dup:
  "no_dup v \<Longrightarrow> no_dup value \<Longrightarrow> setInner v s value \<noteq> Panic \<and> (\<forall>w. setInner v s value = Ok w \<longrightarrow> no_dup w)"
proof (cases v)
  case (BDocument fs)
  assume "no_dup v" "no_dup value"
  then show ?thesis using BDocument key_count_distinct [of fs s] no_dup_put [of fs "value" s]
    by (auto simp: fields_Set_def)
next
  case (BArray vs)
  assume "no_dup v" "no_dup value"
  then have *: "no_dup (BArray (ws[i := value]))" if "set ws \<subseteq> insert BNull (set vs)" for ws i
    using that BArray set_update_subset_insert [of ws i "value"] by (auto simp: list_all_iff)
  show ?thesis using BArray
    by (auto split: option.splits if_splits simp: set_replicate_conv_if simp del: no_dup.simps intro!: *)
qed auto

lemma updateByPath_no_dup:
  assumes "\<And>w. no_dup w \<Longrightarrow> f w \<noteq> Panic \<and> (\<forall>w'. f w = Ok w' \<longrightarrow> no_dup w')"
  shows "no_dup v \<Longrightarrow> updateByPath v ps f \<noteq> Panic \<and> (\<forall>w. updateByPath v ps f = Ok w \<longrightarrow> no_dup w)"
proof (induction ps arbitrary: v)
  case Nil
  then show ?case using assms by simp
next
  case (Cons p ps)
  show ?case
  proof (cases "path_step v p")
    case (Ok c)
    then show ?thesis using Cons.IH [of c] path_step_no_dup(2) [OF Cons.prems Ok] no_dup_path_put [OF Cons.prems]
      by (cases "updateByPath c ps f") auto
  qed (use path_step_no_dup(1) [OF Cons.prems, of p] in auto)
qed

lemma getByPath_no_dup: "no_dup v \<Longrightarrow> getByPath v ps \<noteq> Panic"
proof (induction ps arbitrary: v)
  case (Cons p ps)
  then show ?case using path_step_no_dup [OF Cons.prems, of p] by (cases "path_step v p") auto
qed simp

lemma TrimSuffix_valid: "newPath p = Ok p \<Longrightarrow> 1 < length p \<Longrightarrow> TrimSuffix p = Ok (butlast p)"
  by (auto simp: TrimSuffix_def NewStaticPath_def newPath_def check_elements_None list_all_iff
      dest: in_set_butlastD split: option.splits)

lemma removeByPath_no_Err: "removeByPath v ps \<noteq> Err e"
proof (induction ps arbitrary: v)
  case (Cons p ps)
  have "bind_result (removeByPath c ps) (\<lambda>c'. Ok (f c')) \<noteq> Err e" for c and f :: "bson \<Rightarrow> bson"
    using Cons.IH [of c] by (cases "removeByPath c ps") auto
  then show ?case by (cases v) (auto simp: fields_Remove_def split: option.splits)
qed simp

text \<open>The container a removal leaves behind.\<close>

fun child_removed :: "bson \<Rightarrow> string \<Rightarrow> bson" where
  "child_removed (BDocument fs) k = BDocument (fields_del fs k)"
| "child_removed (BArray vs) k =
     (case Atoi k of Some i \<Rightarrow> BArray (take (nat i) vs @ drop (Suc (nat i)) vs) | None \<Rightarrow> BArray vs)"
| "child_removed v k = v"

lemma removeByPath_last:
  "path_step v k = Ok x \<Longrightarrow> removeByPath v [k] = Ok (child_removed v k)"
  by (cases v) (auto simp: fields_Get_Ok fields_Remove_def split: option.splits if_splits result.splits)

lemma removeByPath_step:
  assumes "path_step v p = Ok c" "ps \<noteq> []"
  shows "removeByPath v (p # ps) = bind_result (removeByPath c ps) (\<lambda>c'. Ok (path_put v p c'))"
  using assms by (cases v) (auto simp: fields_Get_Ok split: option.splits if_splits result.splits)

lemma removeByPath_get:
  "getByPath v (p @ [k]) = Ok x \<Longrightarrow>
   \<exists>w c. removeByPath v (p @ [k]) = Ok w \<and> getByPath v p = Ok c \<and> getByPath w p = Ok (child_removed c k)"
proof (induction p arbitrary: v)
  case Nil
  then show ?case using removeByPath_last [of v k x] by simp
next
  case (Cons e p)
  then obtain c where c: "path_step v e = Ok c" "getByPath c (p @ [k]) = Ok x" by auto
  from Cons.IH [OF c(2)] obtain w d where
    w: "removeByPath c (p @ [k]) = Ok w" "getByPath c p = Ok d" "getByPath w p = Ok (child_removed d k)" by blast
  have "removeByPath v (e # p @ [k]) = Ok (path_put v e w)"
    using removeByPath_step [OF c(1), of "p @ [k]"] w(1) by simp
  then show ?case using c(1) w path_put_same [OF c(1), of w] by simp
qed

lemma removeByPath_negative_panics:
  "getByPath v p = Ok (BArray vs) \<Longrightarrow> Atoi k = Some i \<Longrightarrow> i < 0 \<Longrightarrow> removeByPath v (p @ [k]) = Panic"
proof (induction p arbitrary: v)
  case (Cons e p)
  then obtain c where c: "path_step v e = Ok c" "getByPath c p = Ok (BArray vs)" by auto
  then show ?case using Cons.IH [OF c(2)] Cons.prems removeByPath_step [OF c(1), of "p @ [k]"] by simp
qed simp

section \<open>Properties of paths\<close>

text \<open>
  Parsing a dot-notation string and printing the path gives the string back; every
  element of a parsed path is non-empty, has no surrounding space and no dot; and printing
  a valid path and parsing it gives the path back.
\<close>

theorem NewPathFromString_roundtrip:
  "(NewPathFromString s = Ok p \<longrightarrow> Path_String p = s \<and> p \<noteq> [] \<and> newPath p = Ok p) \<and>
   (newPath p = Ok p \<and> p \<noteq> [] \<longrightarrow> NewPathFromString (Path_String p) = Ok p)"
proof -
  have "split_dot (join_dot p) = p" if "newPath p = Ok p" "p \<noteq> []"
    using that by (intro split_join_dot) (auto simp: newPath_Ok check_elements_None list_all_iff)
  then show ?thesis
    by (auto simp: NewPathFromString_def Path_String_def newPath_Ok)
qed

theorem NewPathFromString_roundtrip_witness:
  "NewPathFromString ''a.b'' = Ok [''a'', ''b''] \<and> Path_String [''a'', ''b''] = ''a.b''"
proof -
  have "NewPathFromString ''a.b'' = Ok [''a'', ''b'']" by code_simp
  with NewPathFromString_roundtrip [of "''a.b''" "[''a'', ''b'']"] show ?thesis by blast
qed

text \<open>
  \<open>IsConflictPath\<close> accepts a path exactly when neither it nor any of the given paths
  is a prefix of the other; when it is rejected, the first conflicting path decides
  between an overwrite and a collision.
\<close>

theorem IsConflictPath_accepts:
  assumes "path \<noteq> []" "\<forall>p\<in>set paths. p \<noteq> []"
  shows "IsConflictPath paths path \<noteq> Panic \<and>
    (IsConflictPath paths path = Ok () \<longleftrightarrow>
      (\<forall>p\<in>set paths. take (length p) path \<noteq> p \<and> take (length path) p \<noteq> path))"
  using assms(2)
proof (induction paths)
  case (Cons p paths)
  have "length path \<le> length p \<Longrightarrow> take (length p) path = p \<Longrightarrow> take (length path) p = path" by auto
  moreover have "length p < length path \<Longrightarrow> take (length path) p \<noteq> path" by (metis length_take min_less_iff_conj nat_neq_iff)
  ultimately show ?case using Cons assms(1) by (auto simp: Let_def matches_iff)
qed simp

theorem IsConflictPath_accepts_witness:
  "IsConflictPath [[''a'', ''b''], [''c'']] [''a'', ''d''] = Ok ()"
  using IsConflictPath_accepts [of "[''a'', ''d'']" "[[''a'', ''b''], [''c'']]"] by simp

text \<open>
  Property C24 (functional). What \<open>SetByPath\<close> writes is what \<open>GetByPath\<close> reads: after a successful set the path
  leads to the value, missing documents and array elements having been created, and every
  path that starts at another field reads as before.
\<close>

theorem setByPath_getByPath:
  assumes "setByPath fs path value = Ok d"
  shows "getByPath d path = Ok value \<and>
    (\<forall>k ks. k \<noteq> hd path \<longrightarrow> getByPath d (k # ks) = getByPath (BDocument fs) (k # ks))"
  using setByPath_get [OF assms] setByPath_put [OF assms] getByPath_put_other by blast

theorem setByPath_getByPath_witness:
  "getByPath (BDocument [(''a'', BArray [BNull, BDocument [(''b'', BInt32 1)]])]) [''a'', ''1'', ''b''] = Ok (BInt32 1)"
  by (rule setByPath_getByPath [of "[(''a'', BArray [])]", THEN conjunct1])
    code_simp

text \<open>
  Property C25 (invariant). On a document without duplicate keys at any level, \<open>SetByPath\<close> with a valid path and
  such a value never panics, and the document it produces again has no duplicate keys.
\<close>

theorem setByPath_keeps_no_dup:
  assumes "no_dup (BDocument fs)" "no_dup value" "newPath path = Ok path" "path \<noteq> []"
  shows "setByPath fs path value \<noteq> Panic \<and> (\<forall>d. setByPath fs path value = Ok d \<longrightarrow> no_dup d)"
proof (cases "length path = 1")
  case True
  then show ?thesis using setInner_no_dup [OF assms(1,2), of "hd path"] by (simp add: setByPath_def)
next
  case False
  then have "1 < length path" using assms(4) by (cases path) auto
  then have q: "TrimSuffix path = Ok (butlast path)" using assms(3) by (intro TrimSuffix_valid)
  have upd: "no_dup d \<Longrightarrow> updateByPath d (butlast path) (\<lambda>inner. setInner inner (last path) value) \<noteq> Panic \<and>
      (\<forall>w. updateByPath d (butlast path) (\<lambda>inner. setInner inner (last path) value) = Ok w \<longrightarrow> no_dup w)" for d
    using setInner_no_dup [OF _ assms(2)] by (intro updateByPath_no_dup) auto
  show ?thesis
    using False q upd assms(1) insertByPath_no_dup [OF assms(1), of "butlast path"]
      getByPath_no_dup [OF assms(1), of "butlast path"]
    by (cases "getByPath (BDocument fs) (butlast path)"; cases "insertByPath (BDocument fs) (butlast path)")
      (simp_all add: setByPath_def del: no_dup.simps)
qed

theorem setByPath_keeps_no_dup_witness:
  "setByPath [(''a'', BNull)] [''b''] (BInt32 1) = Ok (BDocument [(''a'', BNull), (''b'', BInt32 1)]) \<and>
   no_dup (BDocument [(''a'', BNull), (''b'', BInt32 1)])"
proof -
  have run: "setByPath [(''a'', BNull)] [''b''] (BInt32 1) = Ok (BDocument [(''a'', BNull), (''b'', BInt32 1)])"
    by code_simp
  have "newPath [''b''] = Ok [''b'']" by code_simp
  then show ?thesis using run setByPath_keeps_no_dup [of "[(''a'', BNull)]" "BInt32 1" "[''b'']"] by simp
qed

text \<open>
  Removing a path that leads to a value removes exactly that field from the document, or
  exactly that element from the array, that contains it.
\<close>

theorem removeByPath_removes:
  assumes "getByPath v (p @ [k]) = Ok x"
  shows "\<exists>w c. removeByPath v (p @ [k]) = Ok w \<and> getByPath v p = Ok c \<and> getByPath w p = Ok (child_removed c k)"
  by (rule removeByPath_get [OF assms])

theorem removeByPath_removes_witness:
  "\<exists>w c. removeByPath (BDocument [(''a'', BArray [BNull, BInt32 3])]) [''a'', ''0''] = Ok w \<and>
     getByPath (BDocument [(''a'', BArray [BNull, BInt32 3])]) [''a''] = Ok c \<and>
     getByPath w [''a''] = Ok (child_removed c ''0'')"
proof -
  have "getByPath (BDocument [(''a'', BArray [BNull, BInt32 3])]) ([''a''] @ [''0'']) = Ok BNull" by code_simp
  from removeByPath_removes [OF this] show ?thesis by simp
qed

text \<open>
  Property C32 (error). A path that ends in a negative array index makes \<open>removeByPath\<close> panic instead of doing
  nothing: the bounds check lets it through to the slice expression.
\<close>

theorem removeByPath_negative_index:
  assumes "getByPath v p = Ok (BArray vs)" "Atoi k = Some i" "i < 0"
  shows "removeByPath v (p @ [k]) = Panic"
  by (rule removeByPath_negative_panics [OF assms])

theorem removeByPath_negative_index_witness:
  "removeByPath (BDocument [(''a'', BArray [BInt32 3])]) [''a'', ''-1''] = Panic"
proof -
  have "getByPath (BDocument [(''a'', BArray [BInt32 3])]) [''a''] = Ok (BArray [BInt32 3])" by code_simp
  moreover have "Atoi ''-1'' = Some (-1)" by code_simp
  ultimately show ?thesis using removeByPath_negative_index [of _ "[''a'']" _ "''-1''" "-1"] by simp
qed

end
