(* ===== verification/Document.thy ===== *)
theory Document
  imports Codec Paths
begin

text \<open>
  The document type, \<^verbatim>\<open>internal/types/document.go\<close>: a list of fields with an
  optional index of key counts, an optional copy of the BSON bytes the fields were (or are
  still to be) decoded from, and a frozen flag. \<open>doc_abs\<close> is the list of fields a
  document stands for, \<open>doc_inv\<close> what its representation keeps, and the locale
  \<open>field_container\<close> the contract every user of a document relies on. Nested documents are
  values of the fields: the representation of their own, lazily decoded or frozen, is not
  modelled, and \<open>nested_write\<close> stands for a change of one through its pointer.
\<close>

section \<open>Representation\<close>

record documentExtra =
  x_raw :: "bytes option"
  x_decoded :: bool
  x_frozen :: bool

record Document =
  d_keys :: "(string \<rightharpoonup> nat) option"
  d_fields :: "fields option"
  d_extra :: "documentExtra option"
  d_recordID :: int64

definition keyIndexMinFields :: nat where "keyIndexMinFields = 16"

definition new_Document :: Document where
  "new_Document = \<lparr>d_keys = None, d_fields = None, d_extra = None, d_recordID = 0\<rparr>"

definition MakeDocument :: "nat \<Rightarrow> Document" where
  "MakeDocument capacity = (if capacity = 0 then new_Document else new_Document\<lparr>d_fields := Some []\<rparr>)"

definition NewLazyDocument :: "bytes \<Rightarrow> Document" where
  "NewLazyDocument raw =
     new_Document\<lparr>d_extra := Some \<lparr>x_raw = Some raw, x_decoded = False, x_frozen = False\<rparr>\<rparr>"

text \<open>Ranging over a nil slice is ranging over an empty one.\<close>

definition flds :: "Document \<Rightarrow> fields" where
  "flds d = (case d_fields d of None \<Rightarrow> [] | Some fs \<Rightarrow> fs)"

fun count_key :: "(string \<rightharpoonup> nat) \<Rightarrow> string \<Rightarrow> (string \<rightharpoonup> nat)" where
  "count_key m k = m(k \<mapsto> (case m k of None \<Rightarrow> 1 | Some n \<Rightarrow> Suc n))"

definition buildKeyIndex :: "Document \<Rightarrow> Document" where
  "buildKeyIndex d = d\<lparr>d_keys := Some (foldl (\<lambda>m f. count_key m (fst f)) Map.empty (flds d))\<rparr>"

definition NewDocument :: "fields \<Rightarrow> Document" where
  "NewDocument pairs =
     (if pairs = [] then new_Document
      else let d = new_Document\<lparr>d_fields := Some pairs\<rparr> in
        if length pairs \<ge> keyIndexMinFields then buildKeyIndex d else d)"

text \<open>The end of \<open>Set\<close> and of \<open>AppendDecoded\<close>: append a field and index its key.\<close>

definition append_field :: "Document \<Rightarrow> string \<Rightarrow> bson \<Rightarrow> Document" where
  "append_field d key val =
     (let d = d\<lparr>d_fields := Some (flds d @ [(key, val)])\<rparr> in
      case d_keys d of Some m \<Rightarrow> d\<lparr>d_keys := Some (count_key m key)\<rparr>
      | None \<Rightarrow> if length (flds d) \<ge> keyIndexMinFields then buildKeyIndex d else d)"

text \<open>
  \<open>rawDecoder\<close> is \<open>bson.DecodeRawDocument\<close>, which appends the decoded fields to
  \<open>MakeDocument(8)\<close> and returns a new document when there are none.
\<close>

definition rawDecoder :: "bytes \<Rightarrow> Document decoded" where
  "rawDecoder raw = bind_result (DecodeRawDocument raw) (\<lambda>fs.
     Ok (if fs = [] then new_Document else foldl (\<lambda>d f. append_field d (fst f) (snd f)) (MakeDocument 8) fs))"

type_synonym 'a op = "(path_error, 'a) result"

definition decodeLazy :: "Document \<Rightarrow> Document op" where
  "decodeLazy d = (case d_extra d of None \<Rightarrow> Panic
     | Some x \<Rightarrow> (case x_raw x of None \<Rightarrow> Ok d
       | Some raw \<Rightarrow> if x_decoded x then Ok d
           else (case rawDecoder raw of
             Ok doc \<Rightarrow> Ok (d\<lparr>d_fields := d_fields doc, d_keys := d_keys doc,
                         d_extra := Some (x\<lparr>x_decoded := True\<rparr>)\<rparr>)
           | _ \<Rightarrow> Panic)))"

definition load :: "Document \<Rightarrow> Document op" where
  "load d = (if d_fields d = None \<and> d_extra d \<noteq> None then decodeLazy d else Ok d)"

definition lazy :: "Document \<Rightarrow> bool" where
  "lazy d = (case d_extra d of None \<Rightarrow> False | Some x \<Rightarrow> x_raw x \<noteq> None \<and> \<not> x_decoded x)"

definition rawBSON :: "Document \<Rightarrow> bytes option" where
  "rawBSON d = (case d_extra d of None \<Rightarrow> None | Some x \<Rightarrow> x_raw x)"

definition drop_raw :: "Document \<Rightarrow> Document" where
  "drop_raw d = d\<lparr>d_extra := map_option (\<lambda>x. x\<lparr>x_raw := None\<rparr>) (d_extra d)\<rparr>"

definition modify :: "Document \<Rightarrow> Document op" where
  "modify d = bind_result (load d) (\<lambda>d. Ok (drop_raw d))"

definition Freeze :: "Document \<Rightarrow> Document" where
  "Freeze d = d\<lparr>d_extra := Some ((case d_extra d of
     None \<Rightarrow> \<lparr>x_raw = None, x_decoded = False, x_frozen = False\<rparr> | Some x \<Rightarrow> x)\<lparr>x_frozen := True\<rparr>)\<rparr>"

definition is_frozen :: "Document \<Rightarrow> bool" where
  "is_frozen d = (case d_extra d of None \<Rightarrow> False | Some x \<Rightarrow> x_frozen x)"

definition checkFrozen :: "Document \<Rightarrow> unit op" where
  "checkFrozen d = (if is_frozen d then Panic else Ok ())"

definition SetRecordID :: "Document \<Rightarrow> int64 \<Rightarrow> Document" where
  "SetRecordID d r = d\<lparr>d_recordID := r\<rparr>"

section \<open>Reading\<close>

definition Len :: "Document \<Rightarrow> (Document \<times> nat) op" where
  "Len d = bind_result (load d) (\<lambda>d. Ok (d, length (flds d)))"

definition Keys :: "Document \<Rightarrow> (Document \<times> string list) op" where
  "Keys d = bind_result (load d) (\<lambda>d. Ok (d, map fst (flds d)))"

definition Values :: "Document \<Rightarrow> (Document \<times> bson list) op" where
  "Values d = bind_result (load d) (\<lambda>d. Ok (d, map snd (flds d)))"

definition Map_document :: "Document \<Rightarrow> (Document \<times> (string \<rightharpoonup> bson)) op" where
  "Map_document d = bind_result (load d) (\<lambda>d. Ok (d, foldl (\<lambda>m f. m(fst f \<mapsto> snd f)) Map.empty (flds d)))"

fun duplicate_scan :: "string list \<Rightarrow> fields \<Rightarrow> string option" where
  "duplicate_scan seen [] = None"
| "duplicate_scan seen (f # fs) = (if fst f \<in> set seen then Some (fst f) else duplicate_scan (fst f # seen) fs)"

definition FindDuplicateKey :: "Document \<Rightarrow> (Document \<times> string option) op" where
  "FindDuplicateKey d = bind_result (load d) (\<lambda>d. Ok (d, duplicate_scan [] (flds d)))"

definition rawFirstKey :: "bytes \<Rightarrow> string" where
  "rawFirstKey raw = (if length raw < 6 \<or> raw ! 4 = 0 then []
     else case split_nul (drop 5 raw) of None \<Rightarrow> [] | Some (k, _) \<Rightarrow> string_of k)"

definition Command :: "Document \<Rightarrow> string" where
  "Command d = (if lazy d then (case rawBSON d of None \<Rightarrow> [] | Some raw \<Rightarrow> rawFirstKey raw)
     else case flds d of [] \<Rightarrow> [] | f # _ \<Rightarrow> fst f)"

fun duplicate_loop :: "fields \<Rightarrow> string \<Rightarrow> bool \<Rightarrow> bool" where
  "duplicate_loop [] targetKey seen = False"
| "duplicate_loop (f # fs) targetKey seen =
     (if fst f = targetKey then (if seen then True else duplicate_loop fs targetKey True)
      else duplicate_loop fs targetKey seen)"

definition isKeyDuplicate :: "Document \<Rightarrow> string \<Rightarrow> bool" where
  "isKeyDuplicate d targetKey = (case d_keys d of
     Some m \<Rightarrow> (case m targetKey of None \<Rightarrow> False | Some n \<Rightarrow> n > 1)
   | None \<Rightarrow> duplicate_loop (flds d) targetKey False)"

text \<open>\<open>Has\<close> and \<open>Get\<close> decode a lazy document after a miss and look again.\<close>

definition has_now :: "Document \<Rightarrow> string \<Rightarrow> bool" where
  "has_now d key = (case d_keys d of Some m \<Rightarrow> m key \<noteq> None | None \<Rightarrow> list_ex (\<lambda>f. fst f = key) (flds d))"

definition Has :: "Document \<Rightarrow> string \<Rightarrow> (Document \<times> bool) op" where
  "Has d key =
     (if has_now d key then Ok (d, True)
      else if d_keys d = None \<and> d_fields d = None \<and> lazy d
        then bind_result (decodeLazy d) (\<lambda>d. Ok (d, has_now d key))
      else Ok (d, False))"

definition get_now :: "Document \<Rightarrow> string \<Rightarrow> bson option op" where
  "get_now d key = (if isKeyDuplicate d key then Panic else Ok (field_get (flds d) key))"

definition Get :: "Document \<Rightarrow> string \<Rightarrow> (Document \<times> bson option) op" where
  "Get d key = bind_result (get_now d key) (\<lambda>v. case v of Some v \<Rightarrow> Ok (d, Some v)
     | None \<Rightarrow> if d_fields d = None \<and> lazy d
         then bind_result (decodeLazy d) (\<lambda>d. bind_result (get_now d key) (\<lambda>v. Ok (d, v)))
         else Ok (d, None))"

section \<open>Writing\<close>

definition Set_document :: "Document \<Rightarrow> string \<Rightarrow> bson \<Rightarrow> Document op" where
  "Set_document d key val = bind_result (checkFrozen d) (\<lambda>_. bind_result (modify d) (\<lambda>d.
     if isKeyDuplicate d key then Panic
     else if list_ex (\<lambda>f. fst f = key) (flds d)
       then Ok (d\<lparr>d_fields := Some (fields_put (flds d) key val)\<rparr>)
     else Ok (append_field d key val)))"

definition AppendDecoded :: "Document \<Rightarrow> string \<Rightarrow> bson \<Rightarrow> Document op" where
  "AppendDecoded d key val = bind_result (modify d) (\<lambda>d. Ok (append_field d key val))"

definition Remove_document :: "Document \<Rightarrow> string \<Rightarrow> (Document \<times> bson option) op" where
  "Remove_document d key = bind_result (checkFrozen d) (\<lambda>_. bind_result (modify d) (\<lambda>d.
     if isKeyDuplicate d key then Panic
     else case field_get (flds d) key of
       None \<Rightarrow> Ok (d, None)
     | Some v \<Rightarrow> Ok (d\<lparr>d_keys := map_option (\<lambda>m. m(key := None)) (d_keys d),
                    d_fields := Some (fields_del (flds d) key)\<rparr>, Some v)))"

text \<open>
  \<open>slices.SortFunc\<close> leaves the order of equal keys open; with distinct keys the stable
  sort is the only result.
\<close>

definition SortFieldsByKey :: "Document \<Rightarrow> Document op" where
  "SortFieldsByKey d = bind_result (checkFrozen d) (\<lambda>_. bind_result (modify d) (\<lambda>d.
     Ok (d\<lparr>d_fields := map_option sort_fields (d_fields d)\<rparr>)))"

fun find_key :: "fields \<Rightarrow> string \<Rightarrow> nat" where
  "find_key [] k = 0"
| "find_key (f # fs) k = (if fst f = k then 0 else Suc (find_key fs k))"

definition moveIDToTheFirstIndex :: "Document \<Rightarrow> Document op" where
  "moveIDToTheFirstIndex d = bind_result (modify d) (\<lambda>d. bind_result (Has d ''_id'') (\<lambda>(d, h).
     if \<not> h then Ok d
     else let idIdx = find_key (flds d) ''_id'' in
       if idIdx = 0 then Ok d
       else bind_result (checkFrozen d) (\<lambda>_.
         let fs = flds d ! idIdx # flds d in
         Ok (d\<lparr>d_fields := Some (take (Suc idIdx) fs @ drop (Suc (Suc idIdx)) fs)\<rparr>))))"

section \<open>Paths\<close>

definition GetByPath :: "Document \<Rightarrow> path \<Rightarrow> (Document \<times> (path_error, bson) result) op" where
  "GetByPath d path = (case path of
     [] \<Rightarrow> bind_result (load d) (\<lambda>d. Ok (d, Ok (BDocument (flds d))))
   | p # ps \<Rightarrow> bind_result (Get d p) (\<lambda>(d, v). case v of
       None \<Rightarrow> Ok (d, Err (PathError ErrPathKeyNotFound))
     | Some v \<Rightarrow> (case getByPath v ps of Panic \<Rightarrow> Panic | r \<Rightarrow> Ok (d, r))))"

text \<open>
  A longer path changes the top-level document in its first field only: either the value
  there is changed through its pointer, or \<open>insertByPath\<close> calls \<open>Set\<close> with it.
\<close>

definition SetByPath :: "Document \<Rightarrow> path \<Rightarrow> bson \<Rightarrow> Document op" where
  "SetByPath d path val = bind_result (checkFrozen d) (\<lambda>_. bind_result (modify d) (\<lambda>d.
     if length path = 1 then Set_document d (hd path) val
     else bind_result (setByPath (flds d) path val) (\<lambda>r. case r of
         BDocument gs \<Rightarrow> (case field_get gs (hd path) of
             Some c \<Rightarrow> Set_document d (hd path) c | None \<Rightarrow> Panic)
       | _ \<Rightarrow> Panic)))"

definition RemoveByPath :: "Document \<Rightarrow> path \<Rightarrow> Document op" where
  "RemoveByPath d path = bind_result (checkFrozen d) (\<lambda>_. bind_result (modify d) (\<lambda>d.
     if length path = 1 then bind_result (Remove_document d (hd path)) (\<lambda>(d, _). Ok d)
     else bind_result (removeByPath (BDocument (flds d)) path) (\<lambda>r. case r of
         BDocument gs \<Rightarrow> Ok (d\<lparr>d_fields := map_option (\<lambda>_. gs) (d_fields d)\<rparr>)
       | _ \<Rightarrow> Panic)))"

section \<open>Encoding\<close>

definition Document_AppendBSON :: "bytes \<Rightarrow> Document \<Rightarrow> bytes" where
  "Document_AppendBSON dst d = (case rawBSON d of Some raw \<Rightarrow> dst @ raw | None \<Rightarrow> AppendBSON dst (flds d))"

definition Document_BSONSize :: "Document \<Rightarrow> nat" where
  "Document_BSONSize d = (case rawBSON d of Some raw \<Rightarrow> length raw | None \<Rightarrow> BSONSize (flds d))"

text \<open>Values are immutable here, so copying them is the identity; a copy is never frozen.\<close>

definition DeepCopy :: "Document \<Rightarrow> Document" where
  "DeepCopy d =
     (if lazy d then (case rawBSON d of None \<Rightarrow> new_Document | Some raw \<Rightarrow> (NewLazyDocument raw)\<lparr>d_recordID := d_recordID d\<rparr>)
      else \<lparr>d_keys = d_keys d, d_fields = Some (flds d), d_extra = None, d_recordID = d_recordID d\<rparr>)"

section \<open>Invariant\<close>

definition key_index :: "fields \<Rightarrow> (string \<rightharpoonup> nat)" where
  "key_index fs k = (if key_count fs k = 0 then None else Some (key_count fs k))"

definition doc_abs :: "Document \<Rightarrow> fields" where
  "doc_abs d = (if lazy d then (case rawBSON d of None \<Rightarrow> [] | Some raw \<Rightarrow>
     (case DecodeRawDocument raw of Ok fs \<Rightarrow> fs | _ \<Rightarrow> [])) else flds d)"

definition keys_ok :: "Document \<Rightarrow> bool" where
  "keys_ok d \<longleftrightarrow> d_keys d = None \<or> d_keys d = Some (key_index (flds d)) \<and> d_fields d \<noteq> None"

definition raw_ok :: "Document \<Rightarrow> bool" where
  "raw_ok d \<longleftrightarrow> (\<forall>raw. rawBSON d = Some raw \<longrightarrow> DecodeRawDocument raw = Ok (doc_abs d)) \<and>
     (lazy d \<longrightarrow> d_fields d = None \<and> d_keys d = None)"

definition doc_inv :: "Document \<Rightarrow> bool" where
  "doc_inv d \<longleftrightarrow> keys_ok d \<and> raw_ok d"

lemma key_count_append [simp]: "key_count (fs @ gs) k = key_count fs k + key_count gs k"
  by (simp add: key_count_def)

lemma key_index_Nil [simp]: "key_index [] = Map.empty"
  by (simp add: key_index_def fun_eq_iff)

lemma key_index_snoc: "count_key (key_index fs) k = key_index (fs @ [(k, v)])"
  by (auto simp: key_index_def fun_eq_iff)

lemma buildKeyIndex_index: "buildKeyIndex d = d\<lparr>d_keys := Some (key_index (flds d))\<rparr>"
proof -
  have "foldl (\<lambda>m f. count_key m (fst f)) (key_index fs) gs = key_index (fs @ gs)" for fs gs
  proof (induction gs arbitrary: fs)
    case (Cons g gs)
    then show ?case using key_index_snoc [of fs "fst g" "snd g"]
      by (simp del: count_key.simps)
  qed simp
  from this [of "[]"] show ?thesis by (simp add: buildKeyIndex_def del: count_key.simps)
qed

lemma duplicate_loop_count: "duplicate_loop fs k seen \<longleftrightarrow> (if seen then 0 else 1) < key_count fs k"
  by (induction fs arbitrary: seen) (auto simp: key_count_def)

lemma isKeyDuplicate_count: "keys_ok d \<Longrightarrow> isKeyDuplicate d k \<longleftrightarrow> key_count (flds d) k > 1"
  by (auto simp: keys_ok_def isKeyDuplicate_def duplicate_loop_count key_index_def split: if_splits)

lemma list_ex_key: "list_ex (\<lambda>f. fst f = k) fs \<longleftrightarrow> key_count fs k \<noteq> 0"
  by (induction fs) (auto simp: key_count_def)

lemma has_now_count: "keys_ok d \<Longrightarrow> has_now d k \<longleftrightarrow> key_count (flds d) k \<noteq> 0"
  by (auto simp: keys_ok_def has_now_def list_ex_key key_index_def split: if_splits)

section \<open>Loading\<close>

lemma flds_update [simp]: "flds (d\<lparr>d_fields := Some fs\<rparr>) = fs" "flds (d\<lparr>d_keys := m\<rparr>) = flds d"
  "flds (d\<lparr>d_extra := x\<rparr>) = flds d" "flds (d\<lparr>d_recordID := r\<rparr>) = flds d"
  by (simp_all add: flds_def)

lemma append_field_spec:
  assumes "keys_ok d"
  shows "keys_ok (append_field d k v) \<and> d_fields (append_field d k v) = Some (flds d @ [(k, v)]) \<and>
    d_extra (append_field d k v) = d_extra d \<and> d_recordID (append_field d k v) = d_recordID d"
  using assms unfolding keys_ok_def append_field_def Let_def buildKeyIndex_index
  by (auto simp: key_index_snoc simp del: count_key.simps split: option.splits)

lemma rawDecoder_spec:
  assumes "DecodeRawDocument raw = Ok fs"
  shows "\<exists>doc. rawDecoder raw = Ok doc \<and> flds doc = fs \<and> keys_ok doc"
proof -
  have fold: "keys_ok d \<Longrightarrow> keys_ok (foldl (\<lambda>d f. append_field d (fst f) (snd f)) d gs) \<and>
      flds (foldl (\<lambda>d f. append_field d (fst f) (snd f)) d gs) = flds d @ gs" for d gs
  proof (induction gs arbitrary: d)
    case (Cons g gs)
    then show ?case using append_field_spec [of d "fst g" "snd g"]
        Cons.IH [of "append_field d (fst g) (snd g)"] by (simp add: flds_def)
  qed simp
  have "keys_ok (MakeDocument 8)" "flds (MakeDocument 8) = []"
    by (simp_all add: keys_ok_def MakeDocument_def new_Document_def flds_def)
  then show ?thesis using assms fold [of "MakeDocument 8" fs]
    by (cases "fs = []") (auto simp: rawDecoder_def new_Document_def flds_def keys_ok_def)
qed

lemma lazy_raw: "lazy d \<Longrightarrow> \<exists>raw. rawBSON d = Some raw"
  by (auto simp: lazy_def rawBSON_def split: option.splits)

lemma doc_abs_flds: "\<not> lazy d \<Longrightarrow> doc_abs d = flds d"
  by (simp add: doc_abs_def)

text \<open>What loading, by any route, leaves as it is.\<close>

definition loaded :: "Document \<Rightarrow> Document \<Rightarrow> bool" where
  "loaded d d' \<longleftrightarrow> doc_inv d' \<and> flds d' = doc_abs d \<and> \<not> lazy d' \<and> is_frozen d' = is_frozen d \<and>
     rawBSON d' = rawBSON d \<and> d_recordID d' = d_recordID d"

lemma decodeLazy_spec:
  assumes "doc_inv d" "lazy d"
  shows "\<exists>d'. decodeLazy d = Ok d' \<and> loaded d d'"
proof -
  obtain x raw where x: "d_extra d = Some x" "x_raw x = Some raw" "\<not> x_decoded x"
    using assms(2) by (auto simp: lazy_def split: option.splits)
  then have raw: "rawBSON d = Some raw" by (simp add: rawBSON_def)
  then have "DecodeRawDocument raw = Ok (doc_abs d)" using assms(1) by (simp add: doc_inv_def raw_ok_def)
  moreover from rawDecoder_spec [OF this] obtain doc where
    doc: "rawDecoder raw = Ok doc" "flds doc = doc_abs d" "keys_ok doc" by blast
  ultimately show ?thesis
    using x raw by (auto simp: decodeLazy_def loaded_def doc_inv_def keys_ok_def raw_ok_def lazy_def
        rawBSON_def is_frozen_def doc_abs_def flds_def)
qed

lemma load_spec:
  assumes "doc_inv d"
  shows "\<exists>d'. load d = Ok d' \<and> loaded d d'"
proof (cases "lazy d")
  case True
  then have "d_fields d = None" "d_extra d \<noteq> None"
    using assms by (auto simp: doc_inv_def raw_ok_def lazy_def split: option.splits)
  then show ?thesis using decodeLazy_spec [OF assms True] by (simp add: load_def)
next
  case False
  then have "load d = Ok d"
    by (auto simp: load_def decodeLazy_def lazy_def split: option.splits)
  then show ?thesis using assms False by (simp add: loaded_def doc_abs_flds)
qed

text \<open>A document ready to be changed: loaded, with the raw bytes dropped.\<close>

definition modifiable :: "Document \<Rightarrow> Document \<Rightarrow> bool" where
  "modifiable d d' \<longleftrightarrow> keys_ok d' \<and> flds d' = doc_abs d \<and> rawBSON d' = None \<and>
     is_frozen d' = is_frozen d \<and> d_recordID d' = d_recordID d"

lemma modify_spec:
  assumes "doc_inv d"
  shows "\<exists>d'. modify d = Ok d' \<and> modifiable d d'"
proof -
  obtain d' where d': "load d = Ok d'" "loaded d d'" using load_spec [OF assms] by blast
  have "keys_ok (drop_raw d')" using d'(2) by (auto simp: loaded_def doc_inv_def keys_ok_def drop_raw_def)
  then show ?thesis using d'
    by (auto simp: modify_def modifiable_def loaded_def drop_raw_def rawBSON_def is_frozen_def
        split: option.splits)
qed

lemma rawless_inv: "keys_ok d \<Longrightarrow> rawBSON d = None \<Longrightarrow> doc_inv d \<and> doc_abs d = flds d"
  using lazy_raw [of d] by (auto simp: doc_inv_def raw_ok_def doc_abs_def)

section \<open>Operations refine operations on the list of fields\<close>

lemma Get_refines:
  assumes "doc_inv d"
  shows "if key_count (doc_abs d) k > 1 then Get d k = Panic
    else \<exists>d'. Get d k = Ok (d', field_get (doc_abs d) k) \<and> doc_inv d' \<and> doc_abs d' = doc_abs d \<and>
      is_frozen d' = is_frozen d"
proof (cases "lazy d")
  case True
  then have nil: "flds d = []" "d_fields d = None" "d_keys d = None"
    using assms by (auto simp: doc_inv_def raw_ok_def flds_def)
  obtain d' where d': "decodeLazy d = Ok d'" "loaded d d'" using decodeLazy_spec [OF assms True] by blast
  have "get_now d k = Ok None" using nil by (simp add: get_now_def isKeyDuplicate_def)
  moreover have "get_now d' k = (if key_count (doc_abs d) k > 1 then Panic else Ok (field_get (doc_abs d) k))"
    using d'(2) isKeyDuplicate_count [of d' k] by (simp add: get_now_def loaded_def doc_inv_def)
  ultimately show ?thesis using d' nil True by (simp add: Get_def loaded_def doc_abs_flds)
next
  case False
  then show ?thesis using assms isKeyDuplicate_count [of d k]
    by (auto simp: Get_def get_now_def doc_abs_flds doc_inv_def split: option.splits)
qed

lemma Has_refines:
  assumes "doc_inv d"
  shows "\<exists>d'. Has d k = Ok (d', key_count (doc_abs d) k \<noteq> 0) \<and> doc_inv d' \<and> doc_abs d' = doc_abs d \<and>
    rawBSON d' = rawBSON d \<and> is_frozen d' = is_frozen d"
proof (cases "lazy d")
  case True
  then have nil: "flds d = []" "d_fields d = None" "d_keys d = None"
    using assms by (auto simp: doc_inv_def raw_ok_def flds_def)
  obtain d' where d': "decodeLazy d = Ok d'" "loaded d d'" using decodeLazy_spec [OF assms True] by blast
  have "has_now d' k \<longleftrightarrow> key_count (doc_abs d) k \<noteq> 0"
    using d'(2) has_now_count [of d' k] by (simp add: loaded_def doc_inv_def)
  then show ?thesis using d' nil True by (simp add: Has_def has_now_def [of d] loaded_def doc_abs_flds)
next
  case False
  then show ?thesis using assms has_now_count [of d k] by (simp add: Has_def doc_abs_flds doc_inv_def)
qed

lemma fields_put_new: "key_count fs k = 0 \<Longrightarrow> fields_put fs k v = fs @ [(k, v)]"
  by (induction fs) (auto split: if_splits)

lemma key_index_put: "key_count fs k = 1 \<Longrightarrow> key_index (fields_put fs k v) = key_index fs"
  by (auto simp: key_index_def fun_eq_iff)

lemma key_index_del: "key_count fs k = 1 \<Longrightarrow> key_index (fields_del fs k) = (key_index fs)(k := None)"
  by (auto simp: key_index_def fun_eq_iff)

text \<open>The state after a change: the new list of fields, no raw bytes.\<close>

lemma changed_inv:
  assumes "modifiable d d'" "d'' = d'\<lparr>d_keys := m, d_fields := Some fs\<rparr>"
    and "m = None \<or> m = Some (key_index fs)"
  shows "doc_inv d'' \<and> doc_abs d'' = fs \<and> rawBSON d'' = None \<and> is_frozen d'' = is_frozen d"
proof -
  have "keys_ok d''" "rawBSON d'' = None" "flds d'' = fs" "is_frozen d'' = is_frozen d"
    using assms by (auto simp: modifiable_def keys_ok_def rawBSON_def is_frozen_def flds_def)
  then show ?thesis using rawless_inv [of d''] by simp
qed

lemma keys_ok_cases: "keys_ok d \<Longrightarrow> d_keys d = None \<or> d_keys d = Some (key_index (flds d))"
  by (auto simp: keys_ok_def)

lemma Set_refines:
  assumes "doc_inv d" "\<not> is_frozen d"
  shows "if key_count (doc_abs d) k > 1 then Set_document d k v = Panic
    else \<exists>d'. Set_document d k v = Ok d' \<and> doc_inv d' \<and> doc_abs d' = fields_put (doc_abs d) k v \<and>
      rawBSON d' = None \<and> \<not> is_frozen d'"
proof -
  obtain d1 where d1: "modify d = Ok d1" "modifiable d d1" using modify_spec [OF assms(1)] by blast
  then have fl: "flds d1 = doc_abs d" "keys_ok d1" by (simp_all add: modifiable_def)
  consider (dup) "key_count (doc_abs d) k > 1" | (one) "key_count (doc_abs d) k = 1" | (new) "key_count (doc_abs d) k = 0"
    by linarith
  then show ?thesis
  proof cases
    case dup
    then show ?thesis using assms(2) d1(1) fl isKeyDuplicate_count [of d1 k]
      by (simp add: Set_document_def checkFrozen_def)
  next
    case one
    let ?d = "d1\<lparr>d_fields := Some (fields_put (doc_abs d) k v)\<rparr>"
    have "Set_document d k v = Ok ?d" using one assms(2) d1(1) fl isKeyDuplicate_count [of d1 k]
      by (simp add: Set_document_def checkFrozen_def list_ex_key)
    then show ?thesis using changed_inv [OF d1(2), where d'' = ?d and m = "d_keys d1"] keys_ok_cases [OF fl(2)] fl one assms(2)
      by (simp add: key_index_put)
  next
    case new
    have set: "Set_document d k v = Ok (append_field d1 k v)"
      using new assms(2) d1(1) fl isKeyDuplicate_count [of d1 k]
      by (simp add: Set_document_def checkFrozen_def list_ex_key)
    have "keys_ok (append_field d1 k v)" "flds (append_field d1 k v) = fields_put (doc_abs d) k v"
      "rawBSON (append_field d1 k v) = None" "\<not> is_frozen (append_field d1 k v)"
      using append_field_spec [OF fl(2), of k v] d1(2) assms(2) fl new
      by (auto simp: modifiable_def rawBSON_def is_frozen_def flds_def fields_put_new)
    then show ?thesis using set new rawless_inv [of "append_field d1 k v"] by simp
  qed
qed

lemma Remove_refines:
  assumes "doc_inv d" "\<not> is_frozen d"
  shows "if key_count (doc_abs d) k > 1 then Remove_document d k = Panic
    else \<exists>d'. Remove_document d k = Ok (d', field_get (doc_abs d) k) \<and> doc_inv d' \<and>
      doc_abs d' = fields_del (doc_abs d) k \<and> rawBSON d' = None \<and> \<not> is_frozen d'"
proof -
  obtain d1 where d1: "modify d = Ok d1" "modifiable d d1" using modify_spec [OF assms(1)] by blast
  then have fl: "flds d1 = doc_abs d" "keys_ok d1" by (simp_all add: modifiable_def)
  have pre: "Remove_document d k = (if key_count (doc_abs d) k > 1 then Panic else
      case field_get (doc_abs d) k of None \<Rightarrow> Ok (d1, None)
      | Some v \<Rightarrow> Ok (d1\<lparr>d_keys := map_option (\<lambda>m. m(k := None)) (d_keys d1),
                  d_fields := Some (fields_del (doc_abs d) k)\<rparr>, Some v))"
    using assms(2) d1(1) fl isKeyDuplicate_count [of d1 k] by (simp add: Remove_document_def checkFrozen_def split: option.splits)
  show ?thesis
  proof (cases "field_get (doc_abs d) k")
    case None
    then have "fields_del (doc_abs d) k = doc_abs d" "key_count (doc_abs d) k = 0"
      by (simp_all add: field_get_None fields_del_absent)
    then show ?thesis using pre None d1(2) fl rawless_inv [of d1] assms(2)
      by (simp add: modifiable_def)
  next
    case (Some v)
    let ?d = "d1\<lparr>d_keys := map_option (\<lambda>m. m(k := None)) (d_keys d1), d_fields := Some (fields_del (doc_abs d) k)\<rparr>"
    have "key_count (doc_abs d) k \<noteq> 0" using Some field_get_None [of "doc_abs d" k] by auto
    then show ?thesis
      using pre Some changed_inv [OF d1(2), where d'' = ?d] keys_ok_cases [OF fl(2)] fl assms(2)
        key_index_del [of "doc_abs d" k]
      by (cases "key_count (doc_abs d) k = 1") auto
  qed
qed

lemma AppendDecoded_refines:
  assumes "doc_inv d"
  shows "\<exists>d'. AppendDecoded d k v = Ok d' \<and> doc_inv d' \<and> doc_abs d' = doc_abs d @ [(k, v)]"
proof -
  obtain d1 where d1: "modify d = Ok d1" "modifiable d d1" using modify_spec [OF assms] by blast
  then have "keys_ok d1" "flds d1 = doc_abs d" "rawBSON d1 = None" by (simp_all add: modifiable_def)
  then have "keys_ok (append_field d1 k v)" "flds (append_field d1 k v) = doc_abs d @ [(k, v)]"
    "rawBSON (append_field d1 k v) = None"
    using append_field_spec [of d1 k v] by (auto simp: rawBSON_def flds_def)
  then show ?thesis using d1(1) rawless_inv [of "append_field d1 k v"] by (simp add: AppendDecoded_def)
qed

lemma key_count_mset: "mset fs = mset gs \<Longrightarrow> key_count fs k = key_count gs k"
  unfolding key_count_def by (metis mset_filter size_mset)

lemma key_index_mset: "mset fs = mset gs \<Longrightarrow> key_index fs = key_index gs"
  using key_count_mset [of fs gs] by (simp add: key_index_def fun_eq_iff)

lemma permuted_inv:
  assumes "modifiable d d'" "mset fs = mset (doc_abs d)" "d'' = d'\<lparr>d_fields := Some fs\<rparr>"
  shows "doc_inv d'' \<and> doc_abs d'' = fs \<and> rawBSON d'' = None \<and> is_frozen d'' = is_frozen d"
proof -
  have "d_keys d' = None \<or> d_keys d' = Some (key_index fs)"
    using assms(1) keys_ok_cases [of d'] key_index_mset [OF assms(2)] by (simp add: modifiable_def)
  then show ?thesis using changed_inv [OF assms(1), where d'' = d'' and m = "d_keys d'"] assms(3) by simp
qed

lemma SortFieldsByKey_refines:
  assumes "doc_inv d" "\<not> is_frozen d"
  shows "\<exists>d'. SortFieldsByKey d = Ok d' \<and> doc_inv d' \<and> doc_abs d' = sort_fields (doc_abs d) \<and> \<not> is_frozen d'"
proof -
  obtain d1 where d1: "modify d = Ok d1" "modifiable d d1" using modify_spec [OF assms(1)] by blast
  then have fl: "flds d1 = doc_abs d" "keys_ok d1" "rawBSON d1 = None" "\<not> is_frozen d1"
    using assms(2) by (simp_all add: modifiable_def)
  show ?thesis
  proof (cases "d_fields d1")
    case None
    then have eq: "d1\<lparr>d_fields := None\<rparr> = d1" and nil: "flds d1 = []" by (simp_all add: flds_def)
    have "SortFieldsByKey d = Ok (d1\<lparr>d_fields := None\<rparr>)"
      using d1(1) assms(2) None by (simp add: SortFieldsByKey_def checkFrozen_def)
    then have "SortFieldsByKey d = Ok d1" unfolding eq .
    then show ?thesis using fl nil rawless_inv [OF fl(2,3)] by simp
  next
    case (Some fs)
    then have "fs = doc_abs d" using fl(1) by (simp add: flds_def)
    then show ?thesis
      using permuted_inv [OF d1(2), of "sort_fields fs" "d1\<lparr>d_fields := Some (sort_fields fs)\<rparr>"] Some d1(1) assms(2)
      by (simp add: SortFieldsByKey_def checkFrozen_def)
  qed
qed

lemma find_key_less: "key_count fs k \<noteq> 0 \<Longrightarrow> find_key fs k < length fs \<and> fst (fs ! find_key fs k) = k"
  by (induction fs) (auto split: if_splits)

lemma move_front_mset: "i < length fs \<Longrightarrow> mset (fs ! i # take i fs @ drop (Suc i) fs) = mset fs"
  by (subst (4) id_take_nth_drop [of i fs]) auto

text \<open>The fields with the first \<open>_id\<close> moved to the front.\<close>

definition id_first :: "fields \<Rightarrow> fields" where
  "id_first fs = (if key_count fs ''_id'' = 0 then fs else
     let i = find_key fs ''_id'' in fs ! i # take i fs @ drop (Suc i) fs)"

lemma id_first_mset [simp]: "mset (id_first fs) = mset fs"
  using move_front_mset [of "find_key fs ''_id''" fs] find_key_less [of fs "''_id''"]
  by (auto simp: id_first_def Let_def)

lemma id_first_same: "find_key fs ''_id'' = 0 \<Longrightarrow> id_first fs = fs"
  by (cases fs) (auto simp: id_first_def)

lemma moveID_refines:
  assumes "doc_inv d" "\<not> is_frozen d"
  shows "\<exists>d'. moveIDToTheFirstIndex d = Ok d' \<and> doc_inv d' \<and> doc_abs d' = id_first (doc_abs d) \<and> \<not> is_frozen d'"
proof -
  obtain d1 where d1: "modify d = Ok d1" "modifiable d d1" using modify_spec [OF assms(1)] by blast
  then have fl: "flds d1 = doc_abs d" "keys_ok d1" "rawBSON d1 = None" "\<not> is_frozen d1"
    using assms(2) by (simp_all add: modifiable_def)
  have nl: "\<not> lazy d1" using lazy_raw [of d1] fl(3) by auto
  then have has: "Has d1 ''_id'' = Ok (d1, key_count (doc_abs d) ''_id'' \<noteq> 0)"
    using has_now_count [OF fl(2), of "''_id''"] fl(1) by (simp add: Has_def)
  have inv1: "doc_inv d1" "doc_abs d1 = doc_abs d" using rawless_inv [OF fl(2,3)] fl(1) by auto
  show ?thesis
  proof (cases "key_count (doc_abs d) ''_id'' = 0 \<or> find_key (doc_abs d) ''_id'' = 0")
    case True
    then have "moveIDToTheFirstIndex d = Ok d1" "id_first (doc_abs d) = doc_abs d"
      using d1(1) has fl(1) id_first_same [of "doc_abs d"]
      by (auto simp: moveIDToTheFirstIndex_def id_first_def)
    then show ?thesis using inv1 fl(4) by simp
  next
    case False
    let ?d = "d1\<lparr>d_fields := Some (id_first (doc_abs d))\<rparr>"
    have "moveIDToTheFirstIndex d = Ok ?d"
      using False d1(1) has fl(1,4) by (simp add: moveIDToTheFirstIndex_def id_first_def checkFrozen_def Let_def)
    then show ?thesis using permuted_inv [OF d1(2) id_first_mset refl] assms(2) by simp
  qed
qed

section \<open>Paths refine paths\<close>

lemma GetByPath_refines:
  assumes "doc_inv d"
  shows "case getByPath (BDocument (doc_abs d)) path of
      Panic \<Rightarrow> GetByPath d path = Panic
    | r \<Rightarrow> \<exists>d'. GetByPath d path = Ok (d', r) \<and> doc_inv d' \<and> doc_abs d' = doc_abs d"
proof (cases path)
  case Nil
  obtain d' where "load d = Ok d'" "loaded d d'" using load_spec [OF assms] by blast
  then show ?thesis using Nil by (auto simp: GetByPath_def loaded_def doc_abs_flds)
next
  case (Cons p ps)
  show ?thesis
  proof (cases "key_count (doc_abs d) p > 1")
    case True
    then show ?thesis using Get_refines [OF assms, of p] Cons
      by (simp add: GetByPath_def fields_Get_def)
  next
    case False
    then obtain d' where d': "Get d p = Ok (d', field_get (doc_abs d) p)" "doc_inv d'" "doc_abs d' = doc_abs d"
      using Get_refines [OF assms, of p] by auto
    show ?thesis
    proof (cases "field_get (doc_abs d) p")
      case None
      then show ?thesis using False d' Cons by (simp add: GetByPath_def fields_Get_def)
    next
      case (Some v)
      then show ?thesis using False d' Cons
        by (cases "getByPath v ps") (simp_all add: GetByPath_def fields_Get_def)
    qed
  qed
qed

lemma setByPath_single:
  assumes "setByPath fs path v = Ok r"
  shows "\<not> key_count fs (hd path) > 1"
proof -
  obtain c where c: "r = BDocument (fields_put fs (hd path) c)" using setByPath_put [OF assms] by blast
  have "path \<noteq> []" using assms by (auto simp: setByPath_def TrimSuffix_def)
  then obtain ps where "path = hd path # ps" by (cases path) auto
  then obtain w where "fields_Get (fields_put fs (hd path) c) (hd path) = Ok w"
    using setByPath_get [OF assms] c path_step_Ok_document
    by (metis bind_result_Ok_iff getByPath.simps(2))
  then show ?thesis by (auto simp: fields_Get_Ok max_def split: if_splits)
qed

lemma SetByPath_refines:
  assumes "doc_inv d" "\<not> is_frozen d"
  shows "case setByPath (doc_abs d) path v of
      Panic \<Rightarrow> SetByPath d path v = Panic
    | Err e \<Rightarrow> SetByPath d path v = Err e
    | Ok r \<Rightarrow> \<exists>d'. SetByPath d path v = Ok d' \<and> doc_inv d' \<and> r = BDocument (doc_abs d') \<and> \<not> is_frozen d'"
proof -
  obtain d1 where d1: "modify d = Ok d1" "modifiable d d1" using modify_spec [OF assms(1)] by blast
  then have fl: "flds d1 = doc_abs d" "\<not> is_frozen d1" "doc_inv d1" "doc_abs d1 = doc_abs d"
    using assms(2) rawless_inv [of d1] by (auto simp: modifiable_def)
  note set = Set_refines [OF fl(3,2), unfolded fl(4)]
  have unf: "SetByPath d path v = (if length path = 1 then Set_document d1 (hd path) v
      else bind_result (setByPath (doc_abs d) path v) (\<lambda>r. case r of
         BDocument gs \<Rightarrow> (case field_get gs (hd path) of
             Some c \<Rightarrow> Set_document d1 (hd path) c | None \<Rightarrow> Panic)
       | _ \<Rightarrow> Panic))"
    using assms(2) d1(1) fl(1) by (simp add: SetByPath_def checkFrozen_def)
  show ?thesis
  proof (cases "length path = 1")
    case True
    then show ?thesis using set [of "hd path" v] unf
      by (auto simp: setByPath_def fields_Set_def split: if_splits)
  next
    case False
    show ?thesis
    proof (cases "setByPath (doc_abs d) path v")
      case (Ok r)
      obtain c where c: "r = BDocument (fields_put (doc_abs d) (hd path) c)" using setByPath_put [OF Ok] by blast
      show ?thesis using setByPath_single [OF Ok] set [of "hd path" c] unf False Ok c by auto
    qed (use unf False in simp_all)
  qed
qed

lemma removeByPath_document:
  assumes "removeByPath (BDocument fs) path = Ok r" "length path \<noteq> 1"
  shows "\<exists>gs. r = BDocument gs \<and> key_index gs = key_index fs \<and> (fs = [] \<longrightarrow> gs = [])"
proof (cases path)
  case (Cons p ps)
  have keep: "key_index (fields_put fs p c) = key_index fs" if "field_get fs p = Some v" for c v
    using that field_get_None [of fs p] by (auto simp: key_index_def fun_eq_iff max_def)
  show ?thesis using assms Cons keep by (auto split: option.splits)
qed (use assms in auto)

lemma RemoveByPath_refines:
  assumes "doc_inv d" "\<not> is_frozen d"
  shows "case removeByPath (BDocument (doc_abs d)) path of
      Ok r \<Rightarrow> \<exists>d'. RemoveByPath d path = Ok d' \<and> doc_inv d' \<and> r = BDocument (doc_abs d') \<and> \<not> is_frozen d'
    | _ \<Rightarrow> RemoveByPath d path = Panic"
proof -
  obtain d1 where d1: "modify d = Ok d1" "modifiable d d1" using modify_spec [OF assms(1)] by blast
  then have fl: "flds d1 = doc_abs d" "\<not> is_frozen d1" "keys_ok d1" "doc_inv d1" "doc_abs d1 = doc_abs d"
    using assms(2) rawless_inv [of d1] by (auto simp: modifiable_def)
  note rem = Remove_refines [OF fl(4,2), unfolded fl(5)]
  show ?thesis
  proof (cases "length path = 1")
    case True
    then obtain k where k: "path = [k]" by (cases path) auto
    show ?thesis
    proof (cases "field_get (doc_abs d) k")
      case None
      then have "key_count (doc_abs d) k = 0" by (simp only: field_get_None)
      with None show ?thesis using rem [of k] assms(2) d1(1) k
        by (auto simp: RemoveByPath_def checkFrozen_def fields_del_absent)
    next
      case (Some v)
      then show ?thesis using rem [of k] assms(2) d1(1) k
        by (auto simp: RemoveByPath_def checkFrozen_def fields_Remove_def split: if_splits)
    qed
  next
    case False
    show ?thesis
    proof (cases "removeByPath (BDocument (doc_abs d)) path")
      case (Ok r)
      obtain gs where gs: "r = BDocument gs" "key_index gs = key_index (doc_abs d)" "doc_abs d = [] \<longrightarrow> gs = []"
        using removeByPath_document [OF Ok False] by blast
      let ?d = "d1\<lparr>d_fields := map_option (\<lambda>_. gs) (d_fields d1)\<rparr>"
      have set: "RemoveByPath d path = Ok ?d" using Ok gs False assms(2) d1(1) fl(1)
        by (simp add: RemoveByPath_def checkFrozen_def)
      have "flds ?d = gs" using gs(3) fl(1) by (auto simp: flds_def split: option.splits)
      then have "keys_ok ?d" "rawBSON ?d = None" "\<not> is_frozen ?d" "flds ?d = gs"
        using d1(2) gs(2) fl(1,2) keys_ok_cases [OF fl(3)] fl(3)
        by (auto simp: keys_ok_def modifiable_def rawBSON_def is_frozen_def)
      then show ?thesis using Ok set gs(1) rawless_inv [of ?d] by auto
    qed (use False assms(2) d1(1) fl(1) removeByPath_no_Err in \<open>simp_all add: RemoveByPath_def checkFrozen_def\<close>)
  qed
qed

section \<open>The contract of a container of fields\<close>

lemma distinct_put: "distinct (map fst fs) \<Longrightarrow> distinct (map fst (fields_put fs k v))"
proof (induction fs)
  case (Cons f fs)
  then show ?case by (cases f) (auto simp: fields_put_fst)
qed simp

lemma distinct_del: "distinct (map fst fs) \<Longrightarrow> distinct (map fst (fields_del fs k))"
proof (induction fs)
  case (Cons f fs)
  then show ?case using fields_del_subset [of fs k] by (cases f) force
qed simp

locale field_container =
  fixes inv :: "'d \<Rightarrow> bool"
    and fields_of :: "'d \<Rightarrow> fields"
    and writable :: "'d \<Rightarrow> bool"
    and get :: "'d \<Rightarrow> string \<Rightarrow> (path_error, 'd \<times> bson option) result"
    and put :: "'d \<Rightarrow> string \<Rightarrow> bson \<Rightarrow> (path_error, 'd) result"
    and del :: "'d \<Rightarrow> string \<Rightarrow> (path_error, 'd \<times> bson option) result"
  assumes get_law: "inv d \<Longrightarrow> key_count (fields_of d) k \<le> 1 \<Longrightarrow>
      \<exists>d'. get d k = Ok (d', field_get (fields_of d) k) \<and> inv d' \<and> fields_of d' = fields_of d"
    and put_law: "inv d \<Longrightarrow> writable d \<Longrightarrow> key_count (fields_of d) k \<le> 1 \<Longrightarrow>
      \<exists>d'. put d k v = Ok d' \<and> inv d' \<and> fields_of d' = fields_put (fields_of d) k v \<and> writable d'"
    and del_law: "inv d \<Longrightarrow> writable d \<Longrightarrow> key_count (fields_of d) k \<le> 1 \<Longrightarrow>
      \<exists>d'. del d k = Ok (d', field_get (fields_of d) k) \<and> inv d' \<and>
        fields_of d' = fields_del (fields_of d) k \<and> writable d'"
begin

definition reads :: "'d \<Rightarrow> string \<Rightarrow> bson option \<Rightarrow> bool" where
  "reads d k r \<longleftrightarrow> (\<exists>d'. get d k = Ok (d', r))"

lemma reads_iff:
  assumes "inv d" "distinct (map fst (fields_of d))"
  shows "reads d k r \<longleftrightarrow> r = field_get (fields_of d) k"
  using get_law [OF assms(1) key_count_distinct [OF assms(2)], of k] by (auto simp: reads_def)

lemma put_get:
  assumes "inv d" "writable d" "distinct (map fst (fields_of d))"
  shows "\<exists>d'. put d k v = Ok d' \<and> inv d' \<and> writable d' \<and> distinct (map fst (fields_of d')) \<and>
    (\<forall>k' r. reads d' k' r \<longleftrightarrow> (if k' = k then r = Some v else reads d k' r))"
proof -
  obtain d' where d': "put d k v = Ok d'" "inv d'" "fields_of d' = fields_put (fields_of d) k v" "writable d'"
    using put_law [OF assms(1,2) key_count_distinct [OF assms(3)], of k v] by blast
  have dist: "distinct (map fst (fields_of d'))" using d'(3) distinct_put [OF assms(3)] by simp
  show ?thesis
    using d' dist reads_iff [OF assms(1,3)] reads_iff [OF d'(2) dist] by auto
qed

lemma del_get:
  assumes "inv d" "writable d" "distinct (map fst (fields_of d))"
  shows "\<exists>d' r. del d k = Ok (d', r) \<and> reads d k r \<and> inv d' \<and> writable d' \<and> distinct (map fst (fields_of d')) \<and>
    (\<forall>k' r. reads d' k' r \<longleftrightarrow> (if k' = k then r = None else reads d k' r))"
proof -
  obtain d' where d': "del d k = Ok (d', field_get (fields_of d) k)" "inv d'"
      "fields_of d' = fields_del (fields_of d) k" "writable d'"
    using del_law [OF assms(1,2) key_count_distinct [OF assms(3)], of k] by blast
  have dist: "distinct (map fst (fields_of d'))" using d'(3) distinct_del [OF assms(3)] by simp
  have "field_get (fields_of d') k = None"
    using key_count_distinct [OF assms(3), of k] d'(3) by (simp add: field_get_None)
  moreover have "field_get (fields_of d') k' = field_get (fields_of d) k'" if "k' \<noteq> k" for k'
    using d'(3) that by (simp add: field_get_del)
  ultimately show ?thesis
    using d' dist reads_iff [OF assms(1,3)] reads_iff [OF d'(2) dist] by auto
qed

end

interpretation document: field_container doc_inv doc_abs "\<lambda>d. \<not> is_frozen d" Get Set_document Remove_document
proof
  fix d k v
  assume inv: "doc_inv d" and one: "key_count (doc_abs d) k \<le> 1"
  show "\<exists>d'. Get d k = Ok (d', field_get (doc_abs d) k) \<and> doc_inv d' \<and> doc_abs d' = doc_abs d"
    using Get_refines [OF inv, of k] one by auto
  assume wr: "\<not> is_frozen d"
  show "\<exists>d'. Set_document d k v = Ok d' \<and> doc_inv d' \<and> doc_abs d' = fields_put (doc_abs d) k v \<and> \<not> is_frozen d'"
    using Set_refines [OF inv wr, of k v] one by auto
  show "\<exists>d'. Remove_document d k = Ok (d', field_get (doc_abs d) k) \<and> doc_inv d' \<and>
      doc_abs d' = fields_del (doc_abs d) k \<and> \<not> is_frozen d'"
    using Remove_refines [OF inv wr, of k] one by auto
qed

text \<open>A nested document is its list of fields; the same contract holds for it.\<close>

definition nested_Get :: "fields \<Rightarrow> string \<Rightarrow> (path_error, fields \<times> bson option) result" where
  "nested_Get fs k = (case fields_Get fs k of Ok v \<Rightarrow> Ok (fs, Some v) | Err _ \<Rightarrow> Ok (fs, None) | Panic \<Rightarrow> Panic)"

definition nested_Remove :: "fields \<Rightarrow> string \<Rightarrow> (path_error, fields \<times> bson option) result" where
  "nested_Remove fs k = bind_result (fields_Remove fs k) (\<lambda>gs. Ok (gs, field_get fs k))"

interpretation nested: field_container "\<lambda>_. True" "\<lambda>fs. fs" "\<lambda>_. True" nested_Get fields_Set nested_Remove
  by unfold_locales (auto simp: nested_Get_def nested_Remove_def fields_Get_def fields_Set_def
      fields_Remove_def split: option.splits)

section \<open>Reachable documents\<close>

text \<open>
  \<open>Get\<close> hands out the pointer of a nested document or array, so a caller can change it behind
  the document's back. \<open>nested_write\<close> is what such a change leaves of the document: another
  value of the same kind in the field, and the cached bytes as they were.
\<close>

fun same_kind :: "bson \<Rightarrow> bson \<Rightarrow> bool" where
  "same_kind (BDocument _) (BDocument _) = True"
| "same_kind (BArray _) (BArray _) = True"
| "same_kind _ _ = False"

definition nested_write :: "Document \<Rightarrow> string \<Rightarrow> bson \<Rightarrow> Document" where
  "nested_write d k w = d\<lparr>d_fields := map_option (\<lambda>fs. fields_put fs k w) (d_fields d)\<rparr>"

text \<open>
  The documents a caller can have. The flag says that a nested value was changed through its
  pointer while the document kept cached bytes, and that nothing has dropped them since.
\<close>

inductive doc_reachable :: "Document \<Rightarrow> bool \<Rightarrow> bool" where
  new: "doc_reachable (NewDocument fs) False"
| make: "doc_reachable (MakeDocument n) False"
| lazy_doc: "DecodeRawDocument raw = Ok fs \<Longrightarrow> doc_reachable (NewLazyDocument raw) False"
| copy: "doc_reachable d t \<Longrightarrow> doc_reachable (DeepCopy d) False"
| freeze: "doc_reachable d t \<Longrightarrow> doc_reachable (Freeze d) t"
| record_id: "doc_reachable d t \<Longrightarrow> doc_reachable (SetRecordID d r) t"
| load: "doc_reachable d t \<Longrightarrow> load d = Ok d' \<Longrightarrow> doc_reachable d' t"
| get: "doc_reachable d t \<Longrightarrow> Get d k = Ok (d', v) \<Longrightarrow> doc_reachable d' t"
| has: "doc_reachable d t \<Longrightarrow> Has d k = Ok (d', b) \<Longrightarrow> doc_reachable d' t"
| nested: "doc_reachable d t \<Longrightarrow> Get d k = Ok (d', Some v) \<Longrightarrow> same_kind v w \<Longrightarrow>
    doc_reachable (nested_write d' k w) (t \<or> rawBSON d' \<noteq> None)"
| set: "doc_reachable d t \<Longrightarrow> Set_document d k v = Ok d' \<Longrightarrow> doc_reachable d' False"
| append: "doc_reachable d t \<Longrightarrow> AppendDecoded d k v = Ok d' \<Longrightarrow> doc_reachable d' False"
| remove: "doc_reachable d t \<Longrightarrow> Remove_document d k = Ok (d', r) \<Longrightarrow> doc_reachable d' False"
| sort: "doc_reachable d t \<Longrightarrow> SortFieldsByKey d = Ok d' \<Longrightarrow> doc_reachable d' False"
| move_id: "doc_reachable d t \<Longrightarrow> moveIDToTheFirstIndex d = Ok d' \<Longrightarrow> doc_reachable d' False"
| set_path: "doc_reachable d t \<Longrightarrow> SetByPath d p v = Ok d' \<Longrightarrow> doc_reachable d' False"
| remove_path: "doc_reachable d t \<Longrightarrow> RemoveByPath d p = Ok d' \<Longrightarrow> doc_reachable d' False"

lemma NewDocument_inv: "doc_inv (NewDocument fs) \<and> doc_abs (NewDocument fs) = fs"
proof -
  have "keys_ok (NewDocument fs)" "rawBSON (NewDocument fs) = None" "flds (NewDocument fs) = fs"
    by (auto simp: NewDocument_def Let_def buildKeyIndex_index keys_ok_def new_Document_def rawBSON_def flds_def)
  then show ?thesis using rawless_inv [of "NewDocument fs"] by simp
qed

lemma MakeDocument_inv: "doc_inv (MakeDocument n)"
  by (rule rawless_inv [THEN conjunct1])
    (auto simp: MakeDocument_def keys_ok_def new_Document_def rawBSON_def)

lemma NewLazyDocument_inv:
  "DecodeRawDocument raw = Ok fs \<Longrightarrow> doc_inv (NewLazyDocument raw) \<and> doc_abs (NewLazyDocument raw) = fs"
  by (auto simp: NewLazyDocument_def doc_inv_def keys_ok_def raw_ok_def new_Document_def rawBSON_def
      doc_abs_def lazy_def)

lemma DeepCopy_inv:
  assumes "doc_inv d"
  shows "doc_inv (DeepCopy d) \<and> doc_abs (DeepCopy d) = doc_abs d \<and> \<not> is_frozen (DeepCopy d)"
proof (cases "lazy d")
  case True
  then obtain raw where raw: "rawBSON d = Some raw" using lazy_raw by blast
  then have "DecodeRawDocument raw = Ok (doc_abs d)" using assms by (simp add: doc_inv_def raw_ok_def)
  then show ?thesis using True raw
    by (simp add: DeepCopy_def NewLazyDocument_def doc_inv_def keys_ok_def raw_ok_def new_Document_def
        rawBSON_def doc_abs_def lazy_def is_frozen_def)
next
  case False
  then have "keys_ok (DeepCopy d)" "rawBSON (DeepCopy d) = None" "flds (DeepCopy d) = doc_abs d"
    "\<not> is_frozen (DeepCopy d)"
    using assms by (auto simp: DeepCopy_def doc_inv_def keys_ok_def rawBSON_def flds_def doc_abs_flds is_frozen_def)
  then show ?thesis using rawless_inv [of "DeepCopy d"] by simp
qed

lemma same_view_inv:
  assumes "d_keys e = d_keys d" "d_fields e = d_fields d" "rawBSON e = rawBSON d" "lazy e = lazy d" "doc_inv d"
  shows "doc_inv e \<and> doc_abs e = doc_abs d"
  using assms by (simp add: doc_inv_def keys_ok_def raw_ok_def doc_abs_def flds_def)

lemma Freeze_inv: "doc_inv d \<Longrightarrow> doc_inv (Freeze d) \<and> doc_abs (Freeze d) = doc_abs d \<and> is_frozen (Freeze d)"
  using same_view_inv [of "Freeze d" d]
  by (simp add: Freeze_def rawBSON_def lazy_def is_frozen_def split: option.splits)

lemma SetRecordID_inv: "doc_inv d \<Longrightarrow> doc_inv (SetRecordID d r) \<and> doc_abs (SetRecordID d r) = doc_abs d"
  using same_view_inv [of "SetRecordID d r" d] by (simp add: SetRecordID_def rawBSON_def lazy_def)

lemma frozen_panics:
  "is_frozen d \<Longrightarrow> Set_document d k v = Panic \<and> Remove_document d k = Panic \<and> SortFieldsByKey d = Panic \<and>
     SetByPath d p v = Panic \<and> RemoveByPath d p = Panic"
  by (simp add: Set_document_def Remove_document_def SortFieldsByKey_def SetByPath_def RemoveByPath_def
      checkFrozen_def)

lemma moveID_inv:
  assumes "doc_inv d" "moveIDToTheFirstIndex d = Ok d'"
  shows "doc_inv d'"
proof (cases "is_frozen d")
  case True
  obtain d1 where d1: "modify d = Ok d1" "modifiable d d1" using modify_spec [OF assms(1)] by blast
  then have fz: "is_frozen d1" "doc_inv d1" using True rawless_inv [of d1] by (auto simp: modifiable_def)
  obtain h where "Has d1 ''_id'' = Ok (h, key_count (doc_abs d1) ''_id'' \<noteq> 0)" "doc_inv h" "is_frozen h"
    using Has_refines [OF fz(2)] fz(1) by blast
  then show ?thesis using assms(2) d1(1)
    by (auto simp: moveIDToTheFirstIndex_def checkFrozen_def Let_def split: if_splits)
next
  case False
  then show ?thesis using moveID_refines [OF assms(1)] assms(2) by auto
qed

text \<open>What a change through the document itself gives, whichever it is.\<close>

lemma change_inv:
  assumes "doc_inv d"
  shows "Set_document d k v = Ok d' \<Longrightarrow> doc_inv d'" "AppendDecoded d k v = Ok d' \<Longrightarrow> doc_inv d'"
    "Remove_document d k = Ok (d', r) \<Longrightarrow> doc_inv d'" "SortFieldsByKey d = Ok d' \<Longrightarrow> doc_inv d'"
    "SetByPath d p v = Ok d' \<Longrightarrow> doc_inv d'" "RemoveByPath d p = Ok d' \<Longrightarrow> doc_inv d'"
proof -
  show "doc_inv d'" if "AppendDecoded d k v = Ok d'" using AppendDecoded_refines [OF assms, of k v] that by auto
  have nf: "\<not> is_frozen d" if "Set_document d k v = Ok d' \<or> Remove_document d k = Ok (d', r) \<or> SortFieldsByKey d = Ok d' \<or>
      SetByPath d p v = Ok d' \<or> RemoveByPath d p = Ok d'"
    using that frozen_panics [of d k v p] by auto
  show "doc_inv d'" if "Set_document d k v = Ok d'"
    using Set_refines [OF assms nf, of k v] that by (auto split: if_splits)
  show "doc_inv d'" if "Remove_document d k = Ok (d', r)"
    using Remove_refines [OF assms nf, of k] that by (auto split: if_splits)
  show "doc_inv d'" if "SortFieldsByKey d = Ok d'" using SortFieldsByKey_refines [OF assms nf] that by auto
  show "doc_inv d'" if "SetByPath d p v = Ok d'"
    using SetByPath_refines [OF assms nf, of p v] that by (auto split: result.splits)
  show "doc_inv d'" if "RemoveByPath d p = Ok d'"
    using RemoveByPath_refines [OF assms nf, of p] that by (auto split: result.splits)
qed

text \<open>
  A document whose cached bytes may be stale is decoded and otherwise as it should be; a change
  of it is the change of the document without the bytes.
\<close>

definition stale_inv :: "Document \<Rightarrow> bool" where
  "stale_inv d \<longleftrightarrow> \<not> lazy d \<and> d_fields d \<noteq> None \<and> doc_inv (drop_raw d)"

lemma drop_raw_simps [simp]:
  "d_fields (drop_raw d) = d_fields d" "d_keys (drop_raw d) = d_keys d" "flds (drop_raw d) = flds d"
  "rawBSON (drop_raw d) = None" "\<not> lazy (drop_raw d)" "is_frozen (drop_raw d) = is_frozen d" "drop_raw (drop_raw d) = drop_raw d"
  by (auto simp: drop_raw_def flds_def rawBSON_def lazy_def is_frozen_def comp_def option.map_comp split: option.splits)

lemma stale_change:
  assumes "stale_inv d"
  shows "modify d = modify (drop_raw d)" "checkFrozen d = checkFrozen (drop_raw d)" "DeepCopy d = DeepCopy (drop_raw d)"
    "load d = Ok d" "Get d k = bind_result (get_now d k) (\<lambda>v. Ok (d, v))" "Has d k = Ok (d, has_now d k)"
  using assms by (auto simp: stale_inv_def modify_def load_def checkFrozen_def DeepCopy_def Get_def Has_def
      split: option.splits intro!: bind_result_cong) (simp add: drop_raw_def)

lemma same_changes:
  assumes "modify d = modify e" "checkFrozen d = checkFrozen e"
  shows "Set_document d k v = Set_document e k v" "AppendDecoded d k v = AppendDecoded e k v"
    "Remove_document d k = Remove_document e k" "SortFieldsByKey d = SortFieldsByKey e"
    "moveIDToTheFirstIndex d = moveIDToTheFirstIndex e" "SetByPath d p v = SetByPath e p v" "RemoveByPath d p = RemoveByPath e p"
  by (simp_all add: assms Set_document_def AppendDecoded_def Remove_document_def SortFieldsByKey_def
      moveIDToTheFirstIndex_def SetByPath_def RemoveByPath_def)

lemma stale_change_inv:
  assumes "if t then stale_inv d else doc_inv d"
  shows "Set_document d k v = Ok d' \<Longrightarrow> doc_inv d'" "AppendDecoded d k v = Ok d' \<Longrightarrow> doc_inv d'"
    "Remove_document d k = Ok (d', r) \<Longrightarrow> doc_inv d'" "SortFieldsByKey d = Ok d' \<Longrightarrow> doc_inv d'"
    "moveIDToTheFirstIndex d = Ok d' \<Longrightarrow> doc_inv d'"
    "SetByPath d p v = Ok d' \<Longrightarrow> doc_inv d'" "RemoveByPath d p = Ok d' \<Longrightarrow> doc_inv d'"
proof -
  obtain e where e: "doc_inv e" and same: "modify d = modify e" "checkFrozen d = checkFrozen e"
  proof (cases t)
    case True
    then show ?thesis using assms that [of "drop_raw d"] stale_change(1,2) [of d] by (simp add: stale_inv_def)
  next
    case False
    then show ?thesis using assms that [of d] by simp
  qed
  show "Set_document d k v = Ok d' \<Longrightarrow> doc_inv d'" "AppendDecoded d k v = Ok d' \<Longrightarrow> doc_inv d'"
    "Remove_document d k = Ok (d', r) \<Longrightarrow> doc_inv d'" "SortFieldsByKey d = Ok d' \<Longrightarrow> doc_inv d'"
    "moveIDToTheFirstIndex d = Ok d' \<Longrightarrow> doc_inv d'"
    "SetByPath d p v = Ok d' \<Longrightarrow> doc_inv d'" "RemoveByPath d p = Ok d' \<Longrightarrow> doc_inv d'"
    unfolding same_changes [OF same] by (fact change_inv [OF e] moveID_inv [OF e])+
qed

lemma stale_get: "stale_inv d \<Longrightarrow> Get d k = Ok (d', v) \<Longrightarrow> d' = d"
  using stale_change(5) [of d k] by auto

lemma get_found:
  assumes "Get d k = Ok (d', Some v)" "keys_ok d'"
  shows "field_get (flds d') k = Some v" "key_count (flds d') k = 1" "d_fields d' \<noteq> None"
proof -
  have now: "get_now d' k = Ok (Some v)"
    using assms(1) by (auto simp: Get_def split: option.splits if_splits)
  then show v: "field_get (flds d') k = Some v" by (auto simp: get_now_def split: if_splits)
  have "key_count (flds d') k \<le> 1" using now isKeyDuplicate_count [OF assms(2), of k] by (auto simp: get_now_def split: if_splits)
  moreover have "key_count (flds d') k \<noteq> 0" using v field_get_None [of "flds d'" k] by auto
  ultimately show "key_count (flds d') k = 1" by simp
  show "d_fields d' \<noteq> None" using v by (auto simp: flds_def split: option.splits)
qed

lemma Get_raw: "doc_inv d \<Longrightarrow> Get d k = Ok (d', v) \<Longrightarrow> rawBSON d' = rawBSON d"
  using decodeLazy_spec [of d] by (auto simp: Get_def loaded_def split: option.splits if_splits)

lemma nested_write_keys:
  assumes "keys_ok d" "key_count (flds d) k = 1" "d_fields d \<noteq> None"
  shows "keys_ok (nested_write d k w)" "flds (nested_write d k w) = fields_put (flds d) k w"
    "rawBSON (nested_write d k w) = rawBSON d" "lazy (nested_write d k w) = lazy d" "drop_raw (nested_write d k w) = nested_write (drop_raw d) k w"
    "d_fields (nested_write d k w) \<noteq> None"
  using assms key_index_put [of "flds d" k w]
  by (auto simp: nested_write_def keys_ok_def flds_def rawBSON_def lazy_def drop_raw_def split: option.splits)

lemma doc_reachable_inv: "doc_reachable d t \<Longrightarrow> if t then stale_inv d else doc_inv d"
proof (induction rule: doc_reachable.induct)
  case (freeze d t)
  have "drop_raw (Freeze d) = Freeze (drop_raw d)" "lazy (Freeze d) = lazy d" "d_fields (Freeze d) = d_fields d"
    by (auto simp: drop_raw_def Freeze_def lazy_def split: option.splits)
  then show ?case using freeze.IH Freeze_inv by (auto simp: stale_inv_def)
next
  case (record_id d t r)
  have "drop_raw (SetRecordID d r) = SetRecordID (drop_raw d) r" "lazy (SetRecordID d r) = lazy d"
    "d_fields (SetRecordID d r) = d_fields d"
    by (auto simp: drop_raw_def SetRecordID_def lazy_def)
  then show ?case using record_id.IH SetRecordID_inv by (auto simp: stale_inv_def)
next
  case (copy d t)
  then show ?case using DeepCopy_inv [of d] DeepCopy_inv [of "drop_raw d"] stale_change(3) [of d]
    by (auto simp: stale_inv_def split: if_splits)
next
  case (load d t d')
  then show ?case using load_spec [of d] stale_change(4) [of d] by (auto simp: loaded_def split: if_splits)
next
  case (get d t k d' v)
  then show ?case using Get_refines [of d k] stale_get by (cases t) (auto split: if_splits)
next
  case (has d t k d' b)
  then show ?case using Has_refines [of d k] stale_change(6) [of d k] by (auto split: if_splits)
next
  case (nested d t k d' v w)
  have inv: "if t then stale_inv d' else doc_inv d'"
    using nested.IH nested.hyps Get_refines [of d k] stale_get by (cases t) (auto split: if_splits)
  then have keys: "keys_ok d'" by (auto simp: stale_inv_def doc_inv_def keys_ok_def split: if_splits)
  note found = get_found [OF nested.hyps(2) keys] and put = nested_write_keys [OF keys get_found(2,3) [OF nested.hyps(2) keys]]
  have fresh: "doc_inv (nested_write (drop_raw d') k w)"
    using rawless_inv [of "nested_write (drop_raw d') k w"] nested_write_keys [of "drop_raw d'" k w] keys found by (simp add: keys_ok_def)
  have nl: "\<not> lazy d'" using inv found(3) by (auto simp: stale_inv_def doc_inv_def raw_ok_def split: if_splits)
  show ?case
  proof (cases "t \<or> rawBSON d' \<noteq> None")
    case True
    then show ?thesis using fresh nl put by (simp add: stale_inv_def)
  next
    case False
    then show ?thesis using rawless_inv [of "nested_write d' k w"] put by simp
  qed
next
  case (set d t k v d')
  then show ?case using stale_change_inv(1) by simp
next
  case (append d t k v d')
  then show ?case using stale_change_inv(2) by simp
next
  case (remove d t k d' r)
  then show ?case using stale_change_inv(3) by simp
next
  case (sort d t d')
  then show ?case using stale_change_inv(4) by simp
next
  case (move_id d t d')
  then show ?case using stale_change_inv(5) by simp
next
  case (set_path d t p v d')
  then show ?case using stale_change_inv(6) by simp
next
  case (remove_path d t p d')
  then show ?case using stale_change_inv(7) by simp
qed (use NewDocument_inv MakeDocument_inv NewLazyDocument_inv in auto)

lemma raw_is_encoding: "doc_inv d \<Longrightarrow> rawBSON d = Some raw \<Longrightarrow> raw = AppendBSON [] (doc_abs d)"
  using encode_decode(1) [of raw 1 None "doc_abs d"]
  by (simp add: doc_inv_def raw_ok_def DecodeRawDocument_def AppendBSON_def)

lemma Document_AppendBSON_abs:
  assumes "doc_inv d"
  shows "Document_AppendBSON dst d = AppendBSON dst (doc_abs d)"
proof (cases "rawBSON d")
  case None
  then have "\<not> lazy d" using lazy_raw by fastforce
  then show ?thesis using None by (simp add: Document_AppendBSON_def doc_abs_flds)
next
  case (Some raw)
  then show ?thesis using raw_is_encoding [OF assms Some]
    by (simp add: Document_AppendBSON_def AppendBSON_def)
qed

lemma rawFirstKey_decoded:
  assumes "DecodeRawDocument raw = Ok fs"
  shows "rawFirstKey raw = (case fs of [] \<Rightarrow> [] | f # _ \<Rightarrow> fst f)"
proof -
  have ok: "5 \<le> length raw" and loop: "decodeRawLoop (drop 4 raw) False 1 None 0 = Ok fs"
    using assms by (auto simp: DecodeRawDocument_def decodeRawDocument.simps checkRawLength_Ok split: if_splits)
  obtain t r where tr: "drop 4 raw = t # r" using ok by (cases "drop 4 raw") auto
  have "raw ! 4 = drop 4 raw ! 0" "drop 5 raw = drop 1 (drop 4 raw)" using ok by simp_all
  then have t: "raw ! 4 = t" and r: "drop 5 raw = r" by (simp_all add: tr)
  have len: "length raw = length r + 5" using arg_cong [OF tr, of length] ok by simp
  note step = loop [unfolded tr decodeRawLoop.simps [of "t # r"]]
  show ?thesis
  proof (cases "t = 0")
    case True
    then show ?thesis using step t by (auto simp: rawFirstKey_def split: if_splits)
  next
    case False
    obtain name r2 where nm: "split_nul r = Some (name, r2)"
      using step False by (cases "split_nul r") auto
    obtain gs v where "fs = (string_of name, v) # gs"
      using step False nm by (auto split: result.splits)
    moreover have "\<not> length raw < 6" using len split_nul_length [OF nm] by linarith
    ultimately show ?thesis using t r nm False by (simp add: rawFirstKey_def)
  qed
qed

section \<open>Properties of documents\<close>

text \<open>
  Property C3 (invariant). When the bytes a document keeps are true to it, and when not. For every document a caller
  can have, lazily decoded or not, frozen or copied, with any sequence of reads and writes,
  \<open>AppendBSON\<close> writes the encoding of the fields the document has, unless a nested value was
  changed through the pointer \<open>Get\<close> returned while the bytes were kept. Such a change of a
  document with kept bytes is lost: \<open>AppendBSON\<close> still writes the fields from before it, until
  the next change of the document itself. The key index always counts the document's keys.
\<close>

theorem reachable_AppendBSON:
  assumes "doc_reachable d touched"
  shows "(\<not> touched \<longrightarrow> Document_AppendBSON dst d = AppendBSON dst (doc_abs d)) \<and>
    (\<forall>m. d_keys d = Some m \<longrightarrow> m = key_index (doc_abs d)) \<and>
    (\<not> touched \<longrightarrow> rawBSON d \<noteq> None \<longrightarrow> Get d k = Ok (d', Some v) \<longrightarrow> same_kind v w \<longrightarrow> w \<noteq> v \<longrightarrow>
      doc_reachable (nested_write d' k w) True \<and> doc_abs (nested_write d' k w) = fields_put (doc_abs d) k w \<and>
      Document_AppendBSON dst (nested_write d' k w) = AppendBSON dst (doc_abs d) \<and> doc_abs d \<noteq> fields_put (doc_abs d) k w)"
proof (intro conjI impI allI)
  note inv = doc_reachable_inv [OF assms]
  show "Document_AppendBSON dst d = AppendBSON dst (doc_abs d)" if "\<not> touched"
    using inv that Document_AppendBSON_abs by simp
  show "m = key_index (doc_abs d)" if "d_keys d = Some m" for m
    using inv that by (cases "lazy d") (auto simp: stale_inv_def doc_inv_def keys_ok_def raw_ok_def doc_abs_flds split: if_splits)
  assume un: "\<not> touched" and raw: "rawBSON d \<noteq> None" and g: "Get d k = Ok (d', Some v)" and w: "same_kind v w" "w \<noteq> v"
  have d: "doc_inv d" using inv un by simp
  have d': "doc_inv d'" "doc_abs d' = doc_abs d" "rawBSON d' = rawBSON d"
    using Get_refines [OF d, of k] g Get_raw [OF d g] by (auto split: if_splits)
  then have keys: "keys_ok d'" by (simp add: doc_inv_def)
  note found = get_found [OF g keys] and put = nested_write_keys [OF keys get_found(2,3) [OF g keys]]
  have nl: "\<not> lazy d'" using d'(1) found(3) by (auto simp: doc_inv_def raw_ok_def)
  show "doc_reachable (nested_write d' k w) True" using doc_reachable.nested [OF assms g w(1)] raw d'(3) by simp
  show "doc_abs (nested_write d' k w) = fields_put (doc_abs d) k w" using put nl d'(2) by (simp add: doc_abs_flds)
  show "Document_AppendBSON dst (nested_write d' k w) = AppendBSON dst (doc_abs d)"
    using Document_AppendBSON_abs [OF d'(1), of dst] put(3) raw d'(2,3) by (auto simp: Document_AppendBSON_def)
  have "field_get (doc_abs d) k = Some v" using found(1) d'(2) nl by (simp add: doc_abs_flds)
  then show "doc_abs d \<noteq> fields_put (doc_abs d) k w" using w(2) by (metis field_get_put option.inject)
qed

definition nested_raw :: bytes where
  "nested_raw = [20, 0, 0, 0, 0x03, 97, 0, 12, 0, 0, 0, 0x10, 98, 0, 1, 0, 0, 0, 0, 0]"

theorem reachable_AppendBSON_witness:
  "Document_AppendBSON [] (NewLazyDocument nested_raw) = AppendBSON [] [(''a'', BDocument [(''b'', BInt32 1)])] \<and>
   (\<exists>d. Get (NewLazyDocument nested_raw) ''a'' = Ok (d, Some (BDocument [(''b'', BInt32 1)])) \<and>
     doc_abs (nested_write d ''a'' (BDocument [])) = [(''a'', BDocument [])] \<and>
     Document_AppendBSON [] (nested_write d ''a'' (BDocument [])) = AppendBSON [] [(''a'', BDocument [(''b'', BInt32 1)])])"
proof -
  have dec: "DecodeRawDocument nested_raw = Ok [(''a'', BDocument [(''b'', BInt32 1)])]" by code_simp
  note reach = doc_reachable.lazy_doc [OF dec] and inv = NewLazyDocument_inv [OF dec]
  obtain d where g: "Get (NewLazyDocument nested_raw) ''a'' = Ok (d, Some (BDocument [(''b'', BInt32 1)]))"
    using Get_refines [of "NewLazyDocument nested_raw" "''a''"] inv by auto
  have "rawBSON (NewLazyDocument nested_raw) \<noteq> None" by (simp add: NewLazyDocument_def rawBSON_def)
  then show ?thesis
    using reachable_AppendBSON [OF reach, of "[]" "''a''" d "BDocument [(''b'', BInt32 1)]" "BDocument []"] g inv by simp
qed

text \<open>
  Property C16 (refinement). A document implements its list of fields: on every document that keeps the invariant,
  \<open>Get\<close>, \<open>Set\<close> and \<open>Remove\<close> do to \<open>doc_abs\<close> what the first-match lookup,
  replacement and deletion do to a list, keep the invariant, and panic exactly when the key
  is duplicated (a frozen document panics on every change).
\<close>

theorem document_refines_fields:
  assumes "doc_inv d"
  shows "(if key_count (doc_abs d) k > 1 then Get d k = Panic
      else \<exists>d'. Get d k = Ok (d', field_get (doc_abs d) k) \<and> doc_inv d' \<and> doc_abs d' = doc_abs d) \<and>
    (if is_frozen d \<or> key_count (doc_abs d) k > 1 then Set_document d k v = Panic \<and> Remove_document d k = Panic
      else (\<exists>d'. Set_document d k v = Ok d' \<and> doc_inv d' \<and> doc_abs d' = fields_put (doc_abs d) k v) \<and>
        (\<exists>d'. Remove_document d k = Ok (d', field_get (doc_abs d) k) \<and> doc_inv d' \<and>
          doc_abs d' = fields_del (doc_abs d) k))"
  using Get_refines [OF assms, of k] Set_refines [OF assms, of k v] Remove_refines [OF assms, of k]
    frozen_panics [of d k v] by (auto split: if_splits)

theorem document_refines_fields_witness:
  "\<exists>d'. Set_document (NewDocument [(''a'', BNull)]) ''b'' (BInt32 1) = Ok d' \<and> doc_inv d' \<and>
     doc_abs d' = [(''a'', BNull), (''b'', BInt32 1)]"
  using document_refines_fields [of "NewDocument [(''a'', BNull)]" "''b''" "BInt32 1"] NewDocument_inv [of "[(''a'', BNull)]"]
  by (simp add: NewDocument_def is_frozen_def new_Document_def keyIndexMinFields_def)

text \<open>
  After \<open>Set\<close> on a document with distinct keys, \<open>Get\<close> returns the value set, and for
  every other key what it returned before; after \<open>Remove\<close>, \<open>Get\<close> finds the key no more
  and every other key as before.
\<close>

theorem document_Set_Remove_Get:
  assumes "doc_inv d" "\<not> is_frozen d" "distinct (map fst (doc_abs d))"
  shows "(\<exists>d'. Set_document d k v = Ok d' \<and>
      (\<forall>k' r. (\<exists>e. Get d' k' = Ok (e, r)) \<longleftrightarrow> (if k' = k then r = Some v else \<exists>e. Get d k' = Ok (e, r)))) \<and>
    (\<exists>d' r. Remove_document d k = Ok (d', r) \<and>
      (\<forall>k' r. (\<exists>e. Get d' k' = Ok (e, r)) \<longleftrightarrow> (if k' = k then r = None else \<exists>e. Get d k' = Ok (e, r))))"
  using document.put_get [OF assms, of k v] document.del_get [OF assms, of k]
  unfolding document.reads_def by blast

theorem document_Set_Remove_Get_witness:
  "\<exists>d'. Set_document (NewDocument [(''a'', BNull)]) ''a'' (BInt32 1) = Ok d' \<and>
      (\<forall>k' r. (\<exists>e. Get d' k' = Ok (e, r)) \<longleftrightarrow>
        (if k' = ''a'' then r = Some (BInt32 1) else \<exists>e. Get (NewDocument [(''a'', BNull)]) k' = Ok (e, r)))"
  by (rule document_Set_Remove_Get [THEN conjunct1])
    (use NewDocument_inv [of "[(''a'', BNull)]"] in
      \<open>simp_all add: NewDocument_def is_frozen_def new_Document_def keyIndexMinFields_def\<close>)

text \<open>
  Property C26 (refinement). The path operations of a document are those of its list of fields, errors included, and
  keep the invariant, hence the key index and the raw bytes.
\<close>

theorem document_paths_refine:
  assumes "doc_inv d" "\<not> is_frozen d"
  shows "(case setByPath (doc_abs d) path v of
      Panic \<Rightarrow> SetByPath d path v = Panic
    | Err e \<Rightarrow> SetByPath d path v = Err e
    | Ok r \<Rightarrow> \<exists>d'. SetByPath d path v = Ok d' \<and> doc_inv d' \<and> r = BDocument (doc_abs d')) \<and>
    (case removeByPath (BDocument (doc_abs d)) path of
      Ok r \<Rightarrow> \<exists>d'. RemoveByPath d path = Ok d' \<and> doc_inv d' \<and> r = BDocument (doc_abs d')
    | _ \<Rightarrow> RemoveByPath d path = Panic) \<and>
    (case getByPath (BDocument (doc_abs d)) path of
      Panic \<Rightarrow> GetByPath d path = Panic
    | r \<Rightarrow> \<exists>d'. GetByPath d path = Ok (d', r) \<and> doc_inv d' \<and> doc_abs d' = doc_abs d)"
  using SetByPath_refines [OF assms, of path v] RemoveByPath_refines [OF assms, of path]
    GetByPath_refines [OF assms(1), of path]
  by (auto split: result.splits)

theorem document_paths_refine_witness:
  "\<exists>d'. GetByPath (NewDocument [(''a'', BArray [BNull])]) [''a'', ''0''] = Ok (d', Ok BNull) \<and> doc_inv d' \<and>
     doc_abs d' = [(''a'', BArray [BNull])]"
proof -
  have inv: "doc_inv (NewDocument [(''a'', BArray [BNull])])"
    "doc_abs (NewDocument [(''a'', BArray [BNull])]) = [(''a'', BArray [BNull])]"
    using NewDocument_inv by blast+
  have fz: "\<not> is_frozen (NewDocument [(''a'', BArray [BNull])])"
    by (simp add: NewDocument_def is_frozen_def new_Document_def keyIndexMinFields_def)
  have get: "getByPath (BDocument [(''a'', BArray [BNull])]) [''a'', ''0''] = Ok BNull" by code_simp
  from document_paths_refine [OF inv(1) fz, of "[''a'', ''0'']" BNull, THEN conjunct2, THEN conjunct2]
  show ?thesis by (simp only: inv(2) get result.case)
qed

text \<open>
  \<open>Command\<close> of a lazy document, read off the raw bytes, is the name of its first field,
  and empty for an empty document, as for a decoded one.
\<close>

theorem Command_first_key:
  assumes "doc_inv d"
  shows "Command d = (case doc_abs d of [] \<Rightarrow> [] | f # _ \<Rightarrow> fst f)"
proof (cases "lazy d")
  case True
  then obtain raw where raw: "rawBSON d = Some raw" using lazy_raw by blast
  then show ?thesis using True assms rawFirstKey_decoded [of raw "doc_abs d"]
    by (simp add: Command_def doc_inv_def raw_ok_def)
next
  case False
  then show ?thesis by (simp add: Command_def doc_abs_flds)
qed

theorem Command_first_key_witness:
  "Command (NewDocument [(''find'', BString ''c'')]) = ''find''"
  using Command_first_key [of "NewDocument [(''find'', BString ''c'')]"] NewDocument_inv [of "[(''find'', BString ''c'')]"]
  by simp

text \<open>
  Property C31 (error). \<open>Set\<close> of a new \<open>_id\<close> appends it behind the fields the document has; only
  \<open>moveIDToTheFirstIndex\<close>, which validation runs, brings it to the front.
\<close>

theorem Set_id_appends:
  assumes "doc_inv d" "\<not> is_frozen d" "key_count (doc_abs d) ''_id'' = 0"
  shows "\<exists>d' e. Set_document d ''_id'' v = Ok d' \<and> doc_abs d' = doc_abs d @ [(''_id'', v)] \<and>
    moveIDToTheFirstIndex d' = Ok e \<and> doc_abs e = (''_id'', v) # doc_abs d"
proof -
  obtain d' where d': "Set_document d ''_id'' v = Ok d'" "doc_inv d'" "\<not> is_frozen d'"
      "doc_abs d' = doc_abs d @ [(''_id'', v)]"
    using Set_refines [OF assms(1,2), of "''_id''" v] assms(3) fields_put_new [OF assms(3)] by auto
  have "find_key (fs @ [(''_id'', v)]) ''_id'' = length fs" if "key_count fs ''_id'' = 0" for fs
    using that by (induction fs) (auto split: if_splits)
  then have "id_first (doc_abs d') = (''_id'', v) # doc_abs d"
    using assms(3) by (simp add: id_first_def d'(4))
  then show ?thesis using d' moveID_refines [OF d'(2,3)] by auto
qed

theorem Set_id_appends_witness:
  "\<exists>d' e. Set_document (NewDocument [(''a'', BNull)]) ''_id'' (BInt32 1) = Ok d' \<and>
    doc_abs d' = [(''a'', BNull), (''_id'', BInt32 1)] \<and>
    moveIDToTheFirstIndex d' = Ok e \<and> doc_abs e = [(''_id'', BInt32 1), (''a'', BNull)]"
  using Set_id_appends [of "NewDocument [(''a'', BNull)]" "BInt32 1"] NewDocument_inv [of "[(''a'', BNull)]"]
  by (simp add: NewDocument_def is_frozen_def new_Document_def keyIndexMinFields_def)

end
