(* ===== verification/Validation.thy ===== *)
theory Validation
  imports Document
begin

text \<open>
  Validation of data documents, \<^verbatim>\<open>internal/types/document_validation.go\<close>, on a
  document's list of fields. Validation also moves \<open>_id\<close> to the front of every document
  it visits, so each function returns the fields as it leaves them, with the error code.
  \<open>ValidString\<close> is package \<open>utf8\<close>'s.
\<close>

section \<open>UTF-8\<close>

text \<open>
  \<open>utf8_step\<close> is the length of the valid sequence at the head of the string, if any: the
  table of well-formed byte sequences (no overlong forms, no surrogates, up to U+10FFFF).
\<close>

definition cont_byte :: "nat \<Rightarrow> bool" where "cont_byte b \<longleftrightarrow> 0x80 \<le> b \<and> b \<le> 0xBF"

definition utf8_step :: "nat list \<Rightarrow> nat option" where
  "utf8_step bs = (case bs of
     [] \<Rightarrow> None
   | a # r \<Rightarrow>
       if a < 0x80 then Some 1
       else if 0xC2 \<le> a \<and> a \<le> 0xDF then (case r of b # _ \<Rightarrow> if cont_byte b then Some 2 else None | _ \<Rightarrow> None)
       else if 0xE0 \<le> a \<and> a \<le> 0xEF then (case r of b # c # _ \<Rightarrow>
           if (if a = 0xE0 then 0xA0 else 0x80) \<le> b \<and> b \<le> (if a = 0xED then 0x9F else 0xBF) \<and> cont_byte c
           then Some 3 else None | _ \<Rightarrow> None)
       else if 0xF0 \<le> a \<and> a \<le> 0xF4 then (case r of b # c # d # _ \<Rightarrow>
           if (if a = 0xF0 then 0x90 else 0x80) \<le> b \<and> b \<le> (if a = 0xF4 then 0x8F else 0xBF) \<and>
              cont_byte c \<and> cont_byte d
           then Some 4 else None | _ \<Rightarrow> None)
       else None)"

function utf8_valid :: "nat list \<Rightarrow> bool" where
  "utf8_valid bs = (if bs = [] then True else case utf8_step bs of None \<Rightarrow> False
     | Some n \<Rightarrow> utf8_valid (drop (max 1 n) bs))"
  by pat_completeness auto
termination by (relation "measure length") auto

declare utf8_valid.simps [simp del]

definition ValidString :: "string \<Rightarrow> bool" where
  "ValidString s = utf8_valid (map of_char s)"

section \<open>Validation\<close>

datatype ValidationErrorCode = ErrValidation | ErrWrongIDType | ErrIDNotFound | ErrDollarPrefixedID

fun isDBRef_rest :: "fields \<Rightarrow> bool" where
  "isDBRef_rest [] = True"
| "isDBRef_rest ((k, v) # fs) =
     (if k = ''$db'' then (case v of BString _ \<Rightarrow> isDBRef_rest fs | _ \<Rightarrow> False)
      else if HasPrefix k ''$'' then False
      else isDBRef_rest fs)"

definition isDBRef :: "fields \<Rightarrow> bool" where
  "isDBRef fs = (case fs of
     (k0, v0) # (k1, v1) # rest \<Rightarrow>
       if k0 \<noteq> ''$ref'' \<or> k1 \<noteq> ''$id'' then False
       else (case v0 of BString _ \<Rightarrow> isDBRef_rest rest | _ \<Rightarrow> False)
   | _ \<Rightarrow> False)"

fun validateNoDollarInID :: "fields \<Rightarrow> ValidationErrorCode option"
  and dollar_loop :: "bool \<Rightarrow> fields \<Rightarrow> ValidationErrorCode option"
  and dollar_items :: "bson list \<Rightarrow> ValidationErrorCode option" where
  "validateNoDollarInID fs = dollar_loop (isDBRef fs) fs"
| "dollar_loop dbRef [] = None"
| "dollar_loop dbRef ((key, v) # fs) =
     (if \<not> dbRef \<and> HasPrefix key ''$'' then Some ErrDollarPrefixedID
      else case (case v of BDocument ds \<Rightarrow> validateNoDollarInID ds | BArray vs \<Rightarrow> dollar_items vs | _ \<Rightarrow> None) of
        Some e \<Rightarrow> Some e | None \<Rightarrow> dollar_loop dbRef fs)"
| "dollar_items [] = None"
| "dollar_items (v # vs) =
     (case (case v of BDocument ds \<Rightarrow> validateNoDollarInID ds | _ \<Rightarrow> None) of
        Some e \<Rightarrow> Some e | None \<Rightarrow> dollar_items vs)"

lemma size_list_mset: "mset xs = mset ys \<Longrightarrow> size_list f xs = size_list f ys"
proof -
  have "size_list f zs = (\<Sum>z\<in>#mset zs. Suc (f z))" for zs by (induction zs) auto
  then show "mset xs = mset ys \<Longrightarrow> ?thesis" by simp
qed

lemma size_id_first [simp]: "size_list f (id_first fs) = size_list f fs"
  by (rule size_list_mset) simp

text \<open>
  \<open>validate_loop\<close> is the loop over \<open>keys\<close> with \<open>duplicateChecker\<close> and
  \<open>idPresent\<close>; an error ends it with the fields changed so far.
\<close>

function (sequential) validateData :: "bool \<Rightarrow> fields \<Rightarrow> fields \<times> ValidationErrorCode option"
  and validate_loop :: "bool \<Rightarrow> string list \<Rightarrow> bool \<Rightarrow> fields \<Rightarrow> fields \<times> ValidationErrorCode option \<times> bool"
  and validate_value :: "bool \<Rightarrow> string \<Rightarrow> bson \<Rightarrow> bson \<times> ValidationErrorCode option"
  and validate_items :: "bson list \<Rightarrow> bson list \<times> ValidationErrorCode option" where
  "validateData isTopLevel fs =
     (case validate_loop isTopLevel [] False (id_first fs) of
        (gs, Some e, _) \<Rightarrow> (gs, Some e)
      | (gs, None, idPresent) \<Rightarrow> (gs, if \<not> idPresent then Some ErrIDNotFound else None))"
| "validate_loop isTopLevel seen idPresent [] = ([], None, idPresent)"
| "validate_loop isTopLevel seen idPresent ((key, v) # fs) =
     (if \<not> ValidString key then ((key, v) # fs, Some ErrValidation, idPresent)
      else if key \<in> set seen then ((key, v) # fs, Some ErrValidation, idPresent)
      else let idPresent = (idPresent \<or> key = ''_id'') in
        (case validate_value isTopLevel key v of
           (v', Some e) \<Rightarrow> ((key, v') # fs, Some e, idPresent)
         | (v', None) \<Rightarrow> (case validate_loop isTopLevel (key # seen) idPresent fs of
              (gs, e, p) \<Rightarrow> ((key, v') # gs, e, p))))"
| "validate_value isTopLevel key (BDocument ds) =
     (case (if isTopLevel \<and> key = ''_id'' then validateNoDollarInID ds else None) of
        Some e \<Rightarrow> (BDocument ds, Some e)
      | None \<Rightarrow> (case validateData False ds of (ds', e) \<Rightarrow>
          (BDocument ds', if e = Some ErrIDNotFound then None else e)))"
| "validate_value isTopLevel key (BArray vs) =
     (if isTopLevel \<and> key = ''_id'' then (BArray vs, Some ErrWrongIDType)
      else case validate_items vs of (vs', e) \<Rightarrow> (BArray vs', e))"
| "validate_value isTopLevel key (BRegex p q) =
     (BRegex p q, if isTopLevel \<and> key = ''_id'' then Some ErrWrongIDType else None)"
| "validate_value isTopLevel key v = (v, None)"
| "validate_items [] = ([], None)"
| "validate_items (v # vs) =
     (case v of
        BDocument ds \<Rightarrow> (case validateData False ds of (ds', e) \<Rightarrow>
          if e \<noteq> None \<and> e \<noteq> Some ErrIDNotFound then (BDocument ds' # vs, e)
          else (case validate_items vs of (vs', e') \<Rightarrow> (BDocument ds' # vs', e')))
      | _ \<Rightarrow> (case validate_items vs of (vs', e') \<Rightarrow> (v # vs', e')))"
  by pat_completeness auto

termination
  by (relation "measure (\<lambda>x. case x of
        Inl (Inl (_, fs)) \<Rightarrow> 2 * size_list (size_prod (\<lambda>_. 0) size) fs + 1
      | Inl (Inr (_, _, _, fs)) \<Rightarrow> 2 * size_list (size_prod (\<lambda>_. 0) size) fs
      | Inr (Inl (_, _, v)) \<Rightarrow> 2 * size v
      | Inr (Inr vs) \<Rightarrow> 2 * size_list size vs)") auto

declare validateData.simps [simp del]

text \<open>\<open>ValidateData\<close>: what validation leaves, or its error.\<close>

definition ValidateData :: "fields \<Rightarrow> (ValidationErrorCode, fields) result" where
  "ValidateData fs = (case validateData True fs of (gs, None) \<Rightarrow> Ok gs | (_, Some e) \<Rightarrow> Err e)"

section \<open>What validation accepts\<close>

text \<open>
  \<open>data_ok\<close>: keys are UTF-8 and distinct in every document validation visits. It visits the
  documents that are field values or elements of an array that is a field value, and not
  those inside an array of arrays. \<open>id_front\<close> moves \<open>_id\<close> to the front in the same places.
\<close>

fun data_ok :: "bson \<Rightarrow> bool" where
  "data_ok (BDocument fs) \<longleftrightarrow> distinct (map fst fs) \<and> list_all (\<lambda>(k, v). ValidString k \<and> data_ok v) fs"
| "data_ok (BArray vs) \<longleftrightarrow> list_all (\<lambda>v. case v of BArray _ \<Rightarrow> True | _ \<Rightarrow> data_ok v) vs"
| "data_ok _ \<longleftrightarrow> True"

fun id_front :: "bson \<Rightarrow> bson" where
  "id_front (BDocument fs) = BDocument (id_first (map (\<lambda>(k, v). (k, id_front v)) fs))"
| "id_front (BArray vs) = BArray (map (\<lambda>v. case v of BArray _ \<Rightarrow> v | _ \<Rightarrow> id_front v) vs)"
| "id_front v = v"

text \<open>
  A DBRef: a string under \<open>$ref\<close>, then \<open>$id\<close>, and behind them no \<open>$\<close>-prefixed
  field but \<open>$db\<close> with a string. An \<open>_id\<close> that is a document may have \<open>$\<close>-prefixed
  fields in DBRefs only, in it and in every document \<open>id_visits\<close> reaches from it: through field
  values and the elements of arrays that are field values.
\<close>

definition dbref :: "fields \<Rightarrow> bool" where
  "dbref fs \<longleftrightarrow> (\<exists>r i rest. fs = (''$ref'', BString r) # (''$id'', i) # rest \<and>
     (\<forall>(k, v)\<in>set rest. HasPrefix k ''$'' \<longrightarrow> k = ''$db'' \<and> (\<exists>s. v = BString s)))"

inductive id_visits :: "fields \<Rightarrow> fields \<Rightarrow> bool" where
  itself: "id_visits fs fs"
| in_value: "(k, BDocument ds) \<in> set fs \<Longrightarrow> id_visits ds gs \<Longrightarrow> id_visits fs gs"
| in_items: "(k, BArray vs) \<in> set fs \<Longrightarrow> BDocument ds \<in> set vs \<Longrightarrow> id_visits ds gs \<Longrightarrow> id_visits fs gs"

definition dollar_legal :: "fields \<Rightarrow> bool" where
  "dollar_legal fs \<longleftrightarrow> dbref fs \<or> (\<forall>(k, v)\<in>set fs. \<not> HasPrefix k ''$'')"

definition id_ok :: "fields \<Rightarrow> bool" where
  "id_ok fs = (case field_get fs ''_id'' of
     Some (BArray _) \<Rightarrow> False | Some (BRegex _ _) \<Rightarrow> False
   | Some (BDocument ds) \<Rightarrow> (\<forall>gs. id_visits ds gs \<longrightarrow> dollar_legal gs) | _ \<Rightarrow> True)"

definition value_ok :: "bool \<Rightarrow> string \<Rightarrow> bson \<Rightarrow> bool" where
  "value_ok isTop key v \<longleftrightarrow> data_ok v \<and> (isTop \<and> key = ''_id'' \<longrightarrow> id_ok [(key, v)])"

definition harmless :: "ValidationErrorCode option \<Rightarrow> bool" where
  "harmless e \<longleftrightarrow> e = None \<or> e = Some ErrIDNotFound"

lemma id_first_map: "id_first (map (\<lambda>(k, v). (k, f v)) fs) = map (\<lambda>(k, v). (k, f v)) (id_first fs)"
proof -
  have "key_count (map (\<lambda>(k, v). (k, f v)) fs) k = key_count fs k" for k
    by (induction fs) auto
  moreover have "find_key (map (\<lambda>(k, v). (k, f v)) fs) k = find_key fs k" for k
    by (induction fs) auto
  ultimately show ?thesis using find_key_less [of fs "''_id''"]
    by (auto simp: id_first_def Let_def take_map drop_map split: if_splits)
qed

lemma id_first_set [simp]: "set (id_first fs) = set fs"
  by (metis id_first_mset set_mset_mset)

lemma id_first_distinct [simp]: "distinct (map fst (id_first fs)) \<longleftrightarrow> distinct (map fst fs)"
  by (metis id_first_mset mset_eq_imp_distinct_iff mset_map)

definition fields_ok :: "bool \<Rightarrow> fields \<Rightarrow> bool" where
  "fields_ok isTop fs \<longleftrightarrow> distinct (map fst fs) \<and> (\<forall>(k, v)\<in>set fs. ValidString k \<and> value_ok isTop k v)"

abbreviation front_fields :: "fields \<Rightarrow> fields" where
  "front_fields fs \<equiv> map (\<lambda>(k, v). (k, id_front v)) fs"

lemma dollar_error: "validateNoDollarInID ds \<noteq> Some ErrIDNotFound"
  "dollar_loop b fs \<noteq> Some ErrIDNotFound" "dollar_items vs \<noteq> Some ErrIDNotFound"
  by (induction ds and b fs and vs rule: validateNoDollarInID_dollar_loop_dollar_items.induct)
    (auto split: option.splits bson.splits)

lemma isDBRef_iff: "isDBRef fs \<longleftrightarrow> dbref fs"
proof -
  have "isDBRef_rest gs \<longleftrightarrow> (\<forall>(k, v)\<in>set gs. HasPrefix k ''$'' \<longrightarrow> k = ''$db'' \<and> (\<exists>s. v = BString s))" for gs
    by (induction gs rule: isDBRef_rest.induct) (auto split: bson.splits)
  then show ?thesis by (auto simp: isDBRef_def dbref_def split: list.splits bson.splits)
qed

lemma id_visits_all:
  "(\<forall>gs. id_visits fs gs \<longrightarrow> P gs) \<longleftrightarrow> P fs \<and> (\<forall>(k, v)\<in>set fs. case v of
     BDocument ds \<Rightarrow> \<forall>gs. id_visits ds gs \<longrightarrow> P gs
   | BArray vs \<Rightarrow> \<forall>ds. BDocument ds \<in> set vs \<longrightarrow> (\<forall>gs. id_visits ds gs \<longrightarrow> P gs) | _ \<Rightarrow> True)"
  (is "?l \<longleftrightarrow> ?r")
proof
  assume ?l
  then show ?r by (auto intro: id_visits.intros split: bson.split)
next
  assume r: ?r
  have "P gs" if "id_visits fs gs" for gs
    using that
  proof cases
    case (in_value k ds)
    then show ?thesis using r by fastforce
  next
    case (in_items k vs ds)
    then show ?thesis using r by fastforce
  qed (use r in simp)
  then show ?l by blast
qed

lemma validateNoDollarInID_iff:
  "validateNoDollarInID ds = None \<longleftrightarrow> (\<forall>gs. id_visits ds gs \<longrightarrow> dollar_legal gs)"
  "dollar_loop b fs = None \<longleftrightarrow> (b \<or> (\<forall>(k, v)\<in>set fs. \<not> HasPrefix k ''$'')) \<and> (\<forall>(k, v)\<in>set fs. case v of
     BDocument ds \<Rightarrow> \<forall>gs. id_visits ds gs \<longrightarrow> dollar_legal gs
   | BArray vs \<Rightarrow> \<forall>ds. BDocument ds \<in> set vs \<longrightarrow> (\<forall>gs. id_visits ds gs \<longrightarrow> dollar_legal gs) | _ \<Rightarrow> True)"
  "dollar_items vs = None \<longleftrightarrow> (\<forall>ds. BDocument ds \<in> set vs \<longrightarrow> (\<forall>gs. id_visits ds gs \<longrightarrow> dollar_legal gs))"
proof (induction ds and b fs and vs rule: validateNoDollarInID_dollar_loop_dollar_items.induct)
  case (1 fs)
  then show ?case by (subst id_visits_all) (simp add: dollar_legal_def [of fs] isDBRef_iff)
next
  case (3 b key v fs)
  then show ?case by (cases v) (auto split: option.splits)
next
  case (5 v vs)
  then show ?case by (cases v) (auto split: option.splits)
qed simp_all

lemma data_ok_document: "data_ok (BDocument fs) \<longleftrightarrow> fields_ok False fs"
  by (auto simp: fields_ok_def value_ok_def list_all_iff)

lemma value_ok_simps [simp]:
  "value_ok isTop key (BDocument ds) \<longleftrightarrow> fields_ok False ds \<and>
     (isTop \<and> key = ''_id'' \<longrightarrow> validateNoDollarInID ds = None)"
  "value_ok isTop key (BArray vs) \<longleftrightarrow> data_ok (BArray vs) \<and> \<not> (isTop \<and> key = ''_id'')"
  "value_ok isTop key (BRegex p q) \<longleftrightarrow> \<not> (isTop \<and> key = ''_id'')"
  unfolding value_ok_def data_ok_document validateNoDollarInID_iff(1) by (auto simp: id_ok_def)

lemma value_ok_scalar:
  assumes "isScalar v" "\<And>p q. v \<noteq> BRegex p q"
  shows "value_ok isTop key v" "validate_value isTop key v = (v, None)" "id_front v = v"
  using assms by (cases v; simp add: value_ok_def id_ok_def)+

lemma validateData_spec:
  "harmless (snd (validateData isTop fs)) = fields_ok isTop fs \<and>
   (fields_ok isTop fs \<longrightarrow> fst (validateData isTop fs) = front_fields (id_first fs) \<and>
     (snd (validateData isTop fs) = None \<longleftrightarrow> ''_id'' \<in> fst ` set fs))"
  "(case validate_loop isTop2 seen idp gs of (hs, e, p) \<Rightarrow> e \<noteq> Some ErrIDNotFound \<and>
     (e = None \<longleftrightarrow> fields_ok isTop2 gs \<and> fst ` set gs \<inter> set seen = {}) \<and>
     (e = None \<longrightarrow> hs = front_fields gs \<and> p = (idp \<or> ''_id'' \<in> fst ` set gs)))"
  "(case validate_value isTop3 key v of (v', e) \<Rightarrow> e \<noteq> Some ErrIDNotFound \<and>
     (e = None \<longleftrightarrow> value_ok isTop3 key v) \<and> (e = None \<longrightarrow> v' = id_front v))"
  "(case validate_items vs of (vs', e) \<Rightarrow> e \<noteq> Some ErrIDNotFound \<and>
     (e = None \<longleftrightarrow> data_ok (BArray vs)) \<and> (e = None \<longrightarrow> BArray vs' = id_front (BArray vs)))"
proof (induction isTop fs and isTop2 seen idp gs and isTop3 key v and vs
    rule: validateData_validate_loop_validate_value_validate_items.induct)
  case (1 isTop fs)
  obtain gs e p where L: "validate_loop isTop [] False (id_first fs) = (gs, e, p)"
    by (cases "validate_loop isTop [] False (id_first fs)") auto
  have ok: "fields_ok isTop (id_first fs) = fields_ok isTop fs" by (simp add: fields_ok_def)
  from 1 have IH: "e \<noteq> Some ErrIDNotFound" "e = None \<longleftrightarrow> fields_ok isTop fs"
    "e = None \<Longrightarrow> gs = front_fields (id_first fs) \<and> p = (''_id'' \<in> fst ` set fs)"
    by (simp_all add: L ok)
  show ?case
  proof (cases e)
    case None
    then have "fields_ok isTop fs" "gs = front_fields (id_first fs)" "p = (''_id'' \<in> fst ` set fs)"
      using IH by blast+
    moreover have "validateData isTop fs = (gs, if p then None else Some ErrIDNotFound)"
      using None by (simp add: L validateData.simps)
    ultimately show ?thesis by (simp only: fst_conv snd_conv harmless_def) simp
  next
    case (Some c)
    then have "\<not> fields_ok isTop fs" "validateData isTop fs = (gs, Some c)" "c \<noteq> ErrIDNotFound"
      using IH by (simp_all add: L validateData.simps)
    then show ?thesis by (simp add: harmless_def)
  qed
next
  case (3 isTop seen idp key v fs)
  let ?idp = "idp \<or> key = ''_id''"
  have split: "fields_ok isTop ((key, v) # fs) \<and> fst ` set ((key, v) # fs) \<inter> set seen = {} \<longleftrightarrow>
      ValidString key \<and> key \<notin> set seen \<and> value_ok isTop key v \<and>
      fields_ok isTop fs \<and> fst ` set fs \<inter> set (key # seen) = {}"
    unfolding fields_ok_def by auto
  show ?case
  proof (cases "ValidString key \<and> key \<notin> set seen")
    case False
    then show ?thesis unfolding split by auto
  next
    case True
    then have k: "ValidString key" "key \<notin> set seen" by auto
    obtain v' e1 where V: "validate_value isTop key v = (v', e1)" by (cases "validate_value isTop key v")
    obtain hs e2 p where L: "validate_loop isTop (key # seen) ?idp fs = (hs, e2, p)"
      by (cases "validate_loop isTop (key # seen) ?idp fs") auto
    have v: "e1 \<noteq> Some ErrIDNotFound" "e1 = None \<longleftrightarrow> value_ok isTop key v" "e1 = None \<Longrightarrow> v' = id_front v"
      using "3.IH"(1) [of ?idp] k V by auto
    show ?thesis
    proof (cases e1)
      case None
      then have "e2 \<noteq> Some ErrIDNotFound" "e2 = None \<longleftrightarrow> fields_ok isTop fs \<and> fst ` set fs \<inter> set (key # seen) = {}"
        "e2 = None \<Longrightarrow> hs = front_fields fs \<and> p = (?idp \<or> ''_id'' \<in> fst ` set fs)"
        using "3.IH"(2) [OF _ k(2) refl V [symmetric]] k(1) L by auto
      then show ?thesis unfolding split using k V L None v by (auto simp: Let_def)
    next
      case (Some c)
      then show ?thesis unfolding split using k V v by (simp add: Let_def)
    qed
  qed
next
  case (4 isTop key ds)
  have "id_front (BDocument ds) = BDocument (front_fields (id_first ds))" by (simp add: id_first_map)
  with 4 dollar_error(1) [of ds] show ?case
    by (auto simp: harmless_def data_ok_document simp del: id_front.simps
        split: prod.splits option.splits if_splits)
next
  case (5 isTop key vs)
  then show ?case by (auto split: prod.splits if_splits)
next
  case (9 v vs)
  show ?case
  proof (cases v)
    case (BDocument ds)
    obtain ds' e where D: "validateData False ds = (ds', e)" by (cases "validateData False ds")
    obtain vs' e' where I: "validate_items vs = (vs', e')" by (cases "validate_items vs")
    have d: "harmless e = fields_ok False ds" "fields_ok False ds \<longrightarrow> ds' = front_fields (id_first ds)"
      using "9.IH"(1) [OF BDocument] D by auto
    have f: "id_front (BDocument ds) = BDocument (front_fields (id_first ds))" by (simp add: id_first_map)
    have dok: "data_ok (BDocument ds) = harmless e" using d(1) by (simp only: data_ok_document)
    show ?thesis
    proof (cases "harmless e")
      case True
      then have "\<not> (e \<noteq> None \<and> e \<noteq> Some ErrIDNotFound)" by (auto simp: harmless_def)
      then have "e' \<noteq> Some ErrIDNotFound" "e' = None \<longleftrightarrow> data_ok (BArray vs)"
        "e' = None \<longrightarrow> BArray vs' = id_front (BArray vs)"
        using "9.IH"(2) [OF BDocument D [symmetric]] I by auto
      then show ?thesis using True BDocument D I d dok f
        by (auto simp: harmless_def simp del: id_front.simps(1) data_ok.simps(1))
    next
      case False
      then show ?thesis using BDocument D dok by (auto simp: harmless_def simp del: id_front.simps(1) data_ok.simps(1))
    qed
  qed (use 9 in \<open>auto split: prod.splits\<close>)
qed (auto simp: fields_ok_def value_ok_scalar)

lemma field_get_distinct: "distinct (map fst fs) \<Longrightarrow> field_get fs k = Some v \<longleftrightarrow> (k, v) \<in> set fs"
  by (induction fs) (force split: if_splits)+

lemma fields_ok_top: "fields_ok True fs \<longleftrightarrow> data_ok (BDocument fs) \<and> id_ok fs"
proof (cases "distinct (map fst fs)")
  case True
  have "id_ok fs \<longleftrightarrow> (\<forall>v. (''_id'', v) \<in> set fs \<longrightarrow> id_ok [(''_id'', v)])"
  proof (cases "field_get fs ''_id''")
    case None
    then have "(''_id'', v) \<notin> set fs" for v using field_get_distinct [OF True, of "''_id''" v] by simp
    with None show ?thesis by (simp add: id_ok_def [of fs])
  next
    case (Some w)
    then have "(''_id'', v) \<in> set fs \<longleftrightarrow> v = w" for v using field_get_distinct [OF True, of "''_id''" v] by auto
    with Some show ?thesis by (simp add: id_ok_def)
  qed
  then show ?thesis using True by (auto simp: fields_ok_def value_ok_def list_all_iff)
next
  case False
  then show ?thesis by (simp add: fields_ok_def)
qed

lemma ValidateData_iff:
  "ValidateData fs = Ok gs \<longleftrightarrow> data_ok (BDocument fs) \<and> id_ok fs \<and> ''_id'' \<in> fst ` set fs \<and>
     gs = front_fields (id_first fs)"
proof -
  obtain hs e where V: "validateData True fs = (hs, e)" by (cases "validateData True fs")
  have "harmless e = fields_ok True fs" "fields_ok True fs \<Longrightarrow> hs = front_fields (id_first fs) \<and>
      (e = None \<longleftrightarrow> ''_id'' \<in> fst ` set fs)"
    using validateData_spec(1) [of True fs] V by simp_all
  then show ?thesis unfolding fields_ok_top
    by (cases e) (auto simp: ValidateData_def V harmless_def simp del: data_ok.simps)
qed

section \<open>Properties of validation\<close>

text \<open>
  Property C15 (functional). \<open>ValidateData\<close> accepts a document exactly when the keys of it and of every document it
  visits are distinct UTF-8 strings, it has an \<open>_id\<close>, and the \<open>_id\<close> is not an array, not
  a regex, and, when a document, has \<open>$\<close>-prefixed fields only in DBRefs, in itself and in the
  documents reached from it through field values and elements of arrays that are field values;
  it leaves the same fields with \<open>_id\<close> in front, in every visited document.
\<close>

theorem ValidateData_accepts:
  "(ValidateData fs = Ok gs \<longleftrightarrow> data_ok (BDocument fs) \<and> ''_id'' \<in> fst ` set fs \<and> id_ok fs \<and>
      BDocument gs = id_front (BDocument fs)) \<and>
   (ValidateData fs = Ok gs \<longrightarrow> fst (hd gs) = ''_id'')"
proof -
  have f: "id_front (BDocument fs) = BDocument (front_fields (id_first fs))" by (simp add: id_first_map)
  have "fst (hd (front_fields (id_first fs))) = ''_id''" if "''_id'' \<in> fst ` set fs"
    using that find_key_less [of fs "''_id''"] key_count_zero [of fs "''_id''"]
    by (auto simp: id_first_def Let_def case_prod_beta)
  then show ?thesis using ValidateData_iff [of fs gs] f by (auto simp del: data_ok.simps id_front.simps)
qed

theorem ValidateData_accepts_witness:
  "let fs = [(''a'', BNull), (''_id'', BDocument [(''$ref'', BString ''c''), (''$id'', BInt32 1), (''$db'', BString ''d'')])];
       gs = [(''_id'', BDocument [(''$ref'', BString ''c''), (''$id'', BInt32 1), (''$db'', BString ''d'')]), (''a'', BNull)]
   in ValidateData fs = Ok gs \<and> id_ok fs \<and> data_ok (BDocument fs) \<and> BDocument gs = id_front (BDocument fs) \<and>
      fst (hd gs) = ''_id'' \<and> ValidateData [(''_id'', BDocument [(''$ref'', BString ''c'')])] = Err ErrDollarPrefixedID"
proof -
  let ?id = "(''_id'', BDocument [(''$ref'', BString ''c''), (''$id'', BInt32 1), (''$db'', BString ''d'')])"
  have "ValidateData [(''a'', BNull), ?id] = Ok [?id, (''a'', BNull)]"
    "ValidateData [(''_id'', BDocument [(''$ref'', BString ''c'')])] = Err ErrDollarPrefixedID" by code_simp+
  with ValidateData_accepts [of "[(''a'', BNull), ?id]" "[?id, (''a'', BNull)]"] show ?thesis unfolding Let_def by blast
qed

text \<open>
  Property C33 (error). Validation does not look inside arrays of arrays: a document there may have duplicate
  keys and is accepted, and reading that key by path panics.
\<close>

theorem ValidateData_misses_nested_arrays:
  "ValidateData [(''_id'', BInt32 1), (''a'', BArray [BArray [BDocument [(''x'', v), (''x'', w)]]])] =
     Ok [(''_id'', BInt32 1), (''a'', BArray [BArray [BDocument [(''x'', v), (''x'', w)]]])] \<and>
   getByPath (BDocument [(''_id'', BInt32 1), (''a'', BArray [BArray [BDocument [(''x'', v), (''x'', w)]]])])
     [''a'', ''0'', ''0'', ''x''] = Panic"
proof -
  have "ValidString ''_id''" "ValidString ''a''" by code_simp+
  moreover have "Atoi ''0'' = Some 0" by code_simp
  ultimately show ?thesis
    by (simp add: ValidateData_iff id_first_def id_ok_def fields_Get_def)
qed

end
