(* ===== verification/Compare.thy ===== *)
theory Compare
  imports Values Complex_Main
begin

text \<open>
  The value order: \<^verbatim>\<open>internal/types/compare.go\<close>,
  \<^verbatim>\<open>internal/types/compare_order.go\<close> and the array operations of
  \<^verbatim>\<open>internal/types/array.go\<close> that use them. \<open>Decimal128.BigInt\<close> belongs to the
  MongoDB driver: the parameter \<open>D\<close> stands for it (high word, low word), and
  \<open>bigint_total\<close> is what its documentation promises, that it fails only on NaN and on
  the two infinities.
\<close>

section \<open>Type order\<close>

datatype bigint_result = BigInt int int | ErrParseNaN | ErrParseNegInf | ErrParseInf | ErrParseOther

type_synonym bigint_fun = "uint64 \<Rightarrow> uint64 \<Rightarrow> bigint_result"

definition bigint_total :: "bigint_fun \<Rightarrow> bool" where
  "bigint_total D \<longleftrightarrow> (\<forall>h l. D h l \<noteq> ErrParseOther)"

definition decimalIsNaN :: "bigint_fun \<Rightarrow> uint64 \<Rightarrow> uint64 \<Rightarrow> bool" where
  "decimalIsNaN D l h = (D h l = ErrParseNaN)"

definition minKeyDataType :: nat where "minKeyDataType = 1"
definition undefinedDataType :: nat where "undefinedDataType = 2"
definition nullDataType :: nat where "nullDataType = 3"
definition nanDataType :: nat where "nanDataType = 4"
definition numbersDataType :: nat where "numbersDataType = 5"
definition stringDataType :: nat where "stringDataType = 6"
definition documentDataType :: nat where "documentDataType = 7"
definition arrayDataType :: nat where "arrayDataType = 8"
definition binDataType :: nat where "binDataType = 9"
definition objectIDDataType :: nat where "objectIDDataType = 10"
definition booleanDataType :: nat where "booleanDataType = 11"
definition dateDataType :: nat where "dateDataType = 12"
definition timestampDataType :: nat where "timestampDataType = 13"
definition regexDataType :: nat where "regexDataType = 14"
definition maxKeyDataType :: nat where "maxKeyDataType = 15"

lemmas dataType_defs = minKeyDataType_def undefinedDataType_def nullDataType_def nanDataType_def
  numbersDataType_def stringDataType_def documentDataType_def arrayDataType_def binDataType_def
  objectIDDataType_def booleanDataType_def dateDataType_def timestampDataType_def
  regexDataType_def maxKeyDataType_def

fun detectDataType :: "bigint_fun \<Rightarrow> bson \<Rightarrow> nat" where
  "detectDataType D (BDocument _) = documentDataType"
| "detectDataType D (BArray _) = arrayDataType"
| "detectDataType D (BDouble f) = (if IsNaN f then nanDataType else numbersDataType)"
| "detectDataType D (BString _) = stringDataType"
| "detectDataType D (BBinary _ _) = binDataType"
| "detectDataType D (BObjectID _) = objectIDDataType"
| "detectDataType D (BBool _) = booleanDataType"
| "detectDataType D (BDate _) = dateDataType"
| "detectDataType D BNull = nullDataType"
| "detectDataType D (BRegex _ _) = regexDataType"
| "detectDataType D (BInt32 _) = numbersDataType"
| "detectDataType D (BTimestamp _) = timestampDataType"
| "detectDataType D (BInt64 _) = numbersDataType"
| "detectDataType D (BDecimal128 l h) = (if decimalIsNaN D l h then nanDataType else numbersDataType)"
| "detectDataType D BMinKey = minKeyDataType"
| "detectDataType D BUndefined = undefinedDataType"
| "detectDataType D BMaxKey = maxKeyDataType"

definition compareTypeOrder :: "bigint_fun \<Rightarrow> bson \<Rightarrow> bson \<Rightarrow> CompareResult" where
  "compareTypeOrder D a b = (let aType = detectDataType D a; bType = detectDataType D b in
     if aType < bType then Less else if aType > bType then Greater else Equal)"

section \<open>Numbers\<close>

fun asInt64 :: "bson \<Rightarrow> int option" where
  "asInt64 (BInt32 i) = Some (sint i)"
| "asInt64 (BInt64 i) = Some (sint i)"
| "asInt64 _ = None"

fun asFloat64 :: "bson \<Rightarrow> float64 option" where
  "asFloat64 (BDouble f) = Some f"
| "asFloat64 _ = None"

text \<open>\<open>compareOrdered\<close> at \<open>float64\<close>; no caller passes it a NaN.\<close>

definition compareOrderedFloat :: "float64 \<Rightarrow> float64 \<Rightarrow> CompareResult" where
  "compareOrderedFloat a b = (if f64_eq a b then Equal else if f64_lt a b then Less else Greater)"

definition compareFloats :: "float64 \<Rightarrow> float64 \<Rightarrow> CompareResult" where
  "compareFloats a b =
     (if IsNaN a \<and> IsNaN b then Equal else if IsNaN a then Less else if IsNaN b then Greater
      else compareOrderedFloat a b)"

definition maxExactFloatInt :: int where "maxExactFloatInt = 2 ^ 53"

definition compareNumericFast :: "bson \<Rightarrow> bson \<Rightarrow> CompareResult option" where
  "compareNumericFast v1 v2 =
     (case (asInt64 v1, asFloat64 v1, asInt64 v2, asFloat64 v2) of
        (Some i1, _, Some i2, _) \<Rightarrow> Some (compareOrdered i1 i2)
      | (_, Some f1, _, Some f2) \<Rightarrow> Some (compareFloats f1 f2)
      | (Some i1, _, _, Some f2) \<Rightarrow>
          if - maxExactFloatInt < i1 \<and> i1 < maxExactFloatInt
          then Some (compareFloats (f64_of_int i1) f2) else None
      | (_, Some f1, Some i2, _) \<Rightarrow>
          if - maxExactFloatInt < i2 \<and> i2 < maxExactFloatInt
          then Some (compareFloats f1 (f64_of_int i2)) else None
      | _ \<Rightarrow> None)"

definition numNaN :: nat where "numNaN = 0"
definition numNegInf :: nat where "numNegInf = 1"
definition numFinite :: nat where "numFinite = 2"
definition numPosInf :: nat where "numPosInf = 3"

lemmas num_defs = numNaN_def numNegInf_def numFinite_def numPosInf_def

text \<open>The class and, for a finite number, the exact rational; a nil rational is \<open>0\<close>.\<close>

fun numericParts :: "bigint_fun \<Rightarrow> bson \<Rightarrow> (nat \<times> rat) option" where
  "numericParts D (BInt32 i) = Some (numFinite, of_int (sint i))"
| "numericParts D (BInt64 i) = Some (numFinite, of_int (sint i))"
| "numericParts D (BDouble f) =
     (if IsNaN f then Some (numNaN, 0)
      else if IsInf_neg f then Some (numNegInf, 0)
      else if IsInf_pos f then Some (numPosInf, 0)
      else Some (numFinite, of_int (f64_val f) / of_nat f64_unit))"
| "numericParts D (BDecimal128 l h) =
     (case D h l of
        ErrParseNaN \<Rightarrow> Some (numNaN, 0)
      | ErrParseNegInf \<Rightarrow> Some (numNegInf, 0)
      | ErrParseInf \<Rightarrow> Some (numPosInf, 0)
      | ErrParseOther \<Rightarrow> None
      | BigInt coeff ex \<Rightarrow>
          if 0 \<le> ex then Some (numFinite, of_int (coeff * 10 ^ nat ex))
          else Some (numFinite, of_int coeff / 10 ^ nat (- ex)))"
| "numericParts D _ = None"

definition compareNumeric :: "bigint_fun \<Rightarrow> bson \<Rightarrow> bson \<Rightarrow> CompareResult option" where
  "compareNumeric D v1 v2 =
     (case compareNumericFast v1 v2 of Some res \<Rightarrow> Some res
      | None \<Rightarrow> (case (numericParts D v1, numericParts D v2) of
          (Some (c1, r1), Some (c2, r2)) \<Rightarrow>
            if c1 \<noteq> c2 then Some (compareOrdered c1 c2)
            else if c1 = numFinite then Some (compareOrdered r1 r2)
            else Some Equal
        | _ \<Rightarrow> None))"

text \<open>
  \<open>compareNumbers\<close> compares at a precision no operand exceeds. \<open>SetFloat64\<close> panics on a
  NaN; \<open>compareScalars\<close> has answered for every pair of numbers before it comes here.
\<close>

definition compareNumbers :: "float64 \<Rightarrow> int \<Rightarrow> CompareResult" where
  "compareNumbers a b = compareOrdered (f64_val a) (b * int f64_unit)"

section \<open>Scalars\<close>

definition compareScalars :: "bigint_fun \<Rightarrow> bson \<Rightarrow> bson \<Rightarrow> CompareResult" where
  "compareScalars D v1 v2 =
     (if \<not> isScalar v1 \<or> \<not> isScalar v2 then compareTypeOrder D v1 v2
      else case compareNumeric D v1 v2 of Some res \<Rightarrow> res | None \<Rightarrow>
       (case (v1, v2) of
          (BDouble a, BDouble b) \<Rightarrow> if IsNaN a \<and> IsNaN b then Equal else compareOrderedFloat a b
        | (BDouble a, BInt32 b) \<Rightarrow> compareNumbers a (sint b)
        | (BDouble a, BInt64 b) \<Rightarrow> compareNumbers a (sint b)
        | (BString a, BString b) \<Rightarrow> bytes_compare a b
        | (BBinary s a, BBinary t b) \<Rightarrow>
            if length a \<noteq> length b then compareOrdered (length a) (length b)
            else if s \<noteq> t then compareOrdered s t else bytes_compare a b
        | (BObjectID a, BObjectID b) \<Rightarrow> bytes_compare a b
        | (BBool a, BBool b) \<Rightarrow> if a = b then Equal else if b then Less else Greater
        | (BDate a, BDate b) \<Rightarrow> compareOrdered (sint a) (sint b)
        | (BNull, BNull) \<Rightarrow> Equal
        | (BRegex p q, BRegex p' q') \<Rightarrow>
            bytes_compare (p @ [CHR 0x00] @ q) (p' @ [CHR 0x00] @ q')
        | (BInt32 a, BDouble b) \<Rightarrow> compareInvert (compareNumbers b (sint a))
        | (BInt32 a, BInt32 b) \<Rightarrow> compareOrdered (sint a) (sint b)
        | (BInt32 a, BInt64 b) \<Rightarrow> compareOrdered (sint a) (sint b)
        | (BTimestamp a, BTimestamp b) \<Rightarrow> compareOrdered a b
        | (BInt64 a, BDouble b) \<Rightarrow> compareInvert (compareNumbers b (sint a))
        | (BInt64 a, BInt32 b) \<Rightarrow> compareOrdered (sint a) (sint b)
        | (BInt64 a, BInt64 b) \<Rightarrow> compareOrdered (sint a) (sint b)
        | (BDecimal128 l h, BDecimal128 l' h') \<Rightarrow>
            if h \<noteq> h' then compareOrdered h h' else compareOrdered l l'
        | (BUndefined, BUndefined) \<Rightarrow> Equal
        | (BMinKey, BMinKey) \<Rightarrow> Equal
        | (BMaxKey, BMaxKey) \<Rightarrow> Equal
        | _ \<Rightarrow> compareTypeOrder D v1 v2))"

section \<open>Documents and arrays\<close>

datatype SortType = Ascending | Descending

text \<open>
  \<open>arrays_loop\<close>, \<open>documents_loop\<close> and \<open>array_loop\<close> are the loops of
  \<open>compareArrays\<close>, \<open>compareDocuments\<close> and \<open>compareArray\<close> on the elements that
  remain; the last one carries the variables \<open>result\<close> and \<open>comparable\<close>.
\<close>

function (sequential) Compare :: "bigint_fun \<Rightarrow> bson \<Rightarrow> bson \<Rightarrow> CompareResult"
  and CompareOrder :: "bigint_fun \<Rightarrow> bson \<Rightarrow> bson \<Rightarrow> SortType \<Rightarrow> CompareResult"
  and compareArrays :: "bigint_fun \<Rightarrow> bson list \<Rightarrow> bson list \<Rightarrow> CompareResult"
  and arrays_loop :: "bigint_fun \<Rightarrow> bson list \<Rightarrow> bson list \<Rightarrow> CompareResult"
  and compareDocuments :: "bigint_fun \<Rightarrow> fields \<Rightarrow> fields \<Rightarrow> CompareResult"
  and documents_loop :: "bigint_fun \<Rightarrow> fields \<Rightarrow> fields \<Rightarrow> CompareResult"
  and compareArray :: "bigint_fun \<Rightarrow> bson list \<Rightarrow> bson \<Rightarrow> CompareResult"
  and array_loop :: "bigint_fun \<Rightarrow> bson list \<Rightarrow> bson \<Rightarrow> CompareResult \<Rightarrow> bool \<Rightarrow> CompareResult" where
  "Compare D (BDocument a) w =
     (case w of BDocument b \<Rightarrow> compareDocuments D a b | _ \<Rightarrow> compareTypeOrder D (BDocument a) w)"
| "Compare D (BArray a) w = compareArray D a w"
| "Compare D v w = compareScalars D v w"
| "CompareOrder D a b order =
     (let result = compareTypeOrder D a b in if result \<noteq> Equal then result else Compare D a b)"
| "compareArrays D docArr filterArr =
     (if filterArr = [] \<and> docArr = [] then Equal
      else if filterArr \<noteq> [] \<and> docArr = [] then Less
      else if filterArr = [] then Greater
      else arrays_loop D docArr filterArr)"
| "arrays_loop D (x # xs) (y # ys) =
     (let orderResult = CompareOrder D x y Ascending in
      if orderResult \<noteq> Equal then orderResult else arrays_loop D xs ys)"
| "arrays_loop D (x # xs) [] = Greater"
| "arrays_loop D [] ys = (if ys = [] then Equal else Less)"
| "compareDocuments D a b =
     (if a = [] \<and> b = [] then Equal
      else if a = [] \<and> b \<noteq> [] then Less
      else if b = [] then Greater
      else documents_loop D a b)"
| "documents_loop D ((aKey, aValue) # as) ((bKey, bValue) # bs) =
     (let result = compareTypeOrder D aValue bValue in if result \<noteq> Equal then result
      else let result = compareScalars D (BString aKey) (BString bKey) in if result \<noteq> Equal then result
      else let result = Compare D aValue bValue in if result \<noteq> Equal then result
      else documents_loop D as bs)"
| "documents_loop D (x # as) [] = Greater"
| "documents_loop D [] bs = (if bs = [] then Equal else Less)"
| "compareArray D as b =
     (case b of BArray bs \<Rightarrow> compareArrays D as bs | _ \<Rightarrow> array_loop D as b Equal False)"
| "array_loop D [] b result comparable = (if \<not> comparable then Less else result)"
| "array_loop D (a # as) b result comparable =
     (let result = compareTypeOrder D a b in
      if result \<noteq> Equal then array_loop D as b result comparable
      else let result = Compare D a b in
        if result = Equal then Equal else array_loop D as b result True)"
  by pat_completeness auto

termination
  by (relation "measure (\<lambda>x. case x of
        Inl (Inl (Inl (_, v, _))) \<Rightarrow> 4 * size v
      | Inl (Inl (Inr (_, v, _))) \<Rightarrow> 4 * size v + 1
      | Inl (Inr (Inl (_, xs, _))) \<Rightarrow> 4 * size_list size xs + 1
      | Inl (Inr (Inr (_, xs, _))) \<Rightarrow> 4 * size_list size xs
      | Inr (Inl (Inl (_, xs, _))) \<Rightarrow> 4 * size_list (size_prod (\<lambda>_. 0) size) xs + 1
      | Inr (Inl (Inr (_, xs, _))) \<Rightarrow> 4 * size_list (size_prod (\<lambda>_. 0) size) xs
      | Inr (Inr (Inl (_, xs, _))) \<Rightarrow> 4 * size_list size xs + 2
      | Inr (Inr (Inr (_, xs, _))) \<Rightarrow> 4 * size_list size xs)") auto

definition CompareForAggregation :: "bigint_fun \<Rightarrow> bson \<Rightarrow> bson \<Rightarrow> CompareResult" where
  "CompareForAggregation D docValue filterValue =
     (case docValue of
        BDocument a \<Rightarrow> (case filterValue of BDocument b \<Rightarrow> compareDocuments D a b
                       | _ \<Rightarrow> compareTypeOrder D docValue filterValue)
      | BArray a \<Rightarrow> (case filterValue of BArray b \<Rightarrow> compareArrays D a b
                       | _ \<Rightarrow> compareTypeOrder D docValue filterValue)
      | _ \<Rightarrow> compareScalars D docValue filterValue)"

section \<open>Arrays\<close>

text \<open>\<open>Min\<close> and \<open>Max\<close> panic on an empty array.\<close>

fun Min_array :: "bigint_fun \<Rightarrow> bson list \<Rightarrow> (unit, bson) result" where
  "Min_array D [] = Panic"
| "Min_array D (v # vs) =
     Ok (foldl (\<lambda>m value. if CompareOrder D m value Ascending = Greater then value else m) v vs)"

fun Max_array :: "bigint_fun \<Rightarrow> bson list \<Rightarrow> (unit, bson) result" where
  "Max_array D [] = Panic"
| "Max_array D (v # vs) =
     Ok (foldl (\<lambda>m value. if CompareOrder D m value Ascending = Less then value else m) v vs)"

definition FilterArrayByType :: "bigint_fun \<Rightarrow> bson list \<Rightarrow> bson \<Rightarrow> bson list" where
  "FilterArrayByType D a ref = filter (\<lambda>value. detectDataType D ref = detectDataType D value) a"

definition Contains :: "bigint_fun \<Rightarrow> bson list \<Rightarrow> bson \<Rightarrow> bool" where
  "Contains D a filterValue =
     (if \<not> isScalar filterValue then
        Compare D (BArray a) filterValue = Equal \<or> list_ex (\<lambda>elem. Compare D elem filterValue = Equal) a
      else list_ex (\<lambda>elem. isScalar elem \<and> compareScalars D elem filterValue = Equal) a)"

definition ContainsAll :: "bigint_fun \<Rightarrow> bson list \<Rightarrow> bson list \<Rightarrow> bool" where
  "ContainsAll D a b = list_all (Contains D a) b"

section \<open>The sort and operator orders\<close>

text \<open>An empty array stands for itself.\<close>

definition getComparisonElementFromArray :: "bigint_fun \<Rightarrow> bson list \<Rightarrow> SortType \<Rightarrow> (unit, bson) result" where
  "getComparisonElementFromArray D arr order =
     (if arr = [] then Ok (BArray arr)
      else case order of Ascending \<Rightarrow> Min_array D arr | Descending \<Rightarrow> Max_array D arr)"

definition sortElement :: "bigint_fun \<Rightarrow> bson \<Rightarrow> SortType \<Rightarrow> (unit, bson) result" where
  "sortElement D a order =
     (case a of BArray arr \<Rightarrow> getComparisonElementFromArray D arr order | _ \<Rightarrow> Ok a)"

definition ordered_by :: "SortType \<Rightarrow> CompareResult \<Rightarrow> CompareResult" where
  "ordered_by order r = (case order of Ascending \<Rightarrow> r | Descending \<Rightarrow> compareInvert r)"

definition CompareOrderForSort :: "bigint_fun \<Rightarrow> bson \<Rightarrow> bson \<Rightarrow> SortType \<Rightarrow> (unit, CompareResult) result" where
  "CompareOrderForSort D a b order =
     (if a = BArray [] \<and> b = BArray [] then Ok Equal
      else if a = BArray [] then Ok (case order of Ascending \<Rightarrow> Less | Descending \<Rightarrow> Greater)
      else if b = BArray [] then Ok (case order of Ascending \<Rightarrow> Greater | Descending \<Rightarrow> Less)
      else bind_result (sortElement D a order) (\<lambda>a. bind_result (sortElement D b order) (\<lambda>b.
        let result = compareTypeOrder D a b in
        if result \<noteq> Equal then Ok (ordered_by order result)
        else Ok (ordered_by order (Compare D a b)))))"

definition CompareOrderForOperator :: "bigint_fun \<Rightarrow> bson \<Rightarrow> bson \<Rightarrow> SortType \<Rightarrow> (unit, CompareResult) result" where
  "CompareOrderForOperator D a b order =
     (let isAArray = (case a of BArray _ \<Rightarrow> True | _ \<Rightarrow> False);
          isBArray = (case b of BArray _ \<Rightarrow> True | _ \<Rightarrow> False);
          arrA = (case a of BArray arr \<Rightarrow> if isBArray then arr else FilterArrayByType D arr b | _ \<Rightarrow> []) in
      if isAArray \<and> arrA = [] \<and> b = BArray [] then Ok Equal
      else if \<not> isAArray \<and> b = BArray [] then Ok (case order of Ascending \<Rightarrow> Greater | Descending \<Rightarrow> Less)
      else bind_result (if isAArray \<and> \<not> isBArray then getComparisonElementFromArray D arrA order else Ok a) (\<lambda>a.
        if compareTypeOrder D a b \<noteq> Equal then Ok (case order of Ascending \<Rightarrow> Greater | Descending \<Rightarrow> Less)
        else Ok (Compare D a b)))"

end
