(* ===== verification/ValueOrder.thy ===== *)
theory ValueOrder
  imports Compare
begin

text \<open>
  What the comparisons of \<^verbatim>\<open>internal/types\<close> guarantee: the fast path for numbers
  agrees with the exact rational comparison, \<open>CompareOrder\<close> is a total preorder on all
  BSON values (an interpretation of \<open>three_way\<close>), and \<open>Array.Min\<close>, \<open>Array.Max\<close> and
  the sort order follow from that.
\<close>

section \<open>Numbers compare exactly\<close>

definition num_cmp :: "nat \<times> rat \<Rightarrow> nat \<times> rat \<Rightarrow> CompareResult" where
  "num_cmp p q = (if fst p \<noteq> fst q then compareOrdered (fst p) (fst q)
     else if fst p = numFinite then compareOrdered (snd p) (snd q) else Equal)"

lemma f64_of_int_exact:
  assumes "\<bar>i\<bar> < 2 ^ 53"
  shows "f64_val (f64_of_int i) = i * int f64_unit \<and> f64_mag (f64_of_int i) < f64_inf_mag"
proof -
  have q: "nat \<bar>i\<bar> < 2 ^ 53" using assms by (simp add: nat_less_iff)
  obtain b where b: "nat \<bar>i\<bar> * 2 ^ 1074 = fmag_val b" using fmag_val_surj [OF q] by blast
  have "nat \<bar>i\<bar> * 2 ^ 1074 < 2 ^ 53 * (2 ^ 1074 :: nat)" using q by (simp only: mult_less_cancel2) simp
  also have "(2 :: nat) ^ 53 * 2 ^ 1074 = 2 ^ (53 + 1074)" by (simp only: power_add)
  also have "(2 :: nat) ^ (53 + 1074) \<le> 2 ^ (52 + 2046)" by (rule power_increasing) simp_all
  also have "(2 :: nat) ^ (52 + 2046) = fmag_val f64_inf_mag"
    by (simp only: power_add) (simp add: fmag_val_def)
  finally have less: "b < f64_inf_mag" by (simp only: b fmag_val_less_iff)
  have n: "nat \<bar>i * int f64_unit\<bar> = fmag_val b"
    by (simp only: b [symmetric] abs_mult nat_mult_distrib abs_ge_zero) simp
  have "f64_val (f64_of_int i) = i * int f64_unit"
    unfolding f64_of_int_def by (rule f64_val_of_val [OF n less_imp_le [OF less]])
  moreover have "f64_mag (f64_of_int i) = b"
    unfolding f64_of_int_def f64_mag_of_val n by (rule fmag_round_val [OF less_imp_le [OF less]])
  ultimately show ?thesis using less by (simp only: simp_thms)
qed

lemma compareOrdered_of_int: "compareOrdered (of_int a :: rat) (of_int b) = compareOrdered a b"
  by (simp add: compareOrdered_def)

lemma compareOrdered_scaled:
  "compareOrdered (of_int a / of_nat f64_unit :: rat) (of_int b / of_nat f64_unit) = compareOrdered a b"
proof -
  have "(of_int a / of_nat f64_unit :: rat) < of_int b / of_nat f64_unit \<longleftrightarrow> a < b"
    by (subst divide_less_cancel) simp
  moreover have "(of_int a / of_nat f64_unit :: rat) = of_int b / of_nat f64_unit \<longleftrightarrow> a = b"
    by (subst divide_cancel_right) simp
  ultimately show ?thesis by (simp only: compareOrdered_def)
qed

lemma f64_val_infinities:
  "IsInf_neg a \<Longrightarrow> f64_mag b < f64_inf_mag \<Longrightarrow> f64_val a < f64_val b"
  "IsInf_pos a \<Longrightarrow> f64_mag b < f64_inf_mag \<Longrightarrow> f64_val b < f64_val a"
proof -
  have *: "f64_mag b < f64_inf_mag \<Longrightarrow> int (fmag_val (f64_mag b)) < int (fmag_val f64_inf_mag)"
    by (simp only: of_nat_less_iff fmag_val_less_iff)
  have pos: "0 \<le> int (fmag_val n)" for n by simp
  show "f64_val a < f64_val b" if "IsInf_neg a" "f64_mag b < f64_inf_mag"
    using that(1) * [OF that(2)] pos [of "f64_mag b"] by (simp only: IsInf_neg_def f64_val_def if_True split: if_split) linarith
  show "f64_val b < f64_val a" if "IsInf_pos a" "f64_mag b < f64_inf_mag"
    using that(1) * [OF that(2)] pos [of "f64_mag b"] by (simp only: IsInf_pos_def f64_val_def simp_thms if_False split: if_split) linarith
qed

lemma f64_kinds:
  obtains (NaN) "IsNaN f" "\<not> IsInf_neg f" "\<not> IsInf_pos f"
  | (NegInf) "IsInf_neg f" "\<not> IsNaN f" "\<not> IsInf_pos f"
  | (PosInf) "IsInf_pos f" "\<not> IsNaN f" "\<not> IsInf_neg f"
  | (Finite) "f64_mag f < f64_inf_mag" "\<not> IsNaN f" "\<not> IsInf_neg f" "\<not> IsInf_pos f"
  unfolding IsNaN_def IsInf_neg_def IsInf_pos_def
  by (cases "f64_mag f" f64_inf_mag rule: linorder_cases; cases "f64_neg f") auto

lemma IsInf_val:
  "IsInf_neg a \<Longrightarrow> IsInf_neg b \<Longrightarrow> f64_val a = f64_val b"
  "IsInf_pos a \<Longrightarrow> IsInf_pos b \<Longrightarrow> f64_val a = f64_val b"
  "IsInf_neg a \<Longrightarrow> IsInf_pos b \<Longrightarrow> f64_val a < f64_val b"
  unfolding f64_val_def IsInf_neg_def IsInf_pos_def
  using fmag_val_less_iff [of 0 f64_inf_mag] by auto

lemma compareOrderedFloat_val:
  "\<not> IsNaN a \<Longrightarrow> \<not> IsNaN b \<Longrightarrow> compareOrderedFloat a b = compareOrdered (f64_val a) (f64_val b)"
  by (simp add: compareOrderedFloat_def compareOrdered_def f64_eq_def f64_lt_def)

lemma numericParts_double:
  "IsNaN f \<Longrightarrow> numericParts D (BDouble f) = Some (numNaN, 0)"
  "\<not> IsNaN f \<Longrightarrow> IsInf_neg f \<Longrightarrow> numericParts D (BDouble f) = Some (numNegInf, 0)"
  "\<not> IsNaN f \<Longrightarrow> \<not> IsInf_neg f \<Longrightarrow> IsInf_pos f \<Longrightarrow> numericParts D (BDouble f) = Some (numPosInf, 0)"
  "\<not> IsNaN f \<Longrightarrow> \<not> IsInf_neg f \<Longrightarrow> \<not> IsInf_pos f \<Longrightarrow>
     numericParts D (BDouble f) = Some (numFinite, of_int (f64_val f) / of_nat f64_unit)"
  by (simp_all only: numericParts.simps if_True if_False simp_thms)

lemma num_cmp_finite:
  "num_cmp (numFinite, of_int a / of_nat f64_unit) (numFinite, of_int b / of_nat f64_unit) = compareOrdered a b"
  by (simp only: num_cmp_def fst_conv snd_conv compareOrdered_scaled simp_thms if_False if_True)

lemma num_cmp_class: "c \<noteq> d \<Longrightarrow> num_cmp (c, r) (d, s) = compareOrdered c d"
  "c \<noteq> numFinite \<Longrightarrow> num_cmp (c, r) (c, s) = Equal"
  by (simp_all add: num_cmp_def)

lemma num_classes:
  "numNaN \<noteq> numNegInf" "numNaN \<noteq> numFinite" "numNaN \<noteq> numPosInf"
  "numNegInf \<noteq> numFinite" "numNegInf \<noteq> numPosInf" "numFinite \<noteq> numPosInf"
  "compareOrdered numNaN numNegInf = Less" "compareOrdered numNaN numFinite = Less"
  "compareOrdered numNaN numPosInf = Less" "compareOrdered numNegInf numFinite = Less"
  "compareOrdered numNegInf numPosInf = Less" "compareOrdered numFinite numPosInf = Less"
  "compareOrdered numNegInf numNaN = Greater" "compareOrdered numFinite numNaN = Greater"
  "compareOrdered numPosInf numNaN = Greater" "compareOrdered numFinite numNegInf = Greater"
  "compareOrdered numPosInf numNegInf = Greater" "compareOrdered numPosInf numFinite = Greater"
  by (simp_all add: num_defs compareOrdered_def)

lemmas num_cmp_simps = num_cmp_finite num_cmp_class num_classes num_classes(1-6) [symmetric]

lemma compareFloats_exact:
  "compareFloats a b = num_cmp (the (numericParts D (BDouble a))) (the (numericParts D (BDouble b)))"
proof -
  note simps = compareFloats_def compareOrderedFloat_val numericParts_double num_cmp_simps
    option.sel simp_thms if_True if_False
  note order = compareOrdered_iff(2) [THEN iffD2] compareOrdered_iff(3) [THEN iffD2] compareOrdered_same
  note vals = f64_val_infinities [of a b] f64_val_infinities [of b a]
    IsInf_val(1) [of a b] IsInf_val(2) [of a b] IsInf_val(3) [of a b] IsInf_val(3) [of b a]
  show ?thesis
    by (cases a rule: f64_kinds; cases b rule: f64_kinds) (simp_all only: simps vals order)
qed

lemma numericParts_exact_int:
  assumes "- maxExactFloatInt < i" "i < maxExactFloatInt"
  shows "numericParts D (BDouble (f64_of_int i)) = Some (numFinite, of_int i)"
proof -
  have "\<bar>i\<bar> < 2 ^ 53" using assms by (simp add: maxExactFloatInt_def)
  from f64_of_int_exact [OF this] have v: "f64_val (f64_of_int i) = i * int f64_unit"
    and m: "f64_mag (f64_of_int i) < f64_inf_mag" by (simp_all only: simp_thms)
  have "\<not> IsNaN (f64_of_int i)" "\<not> IsInf_neg (f64_of_int i)" "\<not> IsInf_pos (f64_of_int i)"
    using m unfolding IsNaN_def IsInf_neg_def IsInf_pos_def by linarith+
  then have "numericParts D (BDouble (f64_of_int i)) =
      Some (numFinite, of_int (i * int f64_unit) / of_nat f64_unit)"
    by (subst numericParts_double(4)) (simp_all only: v simp_thms)
  also have "(of_int (i * int f64_unit) / of_nat f64_unit :: rat) = of_int i"
    by (simp only: of_int_mult of_int_of_nat_eq) simp
  finally show ?thesis .
qed

lemma numericParts_asInt64: "asInt64 v = Some i \<Longrightarrow> numericParts D v = Some (numFinite, of_int i)"
  by (cases v) auto

lemma num_cmp_ints: "num_cmp (numFinite, of_int i) (numFinite, of_int j) = compareOrdered i j"
  by (simp add: num_cmp_def compareOrdered_of_int)

lemma asFloat64_Some: "asFloat64 v = Some f \<longleftrightarrow> v = BDouble f"
  by (cases v) auto

lemma asInt64_asFloat64: "asInt64 v = Some i \<Longrightarrow> asFloat64 v = None"
  by (cases v) auto

lemma compareNumericFast_exact:
  assumes "compareNumericFast v w = Some r"
  shows "r = num_cmp (the (numericParts D v)) (the (numericParts D w))"
proof -
  consider (ints) i j where "asInt64 v = Some i" "asInt64 w = Some j" "r = compareOrdered i j"
    | (floats) f g where "v = BDouble f" "w = BDouble g" "r = compareFloats f g"
    | (int_float) i g where "asInt64 v = Some i" "w = BDouble g" "- maxExactFloatInt < i" "i < maxExactFloatInt"
        "r = compareFloats (f64_of_int i) g"
    | (float_int) f j where "v = BDouble f" "asInt64 w = Some j" "- maxExactFloatInt < j" "j < maxExactFloatInt"
        "r = compareFloats f (f64_of_int j)"
    using assms unfolding compareNumericFast_def
    by (auto simp only: prod.case option.case split: option.splits if_splits
        dest!: asFloat64_Some [THEN iffD1])
  then show ?thesis
  proof cases
    case ints
    then show ?thesis by (simp only: numericParts_asInt64 option.sel num_cmp_ints)
  next
    case floats
    then show ?thesis by (simp only: compareFloats_exact [where D = D])
  next
    case int_float
    then show ?thesis
      by (simp only: compareFloats_exact [where D = D] numericParts_exact_int numericParts_asInt64)
  next
    case float_int
    then show ?thesis
      by (simp only: compareFloats_exact [where D = D] numericParts_exact_int numericParts_asInt64)
  qed
qed

lemma compareNumeric_num_cmp:
  assumes "numericParts D v = Some p" "numericParts D w = Some q"
  shows "compareNumeric D v w = Some (num_cmp p q)"
proof (cases "compareNumericFast v w")
  case None
  with assms show ?thesis by (cases p; cases q) (simp add: compareNumeric_def num_cmp_def)
next
  case (Some r)
  with compareNumericFast_exact [OF Some, of D] assms show ?thesis by (simp add: compareNumeric_def)
qed

lemma numericParts_None: "numericParts D v = None \<Longrightarrow> asInt64 v = None \<and> asFloat64 v = None"
  by (cases v) (auto simp only: numericParts.simps asInt64.simps asFloat64.simps
      option.distinct split: if_splits)

lemma compareNumericFast_None:
  "numericParts D v = None \<or> numericParts D w = None \<Longrightarrow> compareNumericFast v w = None"
  using numericParts_None [of D v] numericParts_None [of D w]
  by (auto simp: compareNumericFast_def split: option.splits)

lemma compareNumeric_None:
  "numericParts D v = None \<or> numericParts D w = None \<Longrightarrow> compareNumeric D v w = None"
  using compareNumericFast_None [of D v w] by (auto simp: compareNumeric_def split: option.splits)

interpretation numbers: three_way num_cmp UNIV
  by unfold_locales (auto simp: num_cmp_def compareOrdered_def split: if_splits)

section \<open>Each type is ordered\<close>

lemma detectDataType_iff [simp]:
  "detectDataType D v = stringDataType \<longleftrightarrow> (\<exists>s. v = BString s)"
  "detectDataType D v = documentDataType \<longleftrightarrow> (\<exists>fs. v = BDocument fs)"
  "detectDataType D v = arrayDataType \<longleftrightarrow> (\<exists>vs. v = BArray vs)"
  "detectDataType D v = binDataType \<longleftrightarrow> (\<exists>t b. v = BBinary t b)"
  "detectDataType D v = objectIDDataType \<longleftrightarrow> (\<exists>b. v = BObjectID b)"
  "detectDataType D v = booleanDataType \<longleftrightarrow> (\<exists>b. v = BBool b)"
  "detectDataType D v = dateDataType \<longleftrightarrow> (\<exists>d. v = BDate d)"
  "detectDataType D v = timestampDataType \<longleftrightarrow> (\<exists>t. v = BTimestamp t)"
  "detectDataType D v = regexDataType \<longleftrightarrow> (\<exists>p q. v = BRegex p q)"
  "detectDataType D v = minKeyDataType \<longleftrightarrow> v = BMinKey"
  "detectDataType D v = undefinedDataType \<longleftrightarrow> v = BUndefined"
  "detectDataType D v = nullDataType \<longleftrightarrow> v = BNull"
  "detectDataType D v = maxKeyDataType \<longleftrightarrow> v = BMaxKey"
  by (cases v; simp add: dataType_defs)+

lemma detectDataType_number:
  assumes "bigint_total D" "detectDataType D v = nanDataType \<or> detectDataType D v = numbersDataType"
  shows "isScalar v \<and> (\<exists>p. numericParts D v = Some p)"
proof (cases v)
  case (BDouble f)
  show ?thesis unfolding BDouble by (cases f rule: f64_kinds) (simp_all only: numericParts_double isScalar.simps simp_thms option.inject)
next
  case (BDecimal128 l h)
  then show ?thesis using assms(1) by (auto simp: bigint_total_def split: bigint_result.splits)
qed (use assms(2) in \<open>auto simp: dataType_defs\<close>)

lemma compareScalars_simps:
  "compareScalars D (BString a) (BString b) = bytes_compare a b"
  "compareScalars D (BBinary s x) (BBinary t y) =
     (if length x \<noteq> length y then compareOrdered (length x) (length y)
      else if s \<noteq> t then compareOrdered s t else bytes_compare x y)"
  "compareScalars D (BObjectID x) (BObjectID y) = bytes_compare x y"
  "compareScalars D (BBool c) (BBool d) = (if c = d then Equal else if d then Less else Greater)"
  "compareScalars D (BDate e) (BDate f) = compareOrdered (sint e) (sint f)"
  "compareScalars D (BTimestamp g) (BTimestamp h) = compareOrdered g h"
  "compareScalars D (BRegex p q) (BRegex p' q') = bytes_compare (p @ [CHR 0x00] @ q) (p' @ [CHR 0x00] @ q')"
  "compareScalars D BNull BNull = Equal"
  "compareScalars D BUndefined BUndefined = Equal"
  "compareScalars D BMinKey BMinKey = Equal"
  "compareScalars D BMaxKey BMaxKey = Equal"
  by (simp_all add: compareScalars_def compareNumeric_None)

lemma Compare_scalar: "isScalar v \<Longrightarrow> Compare D v w = compareScalars D v w"
  by (cases v) simp_all

lemma Compare_numbers:
  assumes "bigint_total D"
  shows "three_way (Compare D) {v. detectDataType D v = nanDataType \<or> detectDataType D v = numbersDataType}"
proof (rule three_way_vimage [OF numbers.three_way_axioms])
  fix a b
  assume "a \<in> {v. detectDataType D v = nanDataType \<or> detectDataType D v = numbersDataType}"
    "b \<in> {v. detectDataType D v = nanDataType \<or> detectDataType D v = numbersDataType}"
  then obtain p q where "isScalar a" "isScalar b" "numericParts D a = Some p" "numericParts D b = Some q"
    using detectDataType_number [OF assms, of a] detectDataType_number [OF assms, of b] by blast
  then show "Compare D a b = num_cmp (the (numericParts D a)) (the (numericParts D b))"
    by (simp add: Compare_scalar compareScalars_def compareNumeric_num_cmp)
qed simp

lemma three_way_const: "(\<And>a b. a \<in> A \<Longrightarrow> b \<in> A \<Longrightarrow> c a b = Equal) \<Longrightarrow> three_way c A"
  by unfold_locales simp_all

lemma three_way_binary:
  "three_way (cmp_then (\<lambda>p q. compareOrdered (length (snd p)) (length (snd q)))
     (cmp_then (\<lambda>p q. compareOrdered (fst p) (fst q)) (\<lambda>p q. bytes_compare (snd p) (snd q))))
     (UNIV :: (byte \<times> bytes) set)"
  by (intro three_way_then three_way_vimage [OF ordered.three_way_axioms, of _ "length \<circ> snd"]
      three_way_vimage [OF ordered.three_way_axioms, of _ fst]
      three_way_vimage [OF bytewise.three_way_axioms, of _ snd]) auto

lemma Compare_string: "three_way (Compare D) {v. detectDataType D v = stringDataType}"
  by (rule three_way_vimage [OF bytewise.three_way_axioms, of _ "\<lambda>v. case v of BString s \<Rightarrow> s"])
    (auto simp: compareScalars_simps)

lemma Compare_objectID: "three_way (Compare D) {v. detectDataType D v = objectIDDataType}"
  by (rule three_way_vimage [OF bytewise.three_way_axioms, of _ "\<lambda>v. case v of BObjectID b \<Rightarrow> b"])
    (auto simp: compareScalars_simps)

lemma Compare_boolean: "three_way (Compare D) {v. detectDataType D v = booleanDataType}"
  by (rule three_way_vimage [OF ordered.three_way_axioms, of _ "\<lambda>v. case v of BBool b \<Rightarrow> b"])
    (auto simp: compareScalars_simps compareOrdered_def)

lemma Compare_date: "three_way (Compare D) {v. detectDataType D v = dateDataType}"
  by (rule three_way_vimage [OF ordered.three_way_axioms, of _ "\<lambda>v. case v of BDate d \<Rightarrow> sint d"])
    (auto simp: compareScalars_simps)

lemma Compare_timestamp: "three_way (Compare D) {v. detectDataType D v = timestampDataType}"
  by (rule three_way_vimage [OF ordered.three_way_axioms, of _ "\<lambda>v. case v of BTimestamp t \<Rightarrow> t"])
    (auto simp: compareScalars_simps)

lemma Compare_regex: "three_way (Compare D) {v. detectDataType D v = regexDataType}"
  by (rule three_way_vimage [OF bytewise.three_way_axioms, of _ "\<lambda>v. case v of BRegex p q \<Rightarrow> p @ [CHR 0x00] @ q"])
    (auto simp: compareScalars_simps)

lemma Compare_bin: "three_way (Compare D) {v. detectDataType D v = binDataType}"
  by (rule three_way_vimage [OF three_way_binary, of _ "\<lambda>v. case v of BBinary t b \<Rightarrow> (t, b)"])
    (auto simp: compareScalars_simps cmp_then_def compareOrdered_def)

lemma Compare_class_constant:
  "three_way (Compare D) {v. detectDataType D v = minKeyDataType}"
  "three_way (Compare D) {v. detectDataType D v = undefinedDataType}"
  "three_way (Compare D) {v. detectDataType D v = nullDataType}"
  "three_way (Compare D) {v. detectDataType D v = maxKeyDataType}"
  by (rule three_way_const; simp add: compareScalars_simps)+

section \<open>Documents and arrays are ordered lexicographically\<close>

lemma compareTypeOrder_eq: "compareTypeOrder D a b = compareOrdered (detectDataType D a) (detectDataType D b)"
  by (auto simp: compareTypeOrder_def compareOrdered_def Let_def)

lemma compareTypeOrder_Equal: "compareTypeOrder D a b = Equal \<longleftrightarrow> detectDataType D a = detectDataType D b"
  by (simp add: compareTypeOrder_eq compareOrdered_iff)

lemma three_way_compareTypeOrder: "three_way (compareTypeOrder D) A"
  by (rule three_way_vimage [OF ordered.three_way_axioms, of _ "detectDataType D"])
    (auto simp: compareTypeOrder_eq)

abbreviation order_cmp :: "bigint_fun \<Rightarrow> bson \<Rightarrow> bson \<Rightarrow> CompareResult" where
  "order_cmp D a b \<equiv> CompareOrder D a b Ascending"

definition field_cmp :: "bigint_fun \<Rightarrow> string \<times> bson \<Rightarrow> string \<times> bson \<Rightarrow> CompareResult" where
  "field_cmp D = cmp_then (\<lambda>a b. compareTypeOrder D (snd a) (snd b))
     (cmp_then (\<lambda>a b. bytes_compare (fst a) (fst b)) (\<lambda>a b. order_cmp D (snd a) (snd b)))"

lemma field_cmp_pair:
  "field_cmp D (k, v) (l, w) = (case compareTypeOrder D v w of
     Equal \<Rightarrow> (case bytes_compare k l of Equal \<Rightarrow> Compare D v w | r \<Rightarrow> r) | r \<Rightarrow> r)"
  by (auto simp: field_cmp_def cmp_then_def split: CompareResult.splits)

lemma arrays_loop_lexcmp: "arrays_loop D xs ys = lexcmp (order_cmp D) xs ys"
proof (induction xs arbitrary: ys)
  case Nil
  show ?case by (cases ys) auto
next
  case (Cons x xs)
  then show ?case by (cases ys) (auto simp: Let_def simp del: CompareOrder.simps split: CompareResult.splits)
qed

lemma compareArrays_lexcmp: "compareArrays D xs ys = lexcmp (order_cmp D) xs ys"
  by (cases xs; cases ys) (simp_all add: arrays_loop_lexcmp del: arrays_loop.simps)

lemma documents_loop_lexcmp: "documents_loop D as bs = lexcmp (field_cmp D) as bs"
proof (induction as arbitrary: bs)
  case Nil
  show ?case by (cases bs) auto
next
  case (Cons a as)
  note IH = Cons.IH
  show ?case
  proof (cases bs)
    case (Cons b bs')
    then show ?thesis using IH [of bs'] by (cases a; cases b)
      (auto simp: Let_def field_cmp_pair compareScalars_simps split: CompareResult.splits)
  qed simp
qed

lemma compareDocuments_lexcmp: "compareDocuments D as bs = lexcmp (field_cmp D) as bs"
  by (cases as; cases bs) (simp_all add: documents_loop_lexcmp del: documents_loop.simps)

lemma three_way_field_cmp:
  assumes "three_way (order_cmp D) A"
  shows "three_way (field_cmp D) {f. snd f \<in> A}"
  unfolding field_cmp_def using assms
  by (intro three_way_then three_way_vimage [OF three_way_compareTypeOrder [of D UNIV], of _ snd]
      three_way_vimage [OF bytewise.three_way_axioms, of _ fst] three_way_vimage [OF assms, of _ snd])
    (auto simp del: CompareOrder.simps)

section \<open>CompareOrder is a total preorder\<close>

lemma CompareOrder_then: "order_cmp D = cmp_then (compareTypeOrder D) (Compare D)"
  by (auto simp: fun_eq_iff cmp_then_def Let_def split: CompareResult.splits)

lemma size_in_list: "v \<in> set vs \<Longrightarrow> size v < size (BArray vs)"
  by (induction vs) auto

lemma Compare_composite:
  assumes "three_way (order_cmp D) {v. size v < n}"
  shows "three_way (Compare D) {v. size v < Suc n \<and> detectDataType D v = arrayDataType}"
    and "three_way (Compare D) {v. size v < Suc n \<and> detectDataType D v = documentDataType}"
proof -
  have A: "three_way (lexcmp (order_cmp D)) {xs. set xs \<subseteq> {v. size v < n}}"
    by (rule three_way.three_way_lexcmp [OF assms])
  show "three_way (Compare D) {v. size v < Suc n \<and> detectDataType D v = arrayDataType}"
    by (rule three_way_vimage [OF A, of _ "\<lambda>v. case v of BArray vs \<Rightarrow> vs"])
      (auto simp: compareArrays_lexcmp dest!: size_in_list simp del: compareArrays.simps CompareOrder.simps)
  have B: "three_way (lexcmp (field_cmp D)) {fs. set fs \<subseteq> {f. snd f \<in> {v. size v < n}}}"
    by (rule three_way.three_way_lexcmp [OF three_way_field_cmp [OF assms]])
  show "three_way (Compare D) {v. size v < Suc n \<and> detectDataType D v = documentDataType}"
    by (rule three_way_vimage [OF B, of _ "\<lambda>v. case v of BDocument fs \<Rightarrow> fs"])
      (auto simp: compareDocuments_lexcmp dest!: size_field_value simp del: compareDocuments.simps)
qed

lemma Compare_class:
  assumes "bigint_total D" "three_way (order_cmp D) {v. size v < n}"
  shows "three_way (Compare D) {v. size v < Suc n \<and> detectDataType D v = detectDataType D a}"
proof -
  have sub: "three_way (Compare D) {v. size v < Suc n \<and> detectDataType D v = t}"
    if "three_way (Compare D) {v. detectDataType D v = t}" for t
    using three_way_subset [OF that] by (simp add: Collect_mono)
  have num: "three_way (Compare D) {v. size v < Suc n \<and> detectDataType D v = t}"
    if "t = nanDataType \<or> t = numbersDataType" for t
    by (rule three_way_subset [OF Compare_numbers [OF assms(1)]]) (use that in auto)
  show ?thesis
    using assms num Compare_composite [OF assms(2)]
    by (cases a) (simp_all only: detectDataType.simps sub Compare_string Compare_objectID Compare_boolean
        Compare_date Compare_timestamp Compare_regex Compare_bin Compare_class_constant simp_thms split: if_split)
qed

lemma three_way_CompareOrder_size:
  assumes "bigint_total D"
  shows "three_way (order_cmp D) {v. size v < n}"
proof (induction n)
  case 0
  show ?case by unfold_locales simp_all
next
  case (Suc n)
  have "{b \<in> {v. size v < Suc n}. compareTypeOrder D a b = Equal} =
      {v. size v < Suc n \<and> detectDataType D v = detectDataType D a}" for a
    by (auto simp: compareTypeOrder_eq compareOrdered_iff)
  then show ?case
    unfolding CompareOrder_then using Compare_class [OF assms Suc.IH]
    by (intro three_way_then three_way_compareTypeOrder) (simp only:)
qed

lemma three_way_CompareOrder:
  assumes "bigint_total D"
  shows "three_way (order_cmp D) UNIV"
proof (rule three_way.intro)
  note tw = three_way_CompareOrder_size [OF assms]
  show "order_cmp D a a = Equal" for a
    using three_way.cmp_refl [OF tw [of "Suc (size a)"], of a] by simp
  show "order_cmp D b a = compareInvert (order_cmp D a b)" for a b
    using three_way.cmp_invert [OF tw [of "Suc (size a + size b)"], of a b] by simp
  show "order_cmp D a c \<noteq> Greater" if "order_cmp D a b \<noteq> Greater" "order_cmp D b c \<noteq> Greater" for a b c
    using three_way.cmp_trans [OF tw [of "Suc (size a + size b + size c)"], of a b c] that by simp
qed

section \<open>Scalars of different types\<close>

lemma numericParts_NaN:
  assumes "numericParts D v = Some p"
  shows "fst p = numNaN \<longleftrightarrow> detectDataType D v = nanDataType"
    and "detectDataType D v = nanDataType \<or> detectDataType D v = numbersDataType"
proof -
  have "(fst p = numNaN \<longleftrightarrow> detectDataType D v = nanDataType) \<and>
      (detectDataType D v = nanDataType \<or> detectDataType D v = numbersDataType)"
  proof (cases v)
    case (BDouble f)
    with assms show ?thesis
      by (cases f rule: f64_kinds) (auto simp only: numericParts_double option.inject fst_conv
          detectDataType.simps if_True if_False num_classes simp_thms dataType_defs num_defs)
  next
    case (BDecimal128 l h)
    with assms show ?thesis
      by (auto simp: decimalIsNaN_def num_defs dataType_defs split: bigint_result.splits if_splits)
  qed (use assms in \<open>auto simp: num_defs dataType_defs\<close>)
  then show "fst p = numNaN \<longleftrightarrow> detectDataType D v = nanDataType"
    and "detectDataType D v = nanDataType \<or> detectDataType D v = numbersDataType" by blast+
qed

lemma compareScalars_other_types:
  assumes "bigint_total D" "compareTypeOrder D v w \<noteq> Equal"
  shows "compareScalars D v w = compareTypeOrder D v w"
proof (cases "\<exists>p q. numericParts D v = Some p \<and> numericParts D w = Some q")
  case True
  then obtain p q where pq: "numericParts D v = Some p" "numericParts D w = Some q" by blast
  have t: "detectDataType D v \<noteq> detectDataType D w"
    using assms(2) by (simp only: compareTypeOrder_Equal simp_thms)
  note v = numericParts_NaN [OF pq(1)] and w = numericParts_NaN [OF pq(2)]
  have "num_cmp p q = compareTypeOrder D v w"
    using t v w by (auto simp: num_cmp_def compareTypeOrder_eq compareOrdered_def num_defs dataType_defs)
  moreover have "compareScalars D v w = num_cmp p q \<or> \<not> isScalar v \<or> \<not> isScalar w"
    using compareNumeric_num_cmp [OF pq] by (simp add: compareScalars_def)
  ultimately show ?thesis by (auto simp: compareScalars_def)
next
  case False
  then have "compareNumeric D v w = None" by (intro compareNumeric_None) (metis option.exhaust)
  moreover have "detectDataType D v \<noteq> detectDataType D w"
    using assms(2) by (simp only: compareTypeOrder_Equal simp_thms)
  moreover have "\<not> ((detectDataType D v = nanDataType \<or> detectDataType D v = numbersDataType) \<and>
      (detectDataType D w = nanDataType \<or> detectDataType D w = numbersDataType))"
    using False detectDataType_number [OF assms(1), of v] detectDataType_number [OF assms(1), of w] by blast
  ultimately show ?thesis
    by (cases v; cases w) (simp_all add: compareScalars_def split: if_splits)
qed

lemma CompareForAggregation_order:
  assumes "bigint_total D"
  shows "CompareForAggregation D a b = order_cmp D a b"
proof (cases "isScalar a")
  case True
  have "CompareForAggregation D a b = compareScalars D a b"
    using True by (cases a) (simp_all add: CompareForAggregation_def)
  then show ?thesis
    using compareScalars_other_types [OF assms, of a b] Compare_scalar [OF True, of D b]
    by (auto simp: Let_def)
next
  case False
  then show ?thesis
    by (cases a; cases b) (simp_all add: CompareForAggregation_def compareTypeOrder_Equal dataType_defs
        del: compareArrays.simps compareDocuments.simps)
qed

section \<open>Sort keys\<close>

text \<open>
  The element a value is sorted by: \<open>None\<close> for the empty array, which is lowest, else
  the value or the least or greatest element of the array.
\<close>

definition sort_key_of :: "bigint_fun \<Rightarrow> SortType \<Rightarrow> bson \<Rightarrow> bson option" where
  "sort_key_of D order a = (if a = BArray [] then None else
     (case sortElement D a order of Ok v \<Rightarrow> Some v | _ \<Rightarrow> None))"

definition key_cmp :: "('a \<Rightarrow> 'a \<Rightarrow> CompareResult) \<Rightarrow> 'a option \<Rightarrow> 'a option \<Rightarrow> CompareResult" where
  "key_cmp c x y = (case (x, y) of (None, None) \<Rightarrow> Equal | (None, Some _) \<Rightarrow> Less
     | (Some _, None) \<Rightarrow> Greater | (Some a, Some b) \<Rightarrow> c a b)"

lemma three_way_key_cmp:
  assumes "three_way c UNIV"
  shows "three_way (key_cmp c) UNIV"
proof (rule three_way.intro)
  show "key_cmp c a a = Equal" for a
    using three_way.cmp_refl [OF assms] by (simp add: key_cmp_def split: option.splits)
  show "key_cmp c b a = compareInvert (key_cmp c a b)" for a b
    using three_way.cmp_invert [OF assms, of "the a" "the b"] by (cases a; cases b) (simp_all add: key_cmp_def)
  show "key_cmp c x z \<noteq> Greater" if "key_cmp c x y \<noteq> Greater" "key_cmp c y z \<noteq> Greater" for x y z
    using that three_way.cmp_trans [OF assms, of "the x" "the y" "the z"]
    by (cases x; cases y; cases z) (simp_all add: key_cmp_def)
qed

lemma sortElement_Ok: "\<exists>v. sortElement D a order = Ok v"
proof (cases a)
  case (BArray vs)
  then show ?thesis
    by (cases vs; cases order) (simp_all add: sortElement_def getComparisonElementFromArray_def)
qed (simp_all add: sortElement_def)

lemma CompareOrderForSort_key:
  "CompareOrderForSort D a b order =
     Ok (ordered_by order (key_cmp (order_cmp D) (sort_key_of D order a) (sort_key_of D order b)))"
proof -
  obtain v w where v: "sortElement D a order = Ok v" and w: "sortElement D b order = Ok w"
    using sortElement_Ok by meson
  show ?thesis
    using v w by (cases order; cases "a = BArray []"; cases "b = BArray []")
      (simp_all add: CompareOrderForSort_def sort_key_of_def key_cmp_def ordered_by_def Let_def)
qed

lemma three_way_ordered_by:
  assumes "three_way c A"
  shows "three_way (\<lambda>a b. ordered_by order (c a b)) A"
proof (cases order)
  case Descending
  show ?thesis
  proof (rule three_way_vimage [OF three_way_converse [OF assms], of _ id])
    show "ordered_by order (c a b) = c (id b) (id a)" if "a \<in> A" "b \<in> A" for a b
      using that three_way.cmp_invert [OF assms, of a b] Descending by (simp add: ordered_by_def)
  qed simp
qed (use assms in \<open>simp add: ordered_by_def\<close>)

section \<open>Properties of the value order\<close>

text \<open>A concrete \<open>BigInt\<close> for the witnesses: exponent 0, and the special values.\<close>

definition sample_bigint :: bigint_fun where
  "sample_bigint h l = (if h = 0x3040000000000000 then BigInt (uint l) 0
     else if h = 0x7800000000000000 then ErrParseInf
     else if h = 0xf800000000000000 then ErrParseNegInf else ErrParseNaN)"

lemma sample_bigint_total: "bigint_total sample_bigint"
  by (simp add: bigint_total_def sample_bigint_def)

text \<open>
  Property C23 (equivalence). The allocation-free comparison of numbers has the result of the exact one: on any
  two numbers \<open>compareNumeric\<close>, fast path included, answers, and the answer is the order
  of their classes (NaN, \<open>-\<infinity>\<close>, finite, \<open>\<infinity>\<close>) and, for finite numbers, of the exact
  rationals.
\<close>

theorem compareNumeric_exact:
  assumes "numericParts D v = Some (c1, r1)" "numericParts D w = Some (c2, r2)"
  shows "compareNumeric D v w = Some (if c1 \<noteq> c2 then compareOrdered c1 c2
    else if c1 = numFinite then compareOrdered r1 r2 else Equal)"
  using compareNumeric_num_cmp [OF assms] by (simp add: num_cmp_def)

theorem compareNumeric_exact_witness:
  "compareNumeric sample_bigint (BInt64 9007199254740993) (BInt32 7) = Some Greater"
  using compareNumeric_exact [of sample_bigint "BInt64 9007199254740993" numFinite 9007199254740993 "BInt32 7" numFinite 7]
  by (simp add: compareOrdered_def)

text \<open>
  Property C4 (functional). \<open>CompareOrder\<close> is a total preorder on all BSON values, nested ones included:
  reflexive, antisymmetric in its three-way result, and transitive. Sorting, minima and
  the update operators \<open>$min\<close> and \<open>$max\<close> rest on it.
\<close>

theorem CompareOrder_total_preorder:
  assumes "bigint_total D"
  shows "CompareOrder D a a Ascending = Equal \<and>
    CompareOrder D b a Ascending = compareInvert (CompareOrder D a b Ascending) \<and>
    (CompareOrder D a b Ascending \<noteq> Greater \<longrightarrow> CompareOrder D b c Ascending \<noteq> Greater \<longrightarrow>
      CompareOrder D a c Ascending \<noteq> Greater)"
  using three_way.cmp_refl [OF three_way_CompareOrder [OF assms], of a]
    three_way.cmp_invert [OF three_way_CompareOrder [OF assms], of a b]
    three_way.cmp_trans [OF three_way_CompareOrder [OF assms], of a b c] by blast

theorem CompareOrder_total_preorder_witness:
  "CompareOrder sample_bigint BNull BMaxKey Ascending \<noteq> Greater"
  using CompareOrder_total_preorder [OF sample_bigint_total, of BNull "BString ''x''" BMaxKey]
  by (simp add: compareTypeOrder_def dataType_defs)

text \<open>
  Grouping uses the same order: \<open>CompareForAggregation\<close> is \<open>CompareOrder\<close> on every pair
  of values, so an array never equals a value that is not an array.
\<close>

theorem CompareForAggregation_is_CompareOrder:
  assumes "bigint_total D"
  shows "CompareForAggregation D a b = CompareOrder D a b Ascending"
  by (rule CompareForAggregation_order [OF assms])

theorem CompareForAggregation_is_CompareOrder_witness:
  "CompareForAggregation sample_bigint (BArray [BNull]) BNull = CompareOrder sample_bigint (BArray [BNull]) BNull Ascending"
  by (rule CompareForAggregation_is_CompareOrder [OF sample_bigint_total])

text \<open>
  \<open>Min\<close> and \<open>Max\<close> of a non-empty array return an element of it that no other element
  is below, respectively above.
\<close>

theorem Min_Max_array:
  assumes "bigint_total D" "vs \<noteq> []"
  shows "\<exists>m n. Min_array D vs = Ok m \<and> m \<in> set vs \<and> (\<forall>x\<in>set vs. CompareOrder D m x Ascending \<noteq> Greater) \<and>
    Max_array D vs = Ok n \<and> n \<in> set vs \<and> (\<forall>x\<in>set vs. CompareOrder D n x Ascending \<noteq> Less)"
proof -
  obtain v ws where vs: "vs = v # ws" using assms(2) by (cases vs) auto
  note tw = three_way_CompareOrder [OF assms(1)]
  note twc = three_way_converse [OF tw]
  have inv: "order_cmp D b a = Greater \<longleftrightarrow> order_cmp D a b = Less" for a b
    using three_way.cmp_invert [OF tw, of a b] by simp
  show ?thesis
    using three_way.fold_min [OF tw, of v ws] three_way.fold_min [OF twc, of v ws, unfolded inv]
    unfolding vs by (simp del: CompareOrder.simps)
qed

theorem Min_Max_array_witness:
  "\<exists>m n. Min_array sample_bigint [BNull, BString ''b''] = Ok m \<and> (m = BNull \<or> m = BString ''b'') \<and>
    CompareOrder sample_bigint m BNull Ascending \<noteq> Greater \<and>
    CompareOrder sample_bigint m (BString ''b'') Ascending \<noteq> Greater \<and>
    Max_array sample_bigint [BNull, BString ''b''] = Ok n \<and> (n = BNull \<or> n = BString ''b'') \<and>
    CompareOrder sample_bigint n BNull Ascending \<noteq> Less \<and>
    CompareOrder sample_bigint n (BString ''b'') Ascending \<noteq> Less"
  using Min_Max_array [OF sample_bigint_total, of "[BNull, BString ''b'']"]
  by (simp del: CompareOrder.simps Min_array.simps Max_array.simps)

text \<open>
  \<open>CompareOrderForSort\<close> never panics and, in both directions, is a total preorder on all
  values, so the result of a sort does not depend on the sorting algorithm beyond ties.
\<close>

theorem CompareOrderForSort_total_preorder:
  assumes "bigint_total D"
  shows "\<exists>c. (\<forall>a b. CompareOrderForSort D a b order = Ok (c a b)) \<and> three_way c UNIV"
proof (intro exI conjI allI)
  show "CompareOrderForSort D a b order =
      Ok (ordered_by order (key_cmp (order_cmp D) (sort_key_of D order a) (sort_key_of D order b)))" for a b
    by (rule CompareOrderForSort_key)
  show "three_way (\<lambda>a b. ordered_by order (key_cmp (order_cmp D) (sort_key_of D order a) (sort_key_of D order b))) UNIV"
    by (rule three_way_ordered_by, rule three_way_vimage
        [OF three_way_key_cmp [OF three_way_CompareOrder [OF assms]], of _ "sort_key_of D order"]) simp_all
qed

theorem CompareOrderForSort_total_preorder_witness:
  "\<exists>c. (\<forall>a b. CompareOrderForSort sample_bigint a b Descending = Ok (c a b)) \<and> three_way c UNIV"
  by (rule CompareOrderForSort_total_preorder [OF sample_bigint_total])

end
