(* ===== verification/KeyString.thy ===== *)
theory KeyString
  imports ValueOrder Codec
begin

unbundle bit_operations_syntax

text \<open>
  The byte-comparable encoding of index keys, \<^verbatim>\<open>internal/index/keystring.go\<close>. A
  conversion of a \<open>float64\<close> that is out of range for the integer type is
  implementation-defined in Go: the parameter \<open>C\<close> holds what the platform returns there.
  \<open>EncodeValue\<close> of a collation sort key (\<open>PreEncoded\<close>) is \<open>encodeStringBytes\<close>.
\<close>

section \<open>Constants and conversions\<close>

definition ctypeUndefined :: byte where "ctypeUndefined = 0x0C"
definition ctypeMinKey :: byte where "ctypeMinKey = 0x10"
definition ctypeNull :: byte where "ctypeNull = 0x14"
definition ctypeNaN :: byte where "ctypeNaN = 0x19"
definition ctypeNegInf :: byte where "ctypeNegInf = 0x1A"
definition ctypeNegMedium :: byte where "ctypeNegMedium = 0x22"
definition ctypeZero :: byte where "ctypeZero = 0x29"
definition ctypePosMedium :: byte where "ctypePosMedium = 0x2B"
definition ctypePosInf :: byte where "ctypePosInf = 0x33"
definition ctypeString :: byte where "ctypeString = 0x3C"
definition ctypeObject :: byte where "ctypeObject = 0x46"
definition ctypeArray :: byte where "ctypeArray = 0x50"
definition ctypeBinData :: byte where "ctypeBinData = 0x5A"
definition ctypeOID :: byte where "ctypeOID = 0x64"
definition ctypeBoolFalse :: byte where "ctypeBoolFalse = 0x6E"
definition ctypeBoolTrue :: byte where "ctypeBoolTrue = 0x6F"
definition ctypeDate :: byte where "ctypeDate = 0x78"
definition ctypeTimestamp :: byte where "ctypeTimestamp = 0x82"
definition ctypeRegex :: byte where "ctypeRegex = 0x8C"
definition ctypeMaxKey :: byte where "ctypeMaxKey = 0xF0"

lemmas ctype_defs = ctypeUndefined_def ctypeMinKey_def ctypeNull_def ctypeNaN_def ctypeNegInf_def
  ctypeNegMedium_def ctypeZero_def ctypePosMedium_def ctypePosInf_def ctypeString_def ctypeObject_def
  ctypeArray_def ctypeBinData_def ctypeOID_def ctypeBoolFalse_def ctypeBoolTrue_def ctypeDate_def
  ctypeTimestamp_def ctypeRegex_def ctypeMaxKey_def

record conversions =
  out_of_range_int64 :: "float64 \<Rightarrow> int64"
  out_of_range_uint64 :: "float64 \<Rightarrow> uint64"

definition go_int64 :: "conversions \<Rightarrow> float64 \<Rightarrow> int64" where
  "go_int64 C f = (if - (2 ^ 63) \<le> f64_to_int f \<and> f64_to_int f < 2 ^ 63
     then word_of_int (f64_to_int f) else out_of_range_int64 C f)"

definition go_uint64 :: "conversions \<Rightarrow> float64 \<Rightarrow> uint64" where
  "go_uint64 C f = (if 0 \<le> f64_to_int f \<and> f64_to_int f < 2 ^ 64
     then word_of_int (f64_to_int f) else out_of_range_uint64 C f)"

section \<open>Integers\<close>

definition minBytesForUint :: "nat \<Rightarrow> nat" where
  "minBytesForUint n =
     (if n \<le> 0xFF then 1 else if n \<le> 0xFFFF then 2 else if n \<le> 0xFFFFFF then 3
      else if n \<le> 0xFFFFFFFF then 4 else if n \<le> 0xFFFFFFFFFF then 5
      else if n \<le> 0xFFFFFFFFFFFF then 6 else if n \<le> 0xFFFFFFFFFFFFFF then 7 else 8)"

text \<open>The loops that fill the buffer from its end: \<open>byte(n)\<close>, then \<open>n >>= 8\<close>.\<close>

fun be_bytes :: "nat \<Rightarrow> nat \<Rightarrow> bytes" where
  "be_bytes 0 n = []"
| "be_bytes (Suc k) n = be_bytes k (n div 256) @ [word_of_nat n]"

definition encodePosInt :: "uint64 \<Rightarrow> bytes" where
  "encodePosInt n = (let byteCount = minBytesForUint (unat n) in
     (ctypePosMedium + word_of_nat (byteCount - 1)) # be_bytes byteCount (unat n))"

definition encodeNegInt :: "int64 \<Rightarrow> bytes" where
  "encodeNegInt n =
     (let mag = (if sint n = - (2 ^ 63) then 2 ^ 63 else unat (- n));
          byteCount = minBytesForUint mag in
      (ctypeNegMedium - word_of_nat (byteCount - 1)) # map (\<lambda>b. NOT b) (be_bytes byteCount mag))"

definition encodeInt64 :: "int64 \<Rightarrow> bytes" where
  "encodeInt64 n =
     (if n = 0 then [ctypeZero] else if 0 < sint n then encodePosInt n else encodeNegInt n)"

section \<open>Doubles, strings and values\<close>

definition appendFraction :: "bytes \<Rightarrow> float64 \<Rightarrow> bytes" where
  "appendFraction out fr = out @ be_bytes 8 (unat fr)"

text \<open>
  The constants \<open>math.MinInt64\<close> and \<open>math.MaxInt64\<close> are converted to \<open>float64\<close> before
  the comparison; the second rounds to \<open>2\<^sup>6\<^sup>3\<close>.
\<close>

definition encodeFloat64 :: "conversions \<Rightarrow> float64 \<Rightarrow> bytes" where
  "encodeFloat64 C f =
     (if IsNaN f then [ctypeNaN]
      else if IsInf_neg f then [ctypeNegInf]
      else if IsInf_pos f then [ctypePosInf]
      else if f64_eq f 0 then [ctypeZero]
      else if f64_eq f (Trunc f) \<and> \<not> f64_lt f (f64_of_int (- (2 ^ 63))) \<and>
              \<not> f64_lt (f64_of_int (2 ^ 63 - 1)) f
        then encodeInt64 (go_int64 C f)
      else if f64_lt 0 f then
        (let ip = Floor f in appendFraction (encodePosInt (go_uint64 C ip)) (f64_sub f ip))
      else
        (let mag = Ceil (f64_uminus f) in
         appendFraction (encodeNegInt (go_int64 C (f64_uminus mag))) (f64_add mag f)))"

fun appendEscaped :: "bytes \<Rightarrow> bytes" where
  "appendEscaped [] = [0]"
| "appendEscaped (b # s) = (if b = 0 then [b, 0xFF] else [b]) @ appendEscaped s"

definition encodeStringBytes :: "bytes \<Rightarrow> bytes" where
  "encodeStringBytes raw = ctypeString # appendEscaped raw"

definition encodeString :: "string \<Rightarrow> bytes" where
  "encodeString s = encodeStringBytes (bytes_of s)"

fun EncodeValue :: "conversions \<Rightarrow> bson \<Rightarrow> bytes" where
  "EncodeValue C BNull = [ctypeNull]"
| "EncodeValue C (BBool b) = (if b then [ctypeBoolTrue] else [ctypeBoolFalse])"
| "EncodeValue C (BInt32 i) = encodeInt64 (scast i)"
| "EncodeValue C (BInt64 i) = encodeInt64 i"
| "EncodeValue C (BDouble f) = encodeFloat64 C f"
| "EncodeValue C (BString s) = encodeString s"
| "EncodeValue C (BObjectID oid) = ctypeOID # oid"
| "EncodeValue C (BDate d) = ctypeDate # be_bytes 8 (unat d)"
| "EncodeValue C (BBinary t b) = ctypeBinData # t # b"
| "EncodeValue C (BTimestamp t) = ctypeTimestamp # be_bytes 8 (unat t)"
| "EncodeValue C (BRegex p q) = ctypeRegex # appendEscaped (bytes_of p) @ appendEscaped (bytes_of q)"
| "EncodeValue C (BDocument _) = [ctypeObject]"
| "EncodeValue C (BArray _) = [ctypeArray]"
| "EncodeValue C BUndefined = [ctypeUndefined]"
| "EncodeValue C BMaxKey = [ctypeMaxKey]"
| "EncodeValue C BMinKey = [ctypeMinKey]"
| "EncodeValue C (BDecimal128 _ _) = [ctypeNull]"

fun EncodeValueLossy :: "bson \<Rightarrow> bool" where
  "EncodeValueLossy (BDecimal128 _ _) = True"
| "EncodeValueLossy _ = False"

definition LeadingKeyMergesValues :: "bytes \<Rightarrow> bool" where
  "LeadingKeyMergesValues key = (key \<noteq> [] \<and> (hd key = ctypeObject \<or> hd key = ctypeArray))"

definition KeyMergesValues :: "bytes \<Rightarrow> bool" where
  "KeyMergesValues key = (length key = 1 \<and> (hd key = ctypeObject \<or> hd key = ctypeArray))"

fun ValueLossy :: "bson \<Rightarrow> bool" where
  "ValueLossy (BDouble f) =
     (if IsNaN f \<or> IsInf_neg f \<or> IsInf_pos f \<or> f64_eq f 0 then False
      else f64_eq f (Trunc f) \<and> (\<not> f64_lt f (f64_of_int (2 ^ 64)) \<or> f64_lt f (f64_of_int (- (2 ^ 63)))))"
| "ValueLossy v = EncodeValueLossy v"

fun BracketRange :: "bson \<Rightarrow> (bytes \<times> bytes) option" where
  "BracketRange (BInt32 _) = Some ([ctypeNegInf], [ctypePosInf + 1])"
| "BracketRange (BInt64 _) = Some ([ctypeNegInf], [ctypePosInf + 1])"
| "BracketRange (BDouble _) = Some ([ctypeNegInf], [ctypePosInf + 1])"
| "BracketRange (BString _) = Some ([ctypeString], [ctypeString + 1])"
| "BracketRange (BDate _) = Some ([ctypeDate], [ctypeDate + 1])"
| "BracketRange (BObjectID _) = Some ([ctypeOID], [ctypeOID + 1])"
| "BracketRange (BBool _) = Some ([ctypeBoolFalse], [ctypeBoolTrue + 1])"
| "BracketRange (BBinary _ _) = Some ([ctypeBinData], [ctypeBinData + 1])"
| "BracketRange (BTimestamp _) = Some ([ctypeTimestamp], [ctypeTimestamp + 1])"
| "BracketRange _ = None"

end
