(* ===== verification/KeyOrder.thy ===== *)
theory KeyOrder
  imports KeyString
begin

unbundle bit_operations_syntax

text \<open>
  KeyStrings sort like the values they encode. \<open>diverge a b\<close> says \<open>a\<close> is below \<open>b\<close>
  whatever follows either; \<open>sep a b\<close> also allows \<open>b\<close> to continue \<open>a\<close> with a byte above
  the discriminators \<open>0x04\<close> and \<open>0x05\<close>, which is what keeps index entries and range bounds
  in order once a discriminator and a primary key follow the encoding.
\<close>

section \<open>Separated byte strings\<close>

definition diverge :: "bytes \<Rightarrow> bytes \<Rightarrow> bool" where
  "diverge a b \<longleftrightarrow> (\<exists>p x y r s. a = p @ x # r \<and> b = p @ y # s \<and> x < y)"

definition sep :: "bytes \<Rightarrow> bytes \<Rightarrow> bool" where
  "sep a b \<longleftrightarrow> diverge a b \<or> (\<exists>y s. b = a @ y # s \<and> 5 < y)"

lemma divergeI: "x < y \<Longrightarrow> diverge (p @ x # r) (p @ y # s)"
  by (auto simp: diverge_def)

lemma diverge_hd: "x < y \<Longrightarrow> diverge (x # r) (y # s)"
  using divergeI [of x y "[]"] by simp

lemma divergeE:
  assumes "diverge a b"
  obtains p x y r s where "a = p @ x # r" "b = p @ y # s" "x < y"
  using assms by (auto simp: diverge_def)

lemma diverge_append: "diverge a b \<Longrightarrow> diverge (a @ t) (b @ u)"
  by (elim divergeE) (auto intro: divergeI)

lemma diverge_prefix: "diverge a b \<Longrightarrow> diverge (p @ a) (p @ b)"
  unfolding diverge_def by (metis append.assoc)

lemma diverge_Cons: "diverge a b \<Longrightarrow> diverge (x # a) (x # b)"
  using diverge_prefix [of a b "[x]"] by simp

lemma diverge_Less: "diverge a b \<Longrightarrow> bytes_compare a b = Less"
  by (auto simp: diverge_def)

lemma sep_Cons: "sep a b \<Longrightarrow> sep (x # a) (x # b)"
  using diverge_Cons [of a b x] by (auto simp: sep_def)

lemma sep_Less:
  assumes "sep a b" "t = [] \<or> hd t \<le> 5"
  shows "bytes_compare (a @ t) (b @ u) = Less"
proof -
  consider "diverge (a @ t) (b @ u)" | y s where "b = a @ y # s" "5 < y"
    using assms(1) diverge_append by (auto simp: sep_def)
  then show ?thesis
  proof cases
    case 1
    then show ?thesis by (rule diverge_Less)
  next
    case 2
    then show ?thesis
      using assms(2) bytes_compare_prefix [of a t "y # s @ u"] by (cases t) (auto simp: not_less)
  qed
qed

lemma same_length_diverge:
  "length a = length b \<Longrightarrow> bytes_compare a b = Less \<Longrightarrow> diverge a b"
  by (induction a b rule: list_induct2) (auto intro: diverge_hd diverge_Cons split: if_splits)

lemma uint_NOT_byte: "uint (NOT (x :: byte)) = 255 - uint x"
proof -
  have "take_bit 8 (uint x) = uint x" using uint_lt2p [of x] by (simp add: take_bit_int_eq_self)
  then show ?thesis by (simp add: unsigned_not_eq take_bit_not_eq_mask_diff mask_eq_exp_minus_1)
qed

lemma diverge_NOT: "diverge a b \<Longrightarrow> diverge (map (\<lambda>b. NOT b) b) (map (\<lambda>b. NOT b) a)"
proof -
  have "x < y \<Longrightarrow> NOT y < NOT x" for x y :: byte
    by (simp add: word_less_def uint_NOT_byte)
  then show "diverge a b \<Longrightarrow> ?thesis" by (elim divergeE) (simp add: divergeI)
qed

section \<open>Big-endian integers\<close>

lemma length_be_bytes [simp]: "length (be_bytes k n) = k"
  by (induction k arbitrary: n) auto

lemma be_bytes_less: "m < n \<Longrightarrow> n < 256 ^ k \<Longrightarrow> diverge (be_bytes k m) (be_bytes k n)"
proof (induction k arbitrary: m n)
  case (Suc k)
  show ?case
  proof (cases "m div 256 < n div 256")
    case True
    moreover have "n div 256 < 256 ^ k" using Suc.prems(2) by (simp add: div_less_iff_less_mult mult.commute)
    ultimately show ?thesis using Suc.IH [of "m div 256" "n div 256"] by (simp add: diverge_append)
  next
    case False
    then have eq: "m div 256 = n div 256" using div_le_mono [of m n 256] Suc.prems(1) by simp
    then have "m mod 256 < n mod 256" using Suc.prems(1) by (metis div_mult_mod_eq nat_add_left_cancel_less)
    then have "(word_of_nat m :: byte) < word_of_nat n" by (simp add: word_less_nat_alt unat_of_nat)
    then show ?thesis using eq divergeI [of _ _ "be_bytes k (n div 256)" "[]" "[]"] by simp
  qed
qed simp

lemma minBytes_range: "1 \<le> minBytesForUint n \<and> minBytesForUint n \<le> 8"
  by (simp add: minBytesForUint_def)

lemma minBytes_mono: "m \<le> n \<Longrightarrow> minBytesForUint m \<le> minBytesForUint n"
  by (simp add: minBytesForUint_def)

lemma minBytes_bound: "n < 2 ^ 64 \<Longrightarrow> n < 256 ^ minBytesForUint n"
  by (simp add: minBytesForUint_def)

definition pos_key :: "nat \<Rightarrow> bytes" where
  "pos_key n = (ctypePosMedium + word_of_nat (minBytesForUint n - 1)) # be_bytes (minBytesForUint n) n"

definition neg_key :: "nat \<Rightarrow> bytes" where
  "neg_key n = (ctypeNegMedium - word_of_nat (minBytesForUint n - 1)) #
     map (\<lambda>b. NOT b) (be_bytes (minBytesForUint n) n)"

lemma pos_head: "i < 8 \<Longrightarrow> unat (ctypePosMedium + word_of_nat i :: byte) = 43 + i"
  using unat_of_nat [of "43 + i", where 'a = 8] by (simp add: ctypePosMedium_def)

lemma neg_head: "i < 8 \<Longrightarrow> unat (ctypeNegMedium - word_of_nat i :: byte) = 34 - i"
proof -
  assume i: "i < 8"
  then have "(34 - word_of_nat i :: byte) = word_of_nat (34 - i)" by (simp add: of_nat_diff)
  then show ?thesis using i unat_of_nat [of "34 - i", where 'a = 8] by (simp add: ctypeNegMedium_def)
qed

lemma minBytes_less8: "minBytesForUint n - 1 < 8"
  using minBytes_range [of n] by linarith

lemma pos_key_hd: "unat (ctypePosMedium + word_of_nat (minBytesForUint n - 1) :: byte) = 42 + minBytesForUint n"
  using pos_head [OF minBytes_less8, of n] minBytes_range [of n] by linarith

lemma neg_key_hd: "unat (ctypeNegMedium - word_of_nat (minBytesForUint n - 1) :: byte) = 35 - minBytesForUint n"
  using neg_head [OF minBytes_less8, of n] minBytes_range [of n] by linarith

lemma pos_key_less: "m < n \<Longrightarrow> n < 2 ^ 64 \<Longrightarrow> diverge (pos_key m) (pos_key n)"
proof (cases "minBytesForUint m = minBytesForUint n")
  case True
  assume "m < n" "n < 2 ^ 64"
  then show ?thesis using True be_bytes_less [of m n "minBytesForUint n"] minBytes_bound [of n]
    by (simp add: pos_key_def diverge_Cons)
next
  case False
  assume "m < n" "n < 2 ^ 64"
  then have "minBytesForUint m < minBytesForUint n" using False minBytes_mono [of m n] by simp
  then show ?thesis unfolding pos_key_def
    by (intro diverge_hd) (simp only: word_less_nat_alt pos_key_hd add_less_cancel_left)
qed

lemma neg_key_less: "m < n \<Longrightarrow> n < 2 ^ 64 \<Longrightarrow> diverge (neg_key n) (neg_key m)"
proof (cases "minBytesForUint m = minBytesForUint n")
  case True
  assume "m < n" "n < 2 ^ 64"
  then show ?thesis using True be_bytes_less [of m n "minBytesForUint n"] minBytes_bound [of n]
    by (simp add: neg_key_def diverge_Cons diverge_NOT)
next
  case False
  assume "m < n" "n < 2 ^ 64"
  then have "minBytesForUint m < minBytesForUint n" using False minBytes_mono [of m n] by simp
  then have "35 - minBytesForUint n < 35 - minBytesForUint m" using minBytes_range [of n] by linarith
  then show ?thesis unfolding neg_key_def
    by (intro diverge_hd) (simp only: word_less_nat_alt neg_key_hd)
qed

section \<open>Numbers\<close>

text \<open>
  The key of a number from its exact value \<open>S\<close> in units of \<open>2\<^sup>-\<^sup>1\<^sup>0\<^sup>7\<^sup>4\<close>: the
  integer part \<open>S div U\<close>, then the fraction \<open>S mod U\<close> rounded to a double.
\<close>

definition int_key :: "int \<Rightarrow> bytes" where
  "int_key q = (if q < 0 then neg_key (nat (- q)) else pos_key (nat q))"

definition frac_key :: "int \<Rightarrow> int \<Rightarrow> bytes" where
  "frac_key q g = (if g = 0 \<and> q < 2 ^ 63 then [] else be_bytes 8 (fmag_round (nat g)))"

definition num_key :: "int \<Rightarrow> bytes" where
  "num_key S = (if S = 0 then [ctypeZero] else
     int_key (S div int f64_unit) @ frac_key (S div int f64_unit) (S mod int f64_unit))"

lemma int_key_less:
  assumes "q < q'" "- (2 ^ 63) \<le> q" "q' < 2 ^ 64"
  shows "diverge (int_key q) (int_key q')"
proof -
  consider (neg) "q' < 0" | (pos) "0 \<le> q" | (mixed) "q < 0" "0 \<le> q'" by linarith
  then show ?thesis
  proof cases
    case neg
    have "nat (- q') < nat (- q)" "nat (- q) < 2 ^ 64" using assms neg by (simp_all add: nat_less_iff)
    then show ?thesis using neg assms(1) neg_key_less by (simp add: int_key_def)
  next
    case pos
    have "nat q < nat q'" "nat q' < 2 ^ 64" using assms pos by (simp_all add: nat_less_iff)
    then show ?thesis using pos assms(1) pos_key_less by (simp add: int_key_def)
  next
    case mixed
    have "35 - minBytesForUint m < 42 + minBytesForUint n" for m n by linarith
    then have "diverge (neg_key m) (pos_key n)" for m n unfolding neg_key_def pos_key_def
      by (intro diverge_hd) (simp only: word_less_nat_alt neg_key_hd pos_key_hd)
    with mixed show ?thesis by (simp add: int_key_def)
  qed
qed

text \<open>
  What is asked of a number's value: in range, and its fraction a double again, one that
  does not start with a discriminator where an integer could have the same integer part.
\<close>

definition key_number :: "int \<Rightarrow> bool" where
  "key_number S \<longleftrightarrow> - (2 ^ 63) \<le> S div int f64_unit \<and> S div int f64_unit < 2 ^ 64 \<and>
     (S mod int f64_unit \<noteq> 0 \<longrightarrow> S div int f64_unit < 2 ^ 63) \<and>
     fmag_val (fmag_round (nat (S mod int f64_unit))) = nat (S mod int f64_unit)"

definition coarse :: "int \<Rightarrow> bool" where
  "coarse S \<longleftrightarrow> S mod int f64_unit = 0 \<or> S div int f64_unit = 0 \<or> 2 ^ 1021 \<le> S mod int f64_unit"

lemma be8_hd:
  assumes "60 * 2 ^ 56 \<le> n" "n < 2 ^ 64"
  shows "\<exists>y s. be_bytes 8 n = y # s \<and> 5 < y"
proof -
  have "be_bytes (Suc k) n = word_of_nat (n div 256 ^ k) # be_bytes k n" for k n
  proof (induction k arbitrary: n)
    case (Suc k)
    then show ?case using Suc [of "n div 256"] by (simp add: div_mult2_eq)
  qed simp
  moreover have "Suc 7 = 8" by simp
  ultimately have be: "be_bytes 8 n = word_of_nat (n div 256 ^ 7) # be_bytes 7 n" by metis
  have "(256 :: nat) ^ 7 = 2 ^ 56" by simp
  moreover have "60 \<le> n div 2 ^ 56" using assms(1) by (simp add: less_eq_div_iff_mult_less_eq)
  moreover have "n div 2 ^ 56 < 256" using assms(2) by (simp add: div_less_iff_less_mult)
  ultimately have "60 \<le> n div 256 ^ 7" "n div 256 ^ 7 < 256" by (simp_all only:)
  then have "5 < (word_of_nat (n div 256 ^ 7) :: byte)"
    by (simp only: word_less_nat_alt unat_of_nat) simp
  then show ?thesis using be by blast
qed

lemma round_big:
  assumes "2 ^ 1021 \<le> n"
  shows "60 * 2 ^ 56 \<le> fmag_round n"
proof -
  have "fmag_val (970 * 2 ^ 52) = (2 :: nat) ^ 1021" by (simp add: fmag_val_def)
  then have "fmag_val (970 * 2 ^ 52) \<le> n" using assms by (simp only:)
  moreover have "970 * 2 ^ 52 \<le> f64_inf_mag" by simp
  ultimately have "970 * 2 ^ 52 \<le> fmag_round n" by (rule fmag_round_ge)
  moreover have "60 * 2 ^ 56 \<le> (970 * 2 ^ 52 :: nat)" by simp
  ultimately show ?thesis by (rule order_trans [rotated])
qed

lemma fmag_round_64: "fmag_round n < 2 ^ 64"
  by (rule less_trans [OF fmag_round_less]) simp

lemma zero_diverges:
  "q < 0 \<Longrightarrow> diverge (int_key q @ t) [ctypeZero]"
  "0 \<le> q \<Longrightarrow> diverge [ctypeZero] (int_key q @ t)"
proof -
  have z: "unat ctypeZero = 41" by (simp add: ctypeZero_def)
  have *: "35 - minBytesForUint n < 41" "41 < 42 + minBytesForUint n" for n
    using minBytes_range [of n] by linarith+
  show "q < 0 \<Longrightarrow> diverge (int_key q @ t) [ctypeZero]"
    using * by (simp add: int_key_def neg_key_def) (intro diverge_hd, simp only: word_less_nat_alt neg_key_hd [simplified] z)
  show "0 \<le> q \<Longrightarrow> diverge [ctypeZero] (int_key q @ t)"
    using * by (simp add: int_key_def pos_key_def) (intro diverge_hd, simp only: word_less_nat_alt pos_key_hd [simplified] z)
qed

lemma frac_key_less:
  assumes "0 \<le> g" "g < g'" "q < 2 ^ 63" "g = 0 \<Longrightarrow> 2 ^ 1021 \<le> g'"
    and "fmag_val (fmag_round (nat g)) = nat g" "fmag_val (fmag_round (nat g')) = nat g'"
  shows "sep (int_key q @ frac_key q g) (int_key q @ frac_key q g')"
proof (cases "g = 0")
  case True
  then have "2 ^ 1021 \<le> nat g'" using assms(4) by (simp add: nat_le_iff le_nat_iff)
  then obtain y s where "be_bytes 8 (fmag_round (nat g')) = y # s" "5 < y"
    using be8_hd [OF round_big fmag_round_64] by blast
  then show ?thesis using True assms(2,3) by (auto simp: frac_key_def sep_def)
next
  case False
  have "fmag_val (fmag_round (nat g)) < fmag_val (fmag_round (nat g'))"
    using assms by simp
  then have "fmag_round (nat g) < fmag_round (nat g')" by simp
  moreover have "fmag_round (nat g') < 256 ^ 8" using fmag_round_64 [of "nat g'"] by simp
  ultimately have "diverge (be_bytes 8 (fmag_round (nat g))) (be_bytes 8 (fmag_round (nat g')))"
    by (rule be_bytes_less)
  then show ?thesis using False assms(1,2) by (simp add: frac_key_def sep_def diverge_prefix)
qed

lemma num_key_less:
  assumes "S < S'" "key_number S" "key_number S'" "coarse S'"
  shows "sep (num_key S) (num_key S')"
proof -
  define U q g q' g' where "U = int f64_unit" and "q = S div U" and "g = S mod U"
    and "q' = S' div U" and "g' = S' mod U"
  have U: "0 < U" unfolding U_def by simp
  have S: "S = q * U + g" "0 \<le> g" "g < U" and S': "S' = q' * U + g'" "0 \<le> g'" "g' < U"
    using U by (simp_all add: q_def g_def q'_def g'_def)
  note num = num_key_def [of S, folded U_def, folded q_def g_def] num_key_def [of S', folded U_def, folded q'_def g'_def]
  note k = assms(2) [unfolded key_number_def, folded U_def, folded q_def g_def]
  note k' = assms(3) [unfolded key_number_def, folded U_def, folded q'_def g'_def]
  note co = assms(4) [unfolded coarse_def, folded U_def, folded q'_def g'_def]
  have "q \<le> q'" unfolding q_def q'_def using assms(1) U by (intro zdiv_mono1) auto
  then consider (zero) "S = 0" | (zero') "S' = 0" | (int) "S \<noteq> 0" "S' \<noteq> 0" "q < q'"
    | (frac) "S \<noteq> 0" "S' \<noteq> 0" "q = q'" by linarith
  then show ?thesis
  proof cases
    case zero
    then have "0 \<le> q'" using assms(1) U by (simp add: q'_def pos_imp_zdiv_nonneg_iff)
    then show ?thesis using zero assms(1) zero_diverges(2) [of q'] unfolding num by (simp add: sep_def)
  next
    case zero'
    then have "q < 0" using assms(1) U by (simp add: q_def pos_imp_zdiv_neg_iff)
    then show ?thesis using zero' assms(1) zero_diverges(1) [of q] unfolding num by (simp add: sep_def)
  next
    case int
    then have "diverge (int_key q) (int_key q')" using k k' by (intro int_key_less) auto
    then show ?thesis using int unfolding num by (simp add: sep_def diverge_append)
  next
    case frac
    then have "g < g'" using assms(1) S(1) S'(1) by simp
    moreover from this have "q' < 2 ^ 63" using k' S(2) by auto
    moreover have "2 ^ 1021 \<le> g'" if "g = 0"
      using co that \<open>g < g'\<close> frac S(1) by auto
    ultimately show ?thesis
      using frac_key_less [of g g' q'] frac S(2) k k' unfolding num by (simp only: if_False)
  qed
qed

section \<open>The values of doubles\<close>

lemma fmag_val_form: "\<exists>c k. fmag_val b = c * 2 ^ k \<and> c < 2 ^ 53"
proof (cases "b div 2 ^ 52 = 0")
  case True
  then have "b < 2 ^ 52" by (simp add: div_eq_0_iff)
  then have "fmag_val b = b * 2 ^ 0 \<and> b < 2 ^ 53" by (simp add: fmag_val_small)
  then show ?thesis by blast
next
  case False
  have "2 ^ 52 + b mod 2 ^ 52 < (2 :: nat) ^ 53" by simp
  then show ?thesis using False by (auto simp: fmag_val_def)
qed

lemma fmag_exact:
  assumes "n = c * 2 ^ k" "c < 2 ^ 53" "n \<le> 2 ^ 1074"
  shows "fmag_val (fmag_round n) = n"
proof -
  obtain b where b: "n = fmag_val b" using fmag_val_surj [OF assms(2), of k] assms(1) by auto
  have "(2 :: nat) ^ 1074 \<le> 2 ^ (52 + 2046)" by (rule power_increasing) simp_all
  also have "(2 :: nat) ^ (52 + 2046) = fmag_val f64_inf_mag" by (simp only: power_add) (simp add: fmag_val_def)
  finally have "n \<le> fmag_val f64_inf_mag" using assms(3) by (rule order_trans [rotated])
  then have "fmag_val b \<le> fmag_val f64_inf_mag" unfolding b .
  then have "b \<le> f64_inf_mag" by (simp only: fmag_val_le_iff)
  then show ?thesis unfolding b by (simp only: fmag_round_val)
qed

lemma not_multiple_exponent:
  assumes "s = c * 2 ^ k" "s mod 2 ^ 1074 \<noteq> (0 :: nat)"
  shows "k < 1074"
proof (rule ccontr)
  assume "\<not> k < 1074"
  then have "(2 :: nat) ^ 1074 dvd s" unfolding assms(1) by (intro dvd_mult le_imp_power_dvd) simp
  then show False using assms(2) by (simp only: dvd_eq_mod_eq_0)
qed

lemma fraction_small:
  assumes "fmag_val b mod 2 ^ 1074 \<noteq> 0"
  shows "fmag_val b < 2 ^ 52 * 2 ^ 1074"
proof -
  obtain c k where ck: "fmag_val b = c * 2 ^ k" "c < 2 ^ 53" using fmag_val_form by blast
  have "k < 1074" using not_multiple_exponent [OF ck(1) assms] .
  then have "(2 :: nat) ^ k \<le> 2 ^ 1073" by (intro power_increasing) simp_all
  then have "c * 2 ^ k \<le> c * 2 ^ 1073" by (rule mult_left_mono) simp
  also have "c * 2 ^ 1073 < 2 ^ 53 * (2 :: nat) ^ 1073" using ck(2) by (simp only: mult_less_cancel2) simp
  also have "(2 :: nat) ^ 53 * 2 ^ 1073 = 2 ^ 52 * 2 ^ 1074" by (simp only: power_add [symmetric]) simp
  finally show ?thesis unfolding ck(1) .
qed

lemma fraction_exact: "fmag_val (fmag_round (fmag_val b mod 2 ^ 1074)) = fmag_val b mod 2 ^ 1074"
proof (cases "fmag_val b mod 2 ^ 1074 = 0")
  case True
  then show ?thesis using fmag_round_val [of 0] by simp
next
  case False
  obtain c k where ck: "fmag_val b = c * 2 ^ k" "c < 2 ^ 53" using fmag_val_form by blast
  have "k < 1074" using not_multiple_exponent [OF ck(1) False] .
  then have "(2 :: nat) ^ 1074 = 2 ^ (1074 - k) * 2 ^ k" by (simp only: power_add [symmetric]) simp
  then have "fmag_val b mod 2 ^ 1074 = (c mod 2 ^ (1074 - k)) * 2 ^ k"
    unfolding ck(1) mult_mod_left by (rule arg_cong)
  moreover have "c mod 2 ^ (1074 - k) < 2 ^ 53" using ck(2) by (rule le_less_trans [OF mod_less_eq_dividend])
  moreover have "fmag_val b mod 2 ^ 1074 \<le> (2 :: nat) ^ 1074" by (rule less_imp_le, rule mod_less_divisor) simp
  ultimately show ?thesis by (rule fmag_exact)
qed

lemma big_exponent:
  assumes "s = c * 2 ^ k" "c < 2 ^ 53" "(2 :: nat) ^ (53 + j) \<le> s"
  shows "j < k"
proof (rule ccontr)
  assume "\<not> j < k"
  then have "(2 :: nat) ^ k \<le> 2 ^ j" by (intro power_increasing) simp_all
  then have "c * 2 ^ k \<le> c * 2 ^ j" by (rule mult_left_mono) simp
  also have "c * 2 ^ j < 2 ^ 53 * (2 :: nat) ^ j" using assms(2) by (simp only: mult_less_cancel2) simp
  finally show False using assms(1,3) by (simp add: power_add)
qed

lemma fraction_multiple:
  assumes "2 ^ 1074 \<le> fmag_val b"
  shows "\<exists>c. fmag_val b mod 2 ^ 1074 = c * 2 ^ 1022"
proof -
  obtain c k where ck: "fmag_val b = c * 2 ^ k" "c < 2 ^ 53" using fmag_val_form by blast
  have "1021 < k" by (rule big_exponent [OF ck]) (use assms in \<open>simp only: numeral_plus_numeral add_num_simps\<close>)
  then have "(2 :: nat) ^ 1022 dvd fmag_val b" unfolding ck(1) by (intro dvd_mult le_imp_power_dvd) simp
  moreover have "(2 :: nat) ^ 1022 dvd 2 ^ 1074" by (rule le_imp_power_dvd) simp
  ultimately have "(2 :: nat) ^ 1022 dvd fmag_val b mod 2 ^ 1074" by (simp only: dvd_mod_iff)
  then show ?thesis by (auto simp only: dvd_def mult.commute)
qed

text \<open>The fraction of \<open>-s\<close> is \<open>U - s mod U\<close>; it is exact unless \<open>s < U\<close>.\<close>

lemma negative_fraction:
  assumes "fmag_val b mod 2 ^ 1074 \<noteq> 0"
  shows "2 ^ 1021 \<le> 2 ^ 1074 - fmag_val b mod (2 :: nat) ^ 1074"
    and "2 ^ 1074 \<le> fmag_val b \<Longrightarrow>
      fmag_val (fmag_round (2 ^ 1074 - fmag_val b mod 2 ^ 1074)) = 2 ^ 1074 - fmag_val b mod 2 ^ 1074"
proof -
  define s U where "s = fmag_val b" and "U = (2 :: nat) ^ 1074"
  have U: "0 < U" "s mod U < U" by (simp_all add: U_def)
  have split: "U = 2 ^ 52 * 2 ^ 1022" "U = 2 ^ 53 * 2 ^ 1021" unfolding U_def by (simp_all only: power_add [symmetric]) simp_all
  have big: "\<exists>c. U - s mod U = c * 2 ^ 1022 \<and> 0 < c \<and> c \<le> 2 ^ 52" if le: "U \<le> s"
  proof -
    obtain c where c: "s mod U = c * 2 ^ 1022" using fraction_multiple [of b] le unfolding s_def U_def by blast
    then have "c < 2 ^ 52" using U(2) split(1) by (metis mult_less_cancel2)
    moreover have "U - s mod U = (2 ^ 52 - c) * 2 ^ 1022"
      by (simp only: c diff_mult_distrib split(1) [symmetric])
    ultimately show ?thesis by (metis diff_le_self zero_less_diff)
  qed
  show "2 ^ 1021 \<le> 2 ^ 1074 - fmag_val b mod (2 :: nat) ^ 1074"
    unfolding s_def [symmetric] U_def [symmetric]
  proof (cases "U \<le> s")
    case True
    then obtain c where "U - s mod U = c * 2 ^ 1022" "0 < c" using big by blast
    moreover have "(2 :: nat) ^ 1021 \<le> 1 * 2 ^ 1022" by (simp only: mult_1) (rule power_increasing, simp_all)
    ultimately show "2 ^ 1021 \<le> U - s mod U" by (metis Suc_leI One_nat_def mult_le_mono1 order_trans)
  next
    case False
    obtain c k where ck: "s = c * 2 ^ k" "c < 2 ^ 53" using fmag_val_form unfolding s_def by blast
    have mod: "s mod U = s" using False by simp
    show "2 ^ 1021 \<le> U - s mod U"
    proof (cases "2 ^ 1073 \<le> s")
      case True
      then have "1020 < k" by (intro big_exponent [OF ck]) (simp only: numeral_plus_numeral add_num_simps)
      then have "(2 :: nat) ^ 1021 dvd s" unfolding ck(1) by (intro dvd_mult le_imp_power_dvd) simp
      then have "(2 :: nat) ^ 1021 dvd U - s" unfolding split(2) by (intro dvd_diff_nat) simp_all
      then show ?thesis unfolding mod using False by (intro dvd_imp_le) simp_all
    next
      case small: False
      have "U = 2 ^ 1073 + 2 ^ 1073" unfolding U_def by (simp only: mult_2 [symmetric] power_Suc [symmetric]) simp
      then have "2 ^ 1073 \<le> U - s" using small by linarith
      moreover have "(2 :: nat) ^ 1021 \<le> 2 ^ 1073" by (rule power_increasing) simp_all
      ultimately show ?thesis unfolding mod by (rule order_trans [rotated])
    qed
  qed
  show "fmag_val (fmag_round (2 ^ 1074 - fmag_val b mod 2 ^ 1074)) = 2 ^ 1074 - fmag_val b mod 2 ^ 1074"
    if le: "2 ^ 1074 \<le> fmag_val b"
  proof -
    obtain c where c: "U - s mod U = c * 2 ^ 1022" "c \<le> 2 ^ 52" using big le unfolding s_def U_def by blast
    have "c < 2 ^ 53" using c(2) by simp
    then show ?thesis using fmag_exact [OF c(1)] unfolding s_def U_def by simp
  qed
qed

abbreviation (input) U :: int where "U \<equiv> int f64_unit"

lemma U_pos: "0 < U" by simp

lemma val_mod_pos: "int s mod U = int (s mod f64_unit)" "int s div U = int (s div f64_unit)"
  by (simp_all only: zmod_int zdiv_int)

lemma val_mod_neg:
  "(- int s) mod U = (if s mod f64_unit = 0 then 0 else int (f64_unit - s mod f64_unit))"
proof -
  have "s mod f64_unit < f64_unit" by (rule mod_less_divisor) simp
  moreover have "int s mod U = 0 \<longleftrightarrow> s mod f64_unit = 0" by (simp only: val_mod_pos of_nat_eq_0_iff)
  ultimately show ?thesis
    unfolding zmod_zminus1_eq_if by (simp only: val_mod_pos of_nat_diff less_imp_le split: if_split)
qed

lemma int_power_le: "(2 :: nat) ^ k \<le> n \<Longrightarrow> (2 :: int) ^ k \<le> int n"
  using of_nat_le_iff [of "2 ^ k" n, where 'a = int] by simp

lemma coarse_double: "coarse (f64_val f)"
proof -
  define s where "s = fmag_val (f64_mag f)"
  have le: "(2 :: nat) ^ 1021 \<le> 2 ^ 1022" by (rule power_increasing) simp_all
  have "coarse (int s)"
  proof (cases "f64_unit \<le> s")
    case True
    then obtain c where "s mod f64_unit = c * 2 ^ 1022" using fraction_multiple unfolding s_def by blast
    then have "s mod f64_unit = 0 \<or> 2 ^ 1021 \<le> s mod f64_unit"
      using le by (cases c) (simp_all only: mult_Suc mult_zero_left simp_thms trans_le_add1)
    then have "int (s mod f64_unit) = 0 \<or> 2 ^ 1021 \<le> int (s mod f64_unit)"
      using int_power_le [of 1021 "s mod f64_unit"] by (simp only: of_nat_eq_0_iff) blast
    then show ?thesis unfolding coarse_def val_mod_pos by blast
  next
    case False
    then show ?thesis unfolding coarse_def val_mod_pos by simp
  qed
  moreover have "coarse (- int s)"
  proof (cases "s mod f64_unit = 0")
    case True
    then show ?thesis unfolding coarse_def val_mod_neg by simp
  next
    case False
    then have "2 ^ 1021 \<le> f64_unit - s mod f64_unit" unfolding s_def by (rule negative_fraction(1))
    then have "2 ^ 1021 \<le> int (f64_unit - s mod f64_unit)" by (rule int_power_le)
    then show ?thesis unfolding coarse_def val_mod_neg using False by (simp only: if_False simp_thms)
  qed
  ultimately show ?thesis unfolding f64_val_def s_def by (simp only: simp_thms split: if_split)
qed

text \<open>
  The doubles whose key is exact: in range, not \<open>2\<^sup>6\<^sup>3\<close>, and between \<open>-1\<close> and \<open>0\<close>
  only those for which \<open>1 + f\<close> is a double.
\<close>

definition in_key_range :: "float64 \<Rightarrow> bool" where
  "in_key_range f \<longleftrightarrow> f64_finite f \<and> - (2 ^ 63) * U \<le> f64_val f \<and> f64_val f < 2 ^ 64 * U \<and>
     f64_val f \<noteq> 2 ^ 63 * U"

definition exact_fraction :: "float64 \<Rightarrow> bool" where
  "exact_fraction f \<longleftrightarrow> (- U < f64_val f \<and> f64_val f < 0 \<longrightarrow>
     fmag_val (fmag_round (nat (U + f64_val f))) = nat (U + f64_val f))"

lemma div_less_bound: "0 < (u :: int) \<Longrightarrow> S < c * u \<Longrightarrow> S div u < c"
proof -
  assume u: "0 < u" and S: "S < c * u"
  have "S div u * u + S mod u = S" "0 \<le> S mod u" using u by simp_all
  then have "S div u * u < c * u" using S by linarith
  then show ?thesis using u by (simp only: mult_less_cancel_right_pos)
qed

lemma le_div_bound: "0 < (u :: int) \<Longrightarrow> c * u \<le> S \<Longrightarrow> c \<le> S div u"
  using zdiv_mono1 [of "c * u" S u] by simp

lemma double_integral_or_small:
  assumes "f64_val f mod U \<noteq> 0"
  shows "\<bar>f64_val f\<bar> < 2 ^ 52 * U"
proof -
  define s where "s = fmag_val (f64_mag f)"
  have abs: "\<bar>f64_val f\<bar> = int s" unfolding f64_val_def s_def by simp
  have "s mod f64_unit \<noteq> 0"
  proof
    assume "s mod f64_unit = 0"
    then have "int s mod U = 0" "(- int s) mod U = 0" unfolding val_mod_pos val_mod_neg by simp_all
    then show False using assms unfolding f64_val_def s_def [symmetric] by (simp only: split: if_splits)
  qed
  then have "s < 2 ^ 52 * f64_unit" unfolding s_def by (rule fraction_small)
  then have "int s < int (2 ^ 52 * f64_unit)" by (simp only: of_nat_less_iff)
  then show ?thesis unfolding abs by (simp only: of_nat_mult of_nat_power of_nat_numeral)
qed

lemma key_number_double:
  assumes "in_key_range f" "exact_fraction f"
  shows "key_number (f64_val f)"
proof -
  define s where "s = fmag_val (f64_mag f)"
  have range: "- (2 ^ 63) \<le> f64_val f div U" "f64_val f div U < 2 ^ 64"
    using assms(1) le_div_bound [OF U_pos] div_less_bound [OF U_pos] unfolding in_key_range_def by blast+
  have small: "f64_val f div U < 2 ^ 63" if "f64_val f mod U \<noteq> 0"
  proof -
    have "f64_val f < 2 ^ 52 * U" using double_integral_or_small [OF that] by linarith
    then have "f64_val f div U < 2 ^ 52" by (rule div_less_bound [OF U_pos])
    then show ?thesis by simp
  qed
  have "fmag_val (fmag_round (nat (f64_val f mod U))) = nat (f64_val f mod U)"
  proof (cases "f64_neg f")
    case False
    then have "f64_val f = int s" by (simp add: f64_val_def s_def)
    then show ?thesis using fraction_exact [of "f64_mag f"]
      by (simp only: val_mod_pos nat_int s_def)
  next
    case True
    then have S: "f64_val f = - int s" by (simp add: f64_val_def s_def)
    show ?thesis
    proof (cases "s mod f64_unit = 0")
      case True
      then have "f64_val f mod U = 0" unfolding S val_mod_neg by simp
      then show ?thesis using fmag_round_val [of 0] by simp
    next
      case False
      then have g: "nat (f64_val f mod U) = f64_unit - s mod f64_unit"
        unfolding S val_mod_neg by (simp only: if_False nat_int)
      show ?thesis
      proof (cases "f64_unit \<le> s")
        case True
        show ?thesis unfolding g unfolding s_def
          by (rule negative_fraction(2)) (use False True in \<open>simp_all only: s_def simp_thms\<close>)
      next
        case small: False
        then have m: "s mod f64_unit = s" by simp
        have "0 < s" using False by (cases s) simp_all
        then have "- U < f64_val f" "f64_val f < 0" unfolding S using small by linarith+
        moreover have "nat (U + f64_val f) = f64_unit - s" unfolding S by (simp only: add_uminus_conv_diff)
        ultimately show ?thesis using assms(2) unfolding g m exact_fraction_def by (simp only:)
      qed
    qed
  qed
  then show ?thesis using range small unfolding key_number_def by blast
qed

section \<open>Conversions and bounds\<close>

lemma round_2_63: "fmag_round ((2 ^ 63 - 1) * 2 ^ 1074) = 1086 * 2 ^ 52"
proof -
  have "nbits ((2 ^ 63 - 1) * 2 ^ 1074) = Suc 1136" by (rule nbits_eq) simp_all
  then show ?thesis by (simp add: fmag_round_def rne_def)
qed

lemma val_2_63: "fmag_val (1086 * 2 ^ 52) = 2 ^ 63 * 2 ^ 1074"
  by (simp add: fmag_val_def)

lemma f64_of_val_make: "f64_of_val n = f64_make (n < 0) (fmag_round (nat \<bar>n\<bar>))"
  by (simp add: f64_of_val_def)

lemma f64_val_of_val_round: "f64_val (f64_of_val n) = (if n < 0 then - 1 else 1) * int (fmag_val (fmag_round (nat \<bar>n\<bar>)))"
  by (simp add: f64_of_val_def f64_val_def)

lemma bound_max: "f64_val (f64_of_int (2 ^ 63 - 1)) = 2 ^ 63 * U \<and> \<not> IsNaN (f64_of_int (2 ^ 63 - 1))"
proof -
  have pos: "\<not> (2 ^ 63 - 1) * U < 0" by simp
  have n: "nat \<bar>(2 ^ 63 - 1) * U\<bar> = (2 ^ 63 - 1) * 2 ^ 1074" by simp
  have "f64_val (f64_of_int (2 ^ 63 - 1)) = int (2 ^ 63 * 2 ^ 1074)"
    unfolding f64_of_int_def f64_val_of_val_round n round_2_63 val_2_63 using pos by (simp only: if_False mult_1)
  moreover have "f64_mag (f64_of_int (2 ^ 63 - 1)) = 1086 * 2 ^ 52"
    unfolding f64_of_int_def f64_mag_of_val n round_2_63 ..
  ultimately show ?thesis by (simp add: IsNaN_def)
qed

lemma bound_min: "f64_val (f64_of_int (- (2 ^ 63))) = - (2 ^ 63) * U \<and> \<not> IsNaN (f64_of_int (- (2 ^ 63)))"
proof -
  have neg: "- (2 ^ 63) * U < 0" by simp
  have n: "nat \<bar>- (2 ^ 63) * U\<bar> = fmag_val (1086 * 2 ^ 52)" unfolding val_2_63 by simp
  have r: "fmag_round (fmag_val (1086 * 2 ^ 52)) = 1086 * 2 ^ 52" by (rule fmag_round_val) simp
  have "f64_val (f64_of_int (- (2 ^ 63))) = - 1 * int (fmag_val (1086 * 2 ^ 52))"
    unfolding f64_of_int_def f64_val_of_val_round n r using neg by (simp only: if_True)
  moreover have "f64_mag (f64_of_int (- (2 ^ 63))) = 1086 * 2 ^ 52"
    unfolding f64_of_int_def f64_mag_of_val n r ..
  ultimately show ?thesis unfolding val_2_63 by (simp add: IsNaN_def)
qed

end
