(* ===== verification/KeyValues.thy ===== *)
theory KeyValues
  imports KeyOrder
begin

text \<open>
  The encoders of \<open>internal/index/keystring.go\<close> against the value order of
  \<open>internal/types/compare_order.go\<close>: an index key is the key of the exact value of a number
  (\<open>num_key\<close>), and the bytes of two values compare the way the values do.
\<close>

section \<open>The encoders produce the key of the value\<close>

lemma encodePosInt_key: "encodePosInt n = pos_key (unat n)"
  by (simp add: encodePosInt_def pos_key_def Let_def)

lemma sint_word_of_int64: "- (2 ^ 63) \<le> q \<Longrightarrow> q < 2 ^ 63 \<Longrightarrow> sint (word_of_int q :: int64) = q"
  by (simp add: signed_of_int signed_take_bit_int_eq_self)

lemma unat_word_of_int64: "0 \<le> q \<Longrightarrow> q < 2 ^ 64 \<Longrightarrow> unat (word_of_int q :: uint64) = nat q"
  by (simp add: unsigned_of_int take_bit_int_eq_self)

lemma encodeNegInt_key:
  assumes "- (2 ^ 63) \<le> q" "q < 0"
  shows "encodeNegInt (word_of_int q) = neg_key (nat (- q))"
proof -
  have "sint (word_of_int q :: int64) = q" using assms by (intro sint_word_of_int64) simp_all
  moreover have "unat (- word_of_int q :: uint64) = nat (- q)"
    using unat_word_of_int64 [of "- q"] assms by simp
  ultimately have "(if sint (word_of_int q :: int64) = - (2 ^ 63) then 2 ^ 63 else unat (- word_of_int q :: uint64)) = nat (- q)"
    by simp
  then show ?thesis unfolding encodeNegInt_def neg_key_def Let_def by (simp only:)
qed

lemma encodeInt64_key:
  assumes "- (2 ^ 63) \<le> q" "q < 2 ^ 63"
  shows "encodeInt64 (word_of_int q) = (if q = 0 then [ctypeZero] else int_key q)"
proof -
  have s: "sint (word_of_int q :: int64) = q" using assms by (rule sint_word_of_int64)
  then have "word_of_int q = (0 :: int64) \<longleftrightarrow> q = 0" by (metis signed_0 of_int_0)
  moreover have "0 < q \<Longrightarrow> unat (word_of_int q :: uint64) = nat q" using assms by (intro unat_word_of_int64) simp_all
  ultimately show ?thesis using s encodeNegInt_key [OF assms(1)]
    by (simp add: encodeInt64_def int_key_def encodePosInt_key)
qed

lemma sgn_div: "0 < (u :: int) \<Longrightarrow> sgn (q * u) * (\<bar>q * u\<bar> div u) = q"
  by (cases q "0 :: int" rule: linorder_cases) (simp_all add: sgn_mult abs_mult flip: mult_minus_left)

lemma num_key_int: "q < 2 ^ 63 \<Longrightarrow> num_key (q * U) = (if q = 0 then [ctypeZero] else int_key q)"
proof -
  have gen: "q * u = 0 \<longleftrightarrow> q = 0" "q * u div u = q" "q * u mod u = 0" if "0 < u" for u :: int
    using that by simp_all
  note [simp] = gen [OF U_pos]
  assume "q < 2 ^ 63"
  then show ?thesis unfolding num_key_def frac_key_def gen [OF U_pos] by simp
qed

lemma f64_finite_kinds: "f64_finite f \<Longrightarrow> \<not> IsNaN f \<and> \<not> IsInf_neg f \<and> \<not> IsInf_pos f"
  by (simp add: f64_finite_def IsNaN_def IsInf_neg_def IsInf_pos_def)

lemma f64_val_of_val_same: "f64_finite f \<Longrightarrow> f64_val (f64_of_val (f64_val f)) = f64_val f \<and> f64_finite (f64_of_val (f64_val f))"
proof -
  assume fin: "f64_finite f"
  then have le: "f64_mag f \<le> f64_inf_mag" by (simp add: f64_finite_def)
  have n: "nat \<bar>f64_val f\<bar> = fmag_val (f64_mag f)" by (simp add: f64_val_def)
  show ?thesis using f64_val_of_val [OF n le] fin unfolding f64_finite_def f64_mag_of_val n fmag_round_val [OF le] by simp
qed

lemma f64_val_uminus: "f64_val (f64_uminus f) = - f64_val f"
  using f64_mag_less [of f] by (simp add: f64_val_def f64_uminus_def)

lemma f64_of_int_val: "f64_val f = q * U \<Longrightarrow> f64_of_int q = f64_of_val (f64_val f)"
  by (simp only: f64_of_int_def)

lemma f64_to_int_val: "f64_val f = q * U \<Longrightarrow> f64_to_int f = q"
  unfolding f64_to_int_def by (simp only: sgn_div [OF U_pos])

lemma integral_val: "f64_val f mod U = 0 \<Longrightarrow> f64_val f = f64_val f div U * U"
  using div_mult_mod_eq [of "f64_val f" U] by (simp only: add_0_right)

lemma Trunc_integral:
  assumes "f64_finite f" "f64_val f = q * U"
  shows "f64_eq f (Trunc f)"
proof -
  have "Trunc f = f64_of_val (f64_val f)"
    unfolding Trunc_def assms(2) sgn_div [OF U_pos] by (simp only: f64_of_int_def)
  then show ?thesis using f64_val_of_val_same [OF assms(1)] f64_finite_kinds assms(1) by (simp add: f64_eq_def)
qed

lemma div_small: "0 < (u :: int) \<Longrightarrow> \<bar>S\<bar> < c * u \<Longrightarrow> \<bar>S\<bar> div u < c \<and> \<bar>S div u\<bar> \<le> c"
proof -
  assume u: "0 < u" and S: "\<bar>S\<bar> < c * u"
  have 1: "\<bar>S\<bar> div u < c" using div_less_bound [OF u S] .
  have 2: "S div u < c" using S by (intro div_less_bound [OF u]) simp
  have "- c * u \<le> S" using S by simp
  then have "- c \<le> S div u" by (rule le_div_bound [OF u])
  with 1 2 show ?thesis by simp
qed

lemma fraction_parts:
  assumes "f64_val f mod U \<noteq> 0"
  shows "\<bar>f64_val f\<bar> div U < 2 ^ 52" "\<bar>f64_val f div U\<bar> \<le> 2 ^ 52"
  using div_small [OF U_pos double_integral_or_small [OF assms]] by blast+

lemma Trunc_fraction:
  assumes "f64_val f mod U \<noteq> 0"
  shows "\<not> f64_eq f (Trunc f)"
proof -
  define t where "t = sgn (f64_val f) * (\<bar>f64_val f\<bar> div U)"
  have "0 \<le> \<bar>f64_val f\<bar> div U" by (rule pos_imp_zdiv_nonneg_iff [OF U_pos, THEN iffD2]) simp
  then have "\<bar>t\<bar> < 2 ^ 53" using fraction_parts(1) [OF assms] unfolding t_def abs_mult by (simp add: abs_sgn_eq)
  then have "f64_val (Trunc f) = t * U" unfolding Trunc_def t_def [symmetric] using f64_of_int_exact by blast
  moreover have "t * U mod U = 0" by (rule mod_mult_self2_is_0)
  ultimately show ?thesis using assms unfolding f64_eq_def by metis
qed

lemma unat_f64_of_val: "0 \<le> g \<Longrightarrow> unat (f64_of_val g) = fmag_round (nat g)"
  using fmag_round_less [of "nat g"] by (simp add: f64_of_val_def)

lemma f64_bounds:
  assumes "f64_finite f"
  shows "f64_lt f (f64_of_int (- (2 ^ 63))) \<longleftrightarrow> f64_val f < - (2 ^ 63) * U"
    and "f64_lt (f64_of_int (2 ^ 63 - 1)) f \<longleftrightarrow> 2 ^ 63 * U < f64_val f"
    and "f64_lt 0 f \<longleftrightarrow> 0 < f64_val f"
    and "f64_eq f 0 \<longleftrightarrow> f64_val f = 0"
proof -
  have zero: "f64_val 0 = 0" "\<not> IsNaN 0" by (simp_all add: f64_mag_def IsNaN_def)
  have fin: "\<not> IsNaN f" using f64_finite_kinds [OF assms] by blast
  show "f64_lt f (f64_of_int (- (2 ^ 63))) \<longleftrightarrow> f64_val f < - (2 ^ 63) * U"
    unfolding f64_lt_def using bound_min fin by (simp only: simp_thms)
  show "f64_lt (f64_of_int (2 ^ 63 - 1)) f \<longleftrightarrow> 2 ^ 63 * U < f64_val f"
    unfolding f64_lt_def using bound_max fin by (simp only: simp_thms)
  show "f64_lt 0 f \<longleftrightarrow> 0 < f64_val f" unfolding f64_lt_def using zero fin by (simp only: simp_thms)
  show "f64_eq f 0 \<longleftrightarrow> f64_val f = 0" unfolding f64_eq_def using zero fin by (simp only: simp_thms)
qed

lemma encodeFloat64_finite:
  assumes "f64_finite f"
  shows "encodeFloat64 C f =
    (if f64_val f = 0 then [ctypeZero]
     else if f64_eq f (Trunc f) \<and> - (2 ^ 63) * U \<le> f64_val f \<and> f64_val f \<le> 2 ^ 63 * U
       then encodeInt64 (go_int64 C f)
     else if 0 < f64_val f then appendFraction (encodePosInt (go_uint64 C (Floor f))) (f64_sub f (Floor f))
     else appendFraction (encodeNegInt (go_int64 C (f64_uminus (Ceil (f64_uminus f)))))
       (f64_add (Ceil (f64_uminus f)) f))"
  unfolding encodeFloat64_def Let_def f64_bounds [OF assms] not_less
  using f64_finite_kinds [OF assms] by (simp only: simp_thms if_False)

lemma encodeFloat64_pos:
  assumes "0 < f64_val f" "f64_val (Floor f) = f64_val f div U * U" "f64_val f div U < 2 ^ 64"
  shows "appendFraction (encodePosInt (go_uint64 C (Floor f))) (f64_sub f (Floor f)) =
    int_key (f64_val f div U) @ be_bytes 8 (fmag_round (nat (f64_val f mod U)))"
proof -
  define q where "q = f64_val f div U"
  have q0: "0 \<le> q" unfolding q_def by (rule pos_imp_zdiv_nonneg_iff [OF U_pos, THEN iffD2]) (use assms(1) in simp)
  have "go_uint64 C (Floor f) = word_of_int q"
    using q0 assms(3) f64_to_int_val [OF assms(2)] unfolding go_uint64_def q_def [symmetric] by simp
  moreover have "unat (word_of_int q :: uint64) = nat q" using q0 assms(3) unfolding q_def by (intro unat_word_of_int64)
  moreover have "f64_val f - f64_val (Floor f) = f64_val f mod U"
    unfolding assms(2) by (rule minus_div_mult_eq_mod)
  moreover have "unat (f64_of_val (f64_val f mod U)) = fmag_round (nat (f64_val f mod U))"
    by (rule unat_f64_of_val) (rule pos_mod_sign [OF U_pos])
  moreover have "\<not> q < 0" using q0 by simp
  ultimately show ?thesis unfolding appendFraction_def f64_sub_def encodePosInt_key q_def [symmetric] int_key_def
    by (simp only: if_False)
qed

lemma encodeFloat64_neg:
  assumes "f64_val f < 0" "f64_val f mod U \<noteq> 0" "- (2 ^ 63) \<le> f64_val f div U"
  shows "appendFraction (encodeNegInt (go_int64 C (f64_uminus (Ceil (f64_uminus f))))) (f64_add (Ceil (f64_uminus f)) f) =
    int_key (f64_val f div U) @ be_bytes 8 (fmag_round (nat (f64_val f mod U)))"
proof -
  define q where "q = f64_val f div U"
  have q0: "q < 0" unfolding q_def by (rule pos_imp_zdiv_neg_iff [OF U_pos, THEN iffD2]) (rule assms(1))
  have small: "\<bar>q\<bar> \<le> 2 ^ 52" unfolding q_def by (rule fraction_parts(2) [OF assms(2)])
  have ceil: "Ceil (f64_uminus f) = f64_of_int (- q)"
    unfolding Ceil_def f64_val_uminus q_def by (simp only: minus_minus)
  have "f64_val (f64_of_int (- q)) = - q * U" using small by (intro f64_of_int_exact [THEN conjunct1]) simp
  then have cv: "f64_val (Ceil (f64_uminus f)) = - q * U" by (simp only: ceil)
  then have "f64_val (f64_uminus (Ceil (f64_uminus f))) = q * U"
    unfolding f64_val_uminus by (simp only: mult_minus_left minus_minus)
  from f64_to_int_val [OF this] have "go_int64 C (f64_uminus (Ceil (f64_uminus f))) = word_of_int q"
    using q0 assms(3) unfolding go_int64_def q_def [symmetric] by simp
  moreover have "encodeNegInt (word_of_int q) = neg_key (nat (- q))"
    using assms(3) q0 unfolding q_def [symmetric] by (rule encodeNegInt_key)
  moreover have "f64_val (Ceil (f64_uminus f)) + f64_val f = f64_val f mod U"
    unfolding cv q_def mult_minus_left by (simp only: minus_div_mult_eq_mod [symmetric] add.commute [of "- _"] add_uminus_conv_diff)
  moreover have "unat (f64_of_val (f64_val f mod U)) = fmag_round (nat (f64_val f mod U))"
    by (rule unat_f64_of_val) (rule pos_mod_sign [OF U_pos])
  ultimately show ?thesis using q0 unfolding appendFraction_def f64_add_def q_def [symmetric] int_key_def
    by (simp only: if_True)
qed

text \<open>The key of a finite double in range is the key of its exact value.\<close>

lemma encodeFloat64_key:
  assumes "in_key_range f"
  shows "encodeFloat64 C f = num_key (f64_val f)"
proof -
  define q where "q = f64_val f div U"
  note r = assms [unfolded in_key_range_def]
  have fin: "f64_finite f" using r by blast
  have range: "- (2 ^ 63) \<le> q" "q < 2 ^ 64"
    using r le_div_bound [OF U_pos] div_less_bound [OF U_pos] unfolding q_def by blast+
  show ?thesis
  proof (cases "f64_val f mod U = 0")
    case True
    then have v: "f64_val f = q * U" unfolding q_def by (rule integral_val)
    note tr = Trunc_integral [OF fin v]
    show ?thesis
    proof (cases "q < 2 ^ 63")
      case True
      then have "q * U \<le> 2 ^ 63 * U" by (intro mult_right_mono) simp_all
      moreover have "go_int64 C f = word_of_int q" using range True unfolding go_int64_def f64_to_int_val [OF v] by simp
      moreover have "q * U = 0 \<longleftrightarrow> q = 0" by simp
      ultimately show ?thesis using tr r range True
        unfolding encodeFloat64_finite [OF fin] v
        by (simp only: num_key_int encodeInt64_key simp_thms if_True if_False split: if_split) blast
    next
      case False
      have ne: "q \<noteq> 2 ^ 63" using r v by metis
      then have big: "2 ^ 63 < q" using False by simp
      then have "2 ^ 63 * U < q * U" by (rule mult_strict_right_mono) (rule U_pos)
      then have gt: "\<not> f64_val f \<le> 2 ^ 63 * U" unfolding v not_le .
      have "0 < q * U" using big by (intro mult_pos_pos U_pos) simp
      then have pos: "0 < f64_val f" unfolding v .
      have "Floor f = f64_of_val (f64_val f)" unfolding Floor_def q_def [symmetric] by (rule f64_of_int_val [OF v])
      then have "f64_val (Floor f) = f64_val f div U * U"
        using f64_val_of_val_same [OF fin] v unfolding q_def [symmetric] by simp
      note app = encodeFloat64_pos [OF pos this, folded q_def, OF range(2)]
      have "f64_val f \<noteq> 0" using pos by linarith
      moreover have "\<not> (f64_val f mod U = 0 \<and> q < 2 ^ 63)" using False by simp
      ultimately show ?thesis unfolding encodeFloat64_finite [OF fin] num_key_def frac_key_def q_def [symmetric]
        using app pos gt by (simp only: simp_thms if_True if_False)
    qed
  next
    case False
    note tr = Trunc_fraction [OF False]
    have ne: "f64_val f \<noteq> 0" using False by (metis mod_0)
    have "\<bar>q\<bar> < 2 ^ 53" using fraction_parts(2) [OF False] unfolding q_def by simp
    then have fl: "f64_val (Floor f) = f64_val f div U * U"
      unfolding Floor_def q_def [symmetric] by (rule f64_of_int_exact [THEN conjunct1])
    have "\<not> 0 < f64_val f \<Longrightarrow> f64_val f < 0" using ne by linarith
    then show ?thesis unfolding encodeFloat64_finite [OF fin] num_key_def frac_key_def q_def [symmetric]
      using encodeFloat64_pos [OF _ fl, folded q_def, OF _ range(2)] encodeFloat64_neg [OF _ False, folded q_def, OF _ range(1)] tr ne False
      by (simp only: simp_thms if_True if_False split: if_split) blast
  qed
qed

section \<open>Strings\<close>

lemma bytes_compare_bytes_of: "bytes_compare (bytes_of s) (bytes_of t) = bytes_compare s t"
  unfolding bytes_of_def
proof (rule bytes_compare_map)
  show "((word_of_nat (of_char x) :: byte) < word_of_nat (of_char y)) = (x < y)" for x y
    by (simp add: word_less_nat_alt less_char_def)
  show "((word_of_nat (of_char x) :: byte) = word_of_nat (of_char y)) = (x = y)" for x y
    by (simp add: word_unat_eq_iff)
qed

lemma byte_pos: "(0 :: byte) < x \<longleftrightarrow> x \<noteq> 0"
  by (simp add: word_neq_0_conv)

lemma appendEscaped_less: "bytes_compare s t = Less \<Longrightarrow> sep (appendEscaped s) (appendEscaped t)"
proof (induction s arbitrary: t)
  case Nil
  then obtain y t' where t: "t = y # t'" by (cases t) auto
  show ?case
  proof (cases "y = 0")
    case True
    then show ?thesis unfolding t sep_def by auto
  next
    case False
    then have "0 < y" by (simp add: byte_pos)
    then show ?thesis unfolding t sep_def using False diverge_hd [of 0 y "[]" "appendEscaped t'"] by simp
  qed
next
  case (Cons x s)
  then obtain y t' where t: "t = y # t'" by (cases t) auto
  show ?case
  proof (cases "x = y")
    case True
    then show ?thesis using Cons.IH [of t'] Cons.prems unfolding t by (auto intro!: sep_Cons)
  next
    case False
    then have "x < y" using Cons.prems unfolding t by (simp split: if_splits)
    moreover from this have "y \<noteq> 0" by auto
    ultimately have "diverge (appendEscaped (x # s)) (appendEscaped (y # t'))" by (simp add: diverge_hd)
    then show ?thesis unfolding t sep_def by blast
  qed
qed

lemma appendEscaped_pair_less:
  assumes "0 \<notin> set p" "0 \<notin> set p'" "bytes_compare (p @ 0 # q) (p' @ 0 # q') = Less"
  shows "sep (appendEscaped p @ appendEscaped q) (appendEscaped p' @ appendEscaped q')"
  using assms
proof (induction p arbitrary: p')
  case Nil
  show ?case
  proof (cases p')
    case Nil
    then show ?thesis using Nil.prems appendEscaped_less by (auto intro!: sep_Cons)
  next
    case (Cons y p'')
    then have "0 < y" using Nil.prems by (simp add: byte_pos)
    then show ?thesis using Cons Nil.prems diverge_hd [of 0 y] unfolding sep_def by auto
  qed
next
  case (Cons x p)
  then obtain y p'' where p': "p' = y # p''" using word_zero_le [of x] by (cases p') (auto split: if_splits)
  have diff: "sep (x # a) (y # b)" if "x < y" for a b using that unfolding sep_def by (blast intro: diverge_hd)
  from p' show ?case using Cons diff by (cases "x = y") (auto intro!: sep_Cons split: if_splits)
qed

section \<open>The values whose keys are exact\<close>

text \<open>
  Left out are the values whose key is not faithful: objects, arrays and decimals, which share
  one key each; \<open>Undefined\<close>, whose type byte is below that of \<open>MinKey\<close>; binary data, which
  are not terminated; dates before 1970, whose sign bit is not flipped; regexes with a zero
  byte in the pattern; and doubles outside of \<open>in_key_range\<close> and \<open>exact_fraction\<close>.
\<close>

fun key_exact :: "bson \<Rightarrow> bool" where
  "key_exact (BDouble f) \<longleftrightarrow> IsNaN f \<or> IsInf_neg f \<or> IsInf_pos f \<or> in_key_range f \<and> exact_fraction f"
| "key_exact (BObjectID oid) \<longleftrightarrow> length oid = 12"
| "key_exact (BDate d) \<longleftrightarrow> 0 \<le> sint d"
| "key_exact (BRegex p q) \<longleftrightarrow> CHR 0x00 \<notin> set p"
| "key_exact (BDocument _) \<longleftrightarrow> False"
| "key_exact (BArray _) \<longleftrightarrow> False"
| "key_exact (BDecimal128 _ _) \<longleftrightarrow> False"
| "key_exact (BBinary _ _) \<longleftrightarrow> False"
| "key_exact BUndefined \<longleftrightarrow> False"
| "key_exact _ \<longleftrightarrow> True"

lemma key_number_int:
  assumes "- (2 ^ 63) \<le> i" "i < 2 ^ 63"
  shows "key_number (i * U) \<and> coarse (i * U)"
proof -
  have gen: "i * u div u = i" "i * u mod u = 0" if "0 < u" for u :: int using that by simp_all
  note g = gen [OF U_pos]
  have "fmag_val (fmag_round (nat 0)) = nat 0" using fmag_round_val [of 0] by simp
  moreover have "i < 2 ^ 64" using assms by simp
  ultimately show ?thesis unfolding key_number_def coarse_def g using assms by blast
qed

lemma encodeInt64_num_key: "encodeInt64 i = num_key (sint i * U)"
proof -
  have r: "- (2 ^ 63) \<le> sint i" "sint i < 2 ^ 63" using sint_range_size [of i] by (simp_all add: word_size)
  have "word_of_int (sint i) = i" by simp
  then show ?thesis using encodeInt64_key [OF r] num_key_int [OF r(2)] by (simp only:)
qed

lemma sint_scast: "sint (scast (i :: int32) :: int64) = sint i"
proof -
  have "- (2 ^ 31) \<le> sint i" "sint i < 2 ^ 31" using sint_range_size [of i] by (simp_all add: word_size)
  then have "signed_take_bit 63 (sint i) = sint i" by (intro signed_take_bit_int_eq_self) simp_all
  then show ?thesis by (simp add: signed_scast_eq)
qed

text \<open>
  The encoding of a number by its class, and for a finite one the exact value.
\<close>

lemma numbers_encoded:
  assumes "key_exact v" "numericParts D v = Some (c, r)"
  shows "c = numNaN \<and> EncodeValue C v = [ctypeNaN] \<or> c = numNegInf \<and> EncodeValue C v = [ctypeNegInf] \<or>
    c = numPosInf \<and> EncodeValue C v = [ctypePosInf] \<or>
    c = numFinite \<and> (\<exists>S. EncodeValue C v = num_key S \<and> r = of_int S / of_nat f64_unit \<and> key_number S \<and> coarse S)"
proof -
  have ints: "\<exists>S. num_key (i * U) = num_key S \<and> (of_int i :: rat) = of_int S / of_nat f64_unit \<and> key_number S \<and> coarse S"
    if "- (2 ^ 63) \<le> i" "i < 2 ^ 63" for i
  proof (intro exI conjI)
    have "(of_int (i * int u) :: rat) / of_nat u = of_int i" if "u \<noteq> 0" for u using that by simp
    from this [of f64_unit, symmetric] show "(of_int i :: rat) = of_int (i * U) / of_nat f64_unit" by simp
  qed (use key_number_int [OF that] in \<open>simp_all only: simp_thms\<close>)
  show ?thesis
  proof (cases v)
    case (BDouble f)
    show ?thesis
    proof (cases f rule: f64_kinds)
      case Finite
      then have r: "in_key_range f" "exact_fraction f" using assms(1) BDouble by auto
      have parts: "c = numFinite" "r = of_int (f64_val f) / of_nat f64_unit"
        using assms(2) Finite numericParts_double(4) [of f D] unfolding BDouble by auto
      have "EncodeValue C v = num_key (f64_val f)" unfolding BDouble EncodeValue.simps by (rule encodeFloat64_key [OF r(1)])
      then show ?thesis using parts key_number_double [OF r] coarse_double by blast
    qed (use assms(2) in \<open>auto simp: BDouble numericParts_double encodeFloat64_def simp del: numericParts.simps\<close>)
  next
    case (BInt32 i)
    have "- (2 ^ 31) \<le> sint i" "sint i < 2 ^ 31" using sint_range_size [of i] by (simp_all add: word_size)
    then show ?thesis using assms(2) ints [of "sint i"] by (simp add: BInt32 encodeInt64_num_key sint_scast del: of_nat_power of_nat_numeral)
  next
    case (BInt64 i)
    have "- (2 ^ 63) \<le> sint i" "sint i < 2 ^ 63" using sint_range_size [of i] by (simp_all add: word_size)
    then show ?thesis using assms(2) ints [of "sint i"] by (simp add: BInt64 encodeInt64_num_key del: of_nat_power of_nat_numeral)
  qed (use assms in simp_all)
qed

lemma num_key_hd:
  assumes "key_number S"
  shows "\<exists>x r. num_key S = x # r \<and> ctypeNegInf < x \<and> x < ctypePosInf"
proof -
  have b: "unat ctypeNegInf = 26" "unat ctypePosInf = 51" by (simp_all add: ctype_defs)
  have zero: "ctypeNegInf < ctypeZero \<and> ctypeZero < ctypePosInf" by (simp add: ctype_defs)
  have "\<exists>x r. neg_key n = x # r \<and> ctypeNegInf < x \<and> x < ctypePosInf" for n
  proof -
    have "26 < 35 - minBytesForUint n" "35 - minBytesForUint n < 51" using minBytes_range [of n] by linarith+
    then show ?thesis unfolding neg_key_def word_less_nat_alt b
      by - (rule exI, rule exI, rule conjI, rule refl, simp only: neg_key_hd simp_thms)
  qed
  moreover have "\<exists>x r. pos_key n = x # r \<and> ctypeNegInf < x \<and> x < ctypePosInf" for n
  proof -
    have "26 < 42 + minBytesForUint n" "42 + minBytesForUint n < 51" using minBytes_range [of n] by linarith+
    then show ?thesis unfolding pos_key_def word_less_nat_alt b
      by - (rule exI, rule exI, rule conjI, rule refl, simp only: pos_key_hd simp_thms)
  qed
  ultimately have "\<exists>x r. int_key q = x # r \<and> ctypeNegInf < x \<and> x < ctypePosInf" for q
    unfolding int_key_def by (simp only: split: if_split) blast
  then obtain x r where "int_key (S div int f64_unit) = x # r" "ctypeNegInf < x" "x < ctypePosInf" by blast
  then show ?thesis using zero unfolding num_key_def by (simp only: append_Cons split: if_split) blast
qed

section \<open>Type brackets\<close>

text \<open>The data type of the value order that a leading byte stands for.\<close>

definition byte_class :: "byte \<Rightarrow> nat" where
  "byte_class x =
     (if x \<le> ctypeMinKey then minKeyDataType else if x \<le> ctypeNull then nullDataType
      else if x \<le> ctypeNaN then nanDataType else if x \<le> ctypePosInf then numbersDataType
      else if x \<le> ctypeString then stringDataType else if x \<le> ctypeOID then objectIDDataType
      else if x \<le> ctypeBoolTrue then booleanDataType else if x \<le> ctypeDate then dateDataType
      else if x \<le> ctypeTimestamp then timestampDataType else if x \<le> ctypeRegex then regexDataType
      else maxKeyDataType)"

lemma step_mono:
  "(x :: 'a :: order) \<le> y \<Longrightarrow> (m :: nat) \<le> b \<Longrightarrow> a \<le> b \<Longrightarrow> (if x \<le> c then m else a) \<le> (if y \<le> c then m else b)"
  by (auto dest: order_trans)

lemma step_le: "m \<le> a \<Longrightarrow> m \<le> b \<Longrightarrow> (m :: nat) \<le> (if c then a else b)"
  by simp

lemma byte_class_mono: "x \<le> y \<Longrightarrow> byte_class x \<le> byte_class y"
  unfolding byte_class_def by (intro step_mono step_le) (simp_all add: dataType_defs)

lemma byte_class_number: "ctypeNegInf \<le> x \<Longrightarrow> x \<le> ctypePosInf \<Longrightarrow> byte_class x = numbersDataType"
proof -
  assume x: "ctypeNegInf \<le> x" "x \<le> ctypePosInf"
  then have "\<not> x \<le> ctypeMinKey" "\<not> x \<le> ctypeNull" "\<not> x \<le> ctypeNaN"
    unfolding word_le_nat_alt by (simp_all add: ctype_defs)
  then show ?thesis using x by (simp add: byte_class_def)
qed

lemma byte_class_ctypes:
  "byte_class ctypeMinKey = minKeyDataType" "byte_class ctypeNull = nullDataType"
  "byte_class ctypeNaN = nanDataType" "byte_class ctypeString = stringDataType"
  "byte_class ctypeOID = objectIDDataType" "byte_class ctypeBoolFalse = booleanDataType"
  "byte_class ctypeBoolTrue = booleanDataType" "byte_class ctypeDate = dateDataType"
  "byte_class ctypeTimestamp = timestampDataType" "byte_class ctypeRegex = regexDataType"
  "byte_class ctypeMaxKey = maxKeyDataType"
  by (simp_all add: byte_class_def ctype_defs)

lemma number_bracket:
  assumes "key_exact v" "numericParts D v = Some (c, r)"
  shows "\<exists>x s. EncodeValue C v = x # s \<and> byte_class x = (if c = numNaN then nanDataType else numbersDataType)"
proof -
  have "byte_class ctypeNegInf = numbersDataType" "byte_class ctypePosInf = numbersDataType"
    by (rule byte_class_number; simp add: ctype_defs)+
  moreover have "\<exists>x s. num_key S = x # s \<and> byte_class x = numbersDataType" if "key_number S" for S
    using num_key_hd [OF that] byte_class_number by (metis less_imp_le)
  ultimately show ?thesis using numbers_encoded [OF assms, of C] num_classes(1-3) byte_class_ctypes(3)
    by (metis (no_types))
qed

lemma encode_bracket:
  assumes "key_exact v"
  shows "\<exists>x s. EncodeValue C v = x # s \<and> byte_class x = detectDataType D v"
proof (cases v)
  case (BDouble f)
  have "\<exists>c r. numericParts D v = Some (c, r) \<and> (c = numNaN \<longleftrightarrow> IsNaN f)"
    unfolding BDouble by (cases f rule: f64_kinds) (simp_all only: numericParts_double option.inject prod.inject simp_thms num_classes num_classes(1-3) [symmetric] ex_simps)
  then obtain c r where "numericParts D v = Some (c, r)" "c = numNaN \<longleftrightarrow> IsNaN f" by blast
  then show ?thesis using number_bracket [OF assms, of D c r C] BDouble by simp
next
  case (BInt32 i)
  then show ?thesis using number_bracket [OF assms, of D numFinite "of_int (sint i)" C] num_classes(2) by simp
next
  case (BInt64 i)
  then show ?thesis using number_bracket [OF assms, of D numFinite "of_int (sint i)" C] num_classes(2) by simp
qed (use assms in \<open>simp_all add: byte_class_ctypes encodeString_def encodeStringBytes_def\<close>)

section \<open>Keys compare as values do\<close>

lemma num_cmp_table:
  "num_cmp (numNaN, r) (numNaN, t) = Equal" "num_cmp (numNegInf, r) (numNegInf, t) = Equal"
  "num_cmp (numPosInf, r) (numPosInf, t) = Equal"
  "num_cmp (numNaN, r) (numNegInf, t) = Less" "num_cmp (numNaN, r) (numFinite, t) = Less"
  "num_cmp (numNaN, r) (numPosInf, t) = Less" "num_cmp (numNegInf, r) (numFinite, t) = Less"
  "num_cmp (numNegInf, r) (numPosInf, t) = Less" "num_cmp (numFinite, r) (numPosInf, t) = Less"
  "num_cmp (numNegInf, r) (numNaN, t) = Greater" "num_cmp (numFinite, r) (numNaN, t) = Greater"
  "num_cmp (numPosInf, r) (numNaN, t) = Greater" "num_cmp (numFinite, r) (numNegInf, t) = Greater"
  "num_cmp (numPosInf, r) (numNegInf, t) = Greater" "num_cmp (numPosInf, r) (numFinite, t) = Greater"
  by (simp_all add: num_cmp_def num_defs compareOrdered_def)

lemma numbers_order:
  assumes "key_exact v" "key_exact w" "numericParts D v = Some p" "numericParts D w = Some q"
  shows "(num_cmp p q = Less \<longrightarrow> sep (EncodeValue C v) (EncodeValue C w)) \<and>
    (num_cmp p q = Equal \<longrightarrow> EncodeValue C v = EncodeValue C w)"
proof -
  obtain c r d t where p: "p = (c, r)" and q: "q = (d, t)" by (cases p, cases q)
  have one: "sep [x] (y # s)" if "x < y" for x y s using that unfolding sep_def by (blast intro: diverge_hd)
  have two: "sep (x # s) [y]" if "x < y" for x y s using that unfolding sep_def by (blast intro: diverge_hd)
  have c: "ctypeNaN < ctypeNegInf" "ctypeNegInf < ctypePosInf" by (simp_all add: ctype_defs)
  have low: "\<And>S. key_number S \<Longrightarrow> sep [ctypeNaN] (num_key S)" "\<And>S. key_number S \<Longrightarrow> sep [ctypeNegInf] (num_key S)"
    and high: "\<And>S. key_number S \<Longrightarrow> sep (num_key S) [ctypePosInf]"
    using num_key_hd one two c by (metis order.strict_trans)+
  have pts: "sep [ctypeNaN] [ctypeNegInf]" "sep [ctypeNegInf] [ctypePosInf]" "sep [ctypeNaN] [ctypePosInf]"
    using one c by (blast intro: order.strict_trans)+
  have fin: "(compareOrdered S S' = Less \<longrightarrow> sep (num_key S) (num_key S')) \<and>
      (compareOrdered S S' = Equal \<longrightarrow> num_key S = num_key S')"
    if "key_number S" "key_number S'" "coarse S'" for S S'
    using num_key_less [OF _ that] unfolding compareOrdered_iff by blast
  note enc = numbers_encoded [OF assms(1) assms(3) [unfolded p], of C]
    numbers_encoded [OF assms(2) assms(4) [unfolded q], of C]
  show ?thesis unfolding p q
    using enc by (elim disjE conjE exE; hypsubst)
      (simp_all only: num_cmp_table num_cmp_finite CompareResult.distinct simp_thms low high pts, rule fin)
qed

lemma date_order:
  assumes "0 \<le> sint (a :: int64)" "0 \<le> sint b"
  shows "(compareOrdered (sint a) (sint b) = Less \<longrightarrow> sep (be_bytes 8 (unat a)) (be_bytes 8 (unat b))) \<and>
    (compareOrdered (sint a) (sint b) = Equal \<longrightarrow> a = b)"
proof -
  have u: "sint x = int (unat x)" if "0 \<le> sint x" for x :: int64
  proof -
    have "sint x < 2 ^ 63" using sint_range_size [of x] by (simp add: word_size)
    with that have "unat (word_of_int (sint x) :: int64) = nat (sint x)" by (intro unat_word_of_int64) simp_all
    then show ?thesis using that by simp
  qed
  have "unat b < 256 ^ 8" using unsigned_less [of b, where 'a = nat] by simp
  then show ?thesis using be_bytes_less [of "unat a" "unat b" 8]
    unfolding compareOrdered_iff u [OF assms(1)] u [OF assms(2)] of_nat_less_iff of_nat_eq_iff word_unat_eq_iff sep_def
    by blast
qed

lemma timestamp_order:
  "(compareOrdered (a :: uint64) b = Less \<longrightarrow> sep (be_bytes 8 (unat a)) (be_bytes 8 (unat b))) \<and>
   (compareOrdered a b = Equal \<longrightarrow> a = b)"
proof -
  have "unat b < 256 ^ 8" using unsigned_less [of b, where 'a = nat] by simp
  then show ?thesis using be_bytes_less [of "unat a" "unat b" 8]
    by (auto simp: compareOrdered_iff sep_def word_less_nat_alt)
qed

lemma regex_order:
  assumes "CHR 0x00 \<notin> set p" "CHR 0x00 \<notin> set p'" "bytes_compare (p @ [CHR 0x00] @ q) (p' @ [CHR 0x00] @ q') = Less"
  shows "sep (appendEscaped (bytes_of p) @ appendEscaped (bytes_of q)) (appendEscaped (bytes_of p') @ appendEscaped (bytes_of q'))"
proof (rule appendEscaped_pair_less)
  show "0 \<notin> set (bytes_of p)" "0 \<notin> set (bytes_of p')" using assms(1,2) zero_in_bytes_of by auto
  have app: "bytes_of (a @ [CHR 0x00] @ b) = bytes_of a @ 0 # bytes_of b" for a b by (simp add: bytes_of_def)
  from assms(3) show "bytes_compare (bytes_of p @ 0 # bytes_of q) (bytes_of p' @ 0 # bytes_of q') = Less"
    unfolding bytes_compare_bytes_of [symmetric] app .
qed

lemma separator_eq: "c \<notin> set p \<Longrightarrow> c \<notin> set p' \<Longrightarrow> p @ c # q = p' @ c # q' \<longleftrightarrow> p = p' \<and> q = q'"
  by (induction p p' rule: list_induct2') auto

lemma encode_same_type:
  assumes "bigint_total D" "key_exact v" "key_exact w" "detectDataType D v = detectDataType D w"
  shows "(Compare D v w = Less \<longrightarrow> sep (EncodeValue C v) (EncodeValue C w)) \<and>
    (Compare D v w = Equal \<longrightarrow> EncodeValue C v = EncodeValue C w)"
proof (cases "detectDataType D w = nanDataType \<or> detectDataType D w = numbersDataType")
  case True
  then obtain p q where pq: "numericParts D v = Some p" "numericParts D w = Some q" "isScalar v" "isScalar w"
    using detectDataType_number [OF assms(1), of v] detectDataType_number [OF assms(1), of w] assms(4) by auto
  then have "Compare D v w = num_cmp p q"
    using compareNumeric_num_cmp [OF pq(1,2)] by (simp add: Compare_scalar compareScalars_def)
  then show ?thesis using numbers_order [OF assms(2,3) pq(1,2), of C] by simp
next
  case False
  then show ?thesis
  proof (cases v)
    case (BString a)
    then obtain b where "w = BString b" using assms(4) by (metis detectDataType_iff(1))
    then show ?thesis using BString appendEscaped_less [of "bytes_of a" "bytes_of b"]
      by (auto simp: compareScalars_simps bytes_compare_bytes_of encodeString_def encodeStringBytes_def intro: sep_Cons)
  next
    case (BObjectID a)
    then obtain b where w: "w = BObjectID b" using assms(4) by (metis detectDataType_iff(5))
    have "length a = length b" using assms(2,3) BObjectID w by simp
    then show ?thesis using BObjectID w same_length_diverge [of a b]
      by (auto simp: compareScalars_simps sep_def intro: diverge_Cons)
  next
    case (BBool a)
    then obtain b where "w = BBool b" using assms(4) by (metis detectDataType_iff(6))
    then show ?thesis using BBool diverge_hd [of ctypeBoolFalse ctypeBoolTrue "[]" "[]"]
      by (auto simp: compareScalars_simps sep_def ctype_defs)
  next
    case (BDate a)
    then obtain b where w: "w = BDate b" using assms(4) by (metis detectDataType_iff(7))
    then show ?thesis using BDate assms(2,3) date_order [of a b] by (auto simp: compareScalars_simps intro: sep_Cons)
  next
    case (BTimestamp a)
    then obtain b where w: "w = BTimestamp b" using assms(4) by (metis detectDataType_iff(8))
    then show ?thesis using BTimestamp timestamp_order [of a b] by (auto simp: compareScalars_simps intro: sep_Cons)
  next
    case (BRegex p q)
    then obtain p' q' where w: "w = BRegex p' q'" using assms(4) by (metis detectDataType_iff(9))
    have free: "CHR 0x00 \<notin> set p" "CHR 0x00 \<notin> set p'" using assms(2,3) BRegex w by simp_all
    moreover have "p @ CHR 0x00 # q = p' @ CHR 0x00 # q' \<longleftrightarrow> p = p' \<and> q = q'"
      using free by (rule separator_eq)
    ultimately show ?thesis using BRegex w regex_order [of p p' q q'] by (auto simp: compareScalars_simps intro: sep_Cons)
  next
    case BNull
    then have "w = BNull" using assms(4) by (metis detectDataType.simps(9) detectDataType_iff(12))
    then show ?thesis using BNull by (simp add: compareScalars_simps)
  next
    case BMinKey
    then have "w = BMinKey" using assms(4) by (metis detectDataType.simps(15) detectDataType_iff(10))
    then show ?thesis using BMinKey by (simp add: compareScalars_simps)
  next
    case BMaxKey
    then have "w = BMaxKey" using assms(4) by (metis detectDataType.simps(17) detectDataType_iff(13))
    then show ?thesis using BMaxKey by (simp add: compareScalars_simps)
  next
    case (BDouble f)
    then have "detectDataType D w = nanDataType \<or> detectDataType D w = numbersDataType" using assms(4) by (auto split: if_splits)
    then show ?thesis using False by simp
  qed (use False assms in simp_all)
qed

lemma encode_order:
  assumes "bigint_total D" "key_exact v" "key_exact w"
  shows "(order_cmp D v w = Less \<longrightarrow> sep (EncodeValue C v) (EncodeValue C w)) \<and>
    (order_cmp D v w = Equal \<longrightarrow> EncodeValue C v = EncodeValue C w)"
proof (cases "detectDataType D v = detectDataType D w")
  case True
  then show ?thesis using encode_same_type [OF assms True, of C]
    by (simp add: Let_def compareTypeOrder_Equal)
next
  case False
  then have "order_cmp D v w = compareOrdered (detectDataType D v) (detectDataType D w)"
    by (simp add: Let_def compareTypeOrder_eq compareOrdered_iff)
  moreover obtain x s y t where "EncodeValue C v = x # s" "byte_class x = detectDataType D v"
      "EncodeValue C w = y # t" "byte_class y = detectDataType D w"
    using encode_bracket [OF assms(2), of C D] encode_bracket [OF assms(3), of C D] by blast
  moreover have "x < y" if "byte_class x < byte_class y" using that byte_class_mono [of y x] by (metis not_le)
  ultimately show ?thesis using False diverge_hd [of x y s t] unfolding sep_def by (simp add: compareOrdered_iff)
qed

text \<open>
  No decimal is involved, so the order of these values does not depend on what the driver makes
  of decimals.
\<close>

lemma key_exact_parts:
  "key_exact v \<Longrightarrow> detectDataType D v = detectDataType D' v"
  "key_exact v \<Longrightarrow> numericParts D v = numericParts D' v"
  by (cases v; simp)+

lemma key_exact_order:
  assumes "key_exact v" "key_exact w"
  shows "order_cmp D v w = order_cmp D' v w"
proof -
  note parts = key_exact_parts(1) [OF assms(1), of D D'] key_exact_parts(1) [OF assms(2), of D D']
    key_exact_parts(2) [OF assms(1), of D D'] key_exact_parts(2) [OF assms(2), of D D']
  have type: "compareTypeOrder D v w = compareTypeOrder D' v w" unfolding compareTypeOrder_eq parts ..
  have num: "compareNumeric D v w = compareNumeric D' v w" unfolding compareNumeric_def parts ..
  have "compareScalars D v w = compareScalars D' v w" unfolding compareScalars_def type num ..
  moreover have "isScalar v" using assms(1) by (cases v) simp_all
  ultimately show ?thesis using type by (simp add: Compare_scalar Let_def)
qed

section \<open>The contract of order-preserving keys\<close>

text \<open>
  What the index relies on: keys of values in order are separated, so that they stay in order
  once a discriminator and a primary key follow, and keys of equal values are equal.
\<close>

locale order_keys =
  fixes enc :: "'v \<Rightarrow> bytes"
    and order :: "'v \<Rightarrow> 'v \<Rightarrow> CompareResult"
    and ok :: "'v \<Rightarrow> bool"
  assumes enc_Less: "ok v \<Longrightarrow> ok w \<Longrightarrow> order v w = Less \<Longrightarrow> sep (enc v) (enc w)"
    and enc_Equal: "ok v \<Longrightarrow> ok w \<Longrightarrow> order v w = Equal \<Longrightarrow> enc v = enc w"
    and order_invert: "ok v \<Longrightarrow> ok w \<Longrightarrow> order w v = compareInvert (order v w)"
begin

lemma suffixed_compare:
  assumes "ok v" "ok w" "hd s \<le> 5" "hd t \<le> 5" "s \<noteq> []" "t \<noteq> []"
  shows "bytes_compare (enc v @ s) (enc w @ t) = (case order v w of Equal \<Rightarrow> bytes_compare s t | r \<Rightarrow> r)"
proof (cases "order v w")
  case Less
  then show ?thesis using sep_Less [OF enc_Less [OF assms(1,2)], of s t] assms by simp
next
  case Equal
  then show ?thesis using enc_Equal [OF assms(1,2)] by simp
next
  case Greater
  then have "sep (enc w) (enc v)" using enc_Less [OF assms(2,1)] order_invert [OF assms(1,2)] by simp
  then have "bytes_compare (enc w @ t) (enc v @ s) = Less" using sep_Less [of _ _ t s] assms by simp
  then show ?thesis using Greater bytewise.cmp_invert [of "enc w @ t" "enc v @ s"] by simp
qed

lemma enc_compare:
  assumes "ok v" "ok w"
  shows "bytes_compare (enc v) (enc w) = order v w"
proof -
  have less: "bytes_compare (enc a) (enc b) = Less" if "order a b = Less" "ok a" "ok b" for a b
    using sep_Less [OF enc_Less [OF that(2,3,1)], of "[]" "[]"] by simp
  have inv: "order w v = compareInvert (order v w)" by (rule order_invert [OF assms])
  show ?thesis
  proof (cases "order v w")
    case Less
    then show ?thesis using less assms by simp
  next
    case Equal
    then show ?thesis using enc_Equal [OF assms] by simp
  next
    case Greater
    then have "bytes_compare (enc w) (enc v) = Less" using inv less assms by simp
    then show ?thesis using bytewise.cmp_invert [of "enc w" "enc v"] Greater by simp
  qed
qed

end

lemma order_cmp_invert: "key_exact v \<Longrightarrow> key_exact w \<Longrightarrow> order_cmp D w v = compareInvert (order_cmp D v w)"
  using three_way.cmp_invert [OF three_way_CompareOrder [OF sample_bigint_total], of v w]
    key_exact_order [of v w D sample_bigint] key_exact_order [of w v D sample_bigint] by simp

interpretation key_string: order_keys "EncodeValue C" "order_cmp D" key_exact for C D
proof unfold_locales
  fix v w :: bson
  assume ok: "key_exact v" "key_exact w"
  note enc = encode_order [OF sample_bigint_total ok, of C, folded key_exact_order [OF ok, of D sample_bigint]]
  show "order_cmp D v w = Less \<Longrightarrow> sep (EncodeValue C v) (EncodeValue C w)"
    "order_cmp D v w = Equal \<Longrightarrow> EncodeValue C v = EncodeValue C w"
    using enc by blast+
  show "order_cmp D w v = compareInvert (order_cmp D v w)" by (rule order_cmp_invert [OF ok])
qed

section \<open>Properties\<close>

definition sample_conversions :: conversions where
  "sample_conversions = \<lparr>out_of_range_int64 = (\<lambda>_. 0), out_of_range_uint64 = (\<lambda>_. 0)\<rparr>"

text \<open>
  Property C5 (functional). Index keys compare as values do, where the keys are exact: comparing the bytes
  \<open>EncodeValue\<close> writes gives the result of \<open>CompareOrder\<close>, across types and between
  integers and doubles. Both values are \<open>key_exact\<close>: no documents, arrays, Decimal128, binary
  data or undefined, no dates before 1970, no regexes with a zero byte in the pattern, and no
  doubles whose key is not exact.
\<close>

theorem EncodeValue_order:
  assumes "key_exact v" "key_exact w"
  shows "bytes_compare (EncodeValue C v) (EncodeValue C w) = CompareOrder D v w Ascending"
  by (rule key_string.enc_compare [OF assms])

theorem EncodeValue_order_witness:
  "bytes_compare (EncodeValue sample_conversions (BInt64 2)) (EncodeValue sample_conversions (BDouble 0x4004000000000000)) =
    CompareOrder sample_bigint (BInt64 2) (BDouble 0x4004000000000000) Ascending"
proof (rule EncodeValue_order)
  have "in_key_range 0x4004000000000000"
    by (simp add: in_key_range_def f64_finite_def f64_val_def f64_neg_def f64_mag_def fmag_val_def)
  moreover have "exact_fraction 0x4004000000000000"
    by (simp add: exact_fraction_def f64_val_def f64_neg_def f64_mag_def fmag_val_def)
  ultimately show "key_exact (BDouble 0x4004000000000000)" by simp
qed simp

end
