(* ===== verification/KeySplit.thy ===== *)
theory KeySplit
  imports KeyValues
begin

text \<open>
  \<open>SplitKeyValues\<close> of \<open>internal/index/keystring.go\<close>: cutting the concatenated encodings of
  a compound index key back into one encoding per value, by trying every way to do it.
\<close>

section \<open>The splitter\<close>

text \<open>
  \<open>escaped_len\<close> is the loop of \<open>escapedEnd\<close> on the bytes from \<open>from\<close> on; it
  counts up to just past the terminator.
\<close>

fun escaped_len :: "bytes \<Rightarrow> nat option" where
  "escaped_len [] = None"
| "escaped_len [b] = (if b \<noteq> 0 then None else Some 1)"
| "escaped_len (b # c # r) =
     (if b \<noteq> 0 then map_option Suc (escaped_len (c # r))
      else if c = 0xFF then map_option (\<lambda>n. n + 2) (escaped_len r)
      else Some 1)"

definition escapedEnd :: "bytes \<Rightarrow> nat \<Rightarrow> nat option" where
  "escapedEnd b from = map_option (\<lambda>n. from + n) (escaped_len (drop from b))"

definition fixed_length :: "bytes \<Rightarrow> nat \<Rightarrow> nat list" where
  "fixed_length b l = (if length b < l then [] else [l])"

definition number_length :: "bytes \<Rightarrow> nat \<Rightarrow> nat list" where
  "number_length b l = (if length b \<ge> l + 8 then [l, l + 8] else if length b \<ge> l then [l] else [])"

definition valueEncodingLengths :: "bytes \<Rightarrow> nat list" where
  "valueEncodingLengths b =
     (case b of [] \<Rightarrow> []
      | c # _ \<Rightarrow>
        if c \<in> {ctypeUndefined, ctypeMinKey, ctypeNull, ctypeNaN, ctypeNegInf, ctypeZero, ctypePosInf,
                ctypeObject, ctypeArray, ctypeBoolFalse, ctypeBoolTrue, ctypeMaxKey} then [1]
        else if ctypeNegInf + 1 \<le> c \<and> c \<le> ctypeNegMedium
          then number_length b (1 + unat (ctypeNegMedium - c) + 1)
        else if ctypePosMedium \<le> c \<and> c \<le> ctypePosMedium + 7
          then number_length b (1 + unat (c - ctypePosMedium) + 1)
        else if c = ctypeString then (case escapedEnd b 1 of Some l \<Rightarrow> [l] | None \<Rightarrow> [])
        else if c = ctypeRegex then
          (case escapedEnd b 1 of None \<Rightarrow> []
           | Some l \<Rightarrow> (case escapedEnd b l of Some l' \<Rightarrow> [l'] | None \<Rightarrow> []))
        else if c = ctypeOID then fixed_length b 13
        else if c = ctypeDate \<or> c = ctypeTimestamp then fixed_length b 9
        else [])"

definition valueEncodingFits :: "bytes \<Rightarrow> bool" where
  "valueEncodingFits b =
     (if b \<noteq> [] \<and> hd b = ctypeBinData then length b \<ge> 2 else length b \<in> set (valueEncodingLengths b))"

text \<open>
  The closure \<open>split\<close>, with \<open>found\<close> and \<open>solutions\<close> as its state; \<open>k\<close> is the
  number of values still to cut off before the last one. \<open>split_over\<close> is its loop.
\<close>

fun split_key :: "nat \<Rightarrow> bytes \<Rightarrow> bytes list \<Rightarrow> bytes list \<times> nat \<Rightarrow> bytes list \<times> nat"
  and split_over :: "nat \<Rightarrow> nat list \<Rightarrow> bytes \<Rightarrow> bytes list \<Rightarrow> bytes list \<times> nat \<Rightarrow> bytes list \<times> nat" where
  "split_key 0 rest acc (found, solutions) =
     (if solutions > 1 then (found, solutions)
      else if valueEncodingFits rest then (acc @ [rest], solutions + 1) else (found, solutions))"
| "split_key (Suc k) rest acc (found, solutions) =
     (if solutions > 1 then (found, solutions)
      else split_over k (valueEncodingLengths rest) rest acc (found, solutions))"
| "split_over k [] rest acc st = st"
| "split_over k (l # ls) rest acc st =
     split_over k ls rest acc (split_key k (drop l rest) (acc @ [take l rest]) st)"

definition SplitKeyValues :: "bytes \<Rightarrow> nat \<Rightarrow> bytes list \<times> bool" where
  "SplitKeyValues key n =
     (if n > 0 then (case split_key (n - 1) key [] ([], 0) of (found, solutions) \<Rightarrow> (found, solutions = 1))
      else ([], False))"

section \<open>All the ways to split\<close>

fun all_splits :: "nat \<Rightarrow> bytes \<Rightarrow> bytes list list" where
  "all_splits 0 rest = (if valueEncodingFits rest then [[rest]] else [])"
| "all_splits (Suc k) rest =
     concat (map (\<lambda>l. map (\<lambda>vs. take l rest # vs) (all_splits k (drop l rest))) (valueEncodingLengths rest))"

text \<open>What the state becomes with one more solution; after the second it stays.\<close>

definition found_one :: "bytes list \<Rightarrow> bytes list \<times> nat \<Rightarrow> bytes list \<times> nat" where
  "found_one vs st = (if snd st > 1 then st else (vs, snd st + 1))"

lemma found_enough: "snd st > 1 \<Longrightarrow> fold found_one sols st = st"
  by (induction sols) (simp_all add: found_one_def)

lemma split_key_all: "split_key k rest acc st = fold found_one (map (\<lambda>vs. acc @ vs) (all_splits k rest)) st"
  and split_over_all: "split_over k ls rest acc st =
    fold found_one (concat (map (\<lambda>l. map (\<lambda>vs. acc @ take l rest # vs) (all_splits k (drop l rest))) ls)) st"
proof (induction k rest acc st and k ls rest acc st rule: split_key_split_over.induct)
  case (2 k rest acc found solutions)
  then show ?case by (auto simp: found_enough map_concat comp_def)
qed (auto simp: found_one_def found_enough comp_def)

lemma fold_found_one: "fold found_one sols ([], 0) =
    (case sols of [] \<Rightarrow> ([], 0) | [vs] \<Rightarrow> (vs, 1) | _ # ws # _ \<Rightarrow> (ws, 2))"
  by (auto simp: found_one_def found_enough split: list.splits)

lemma SplitKeyValues_unique:
  "SplitKeyValues key (Suc k) = (vs, True) \<longleftrightarrow> all_splits k key = [vs]"
  by (auto simp: SplitKeyValues_def split_key_all fold_found_one split: list.splits)

lemma all_splits_sound: "vs \<in> set (all_splits k key) \<Longrightarrow> length vs = Suc k \<and> concat vs = key"
  by (induction k arbitrary: key vs) (auto split: if_splits)

section \<open>Encodings are among the lengths tried\<close>

lemma escaped_len_append:
  "rest = [] \<or> hd rest \<noteq> 0xFF \<Longrightarrow> escaped_len (appendEscaped s @ rest) = Some (length (appendEscaped s))"
proof (induction s)
  case Nil
  then show ?case by (cases rest) auto
next
  case (Cons b s)
  obtain c r where "appendEscaped s @ rest = c # r" by (cases "appendEscaped s @ rest") (cases s, auto split: if_splits)
  with Cons show ?case by (cases "b = 0") auto
qed

lemma escapedEnd_append:
  "rest = [] \<or> hd rest \<noteq> 0xFF \<Longrightarrow>
   escapedEnd (p @ appendEscaped s @ rest) (length p) = Some (length p + length (appendEscaped s))"
  by (simp add: escapedEnd_def escaped_len_append)

definition num_shape :: "bytes \<Rightarrow> bool" where
  "num_shape b \<longleftrightarrow> (\<exists>c r. b = c # r \<and>
     (43 \<le> unat c \<and> unat c \<le> 50 \<and> length r = unat c - 42 \<or>
      27 \<le> unat c \<and> unat c \<le> 34 \<and> length r = 35 - unat c))"

lemma pos_key_shape: "num_shape (pos_key n)"
proof -
  have m: "1 \<le> minBytesForUint n" "minBytesForUint n \<le> 8" using minBytes_range by blast+
  have "43 \<le> 42 + minBytesForUint n" "42 + minBytesForUint n \<le> 50" "minBytesForUint n = 42 + minBytesForUint n - 42"
    using m by linarith+
  then show ?thesis unfolding num_shape_def pos_key_def
    by - (rule exI, rule exI, rule conjI, rule refl, rule disjI1, simp only: pos_key_hd length_be_bytes simp_thms)
qed

lemma neg_key_shape: "num_shape (neg_key n)"
proof -
  have m: "1 \<le> minBytesForUint n" "minBytesForUint n \<le> 8" using minBytes_range by blast+
  have "27 \<le> 35 - minBytesForUint n" "35 - minBytesForUint n \<le> 34" "minBytesForUint n = 35 - (35 - minBytesForUint n)"
    using m by linarith+
  then show ?thesis unfolding num_shape_def neg_key_def
    by - (rule exI, rule exI, rule conjI, rule refl, rule disjI2, simp only: neg_key_hd length_map length_be_bytes simp_thms)
qed

lemma number_lengths:
  assumes "num_shape b"
  shows "valueEncodingLengths (b @ t) = number_length (b @ t) (length b)"
proof -
  from assms obtain c r where b: "b = c # r"
    and c: "43 \<le> unat c \<and> unat c \<le> 50 \<and> length r = unat c - 42 \<or> 27 \<le> unat c \<and> unat c \<le> 34 \<and> length r = 35 - unat c"
    unfolding num_shape_def by blast
  have other: "c \<notin> {ctypeUndefined, ctypeMinKey, ctypeNull, ctypeNaN, ctypeNegInf, ctypeZero, ctypePosInf,
                ctypeObject, ctypeArray, ctypeBoolFalse, ctypeBoolTrue, ctypeMaxKey}"
    using c by (auto simp: ctype_defs)
  show ?thesis
  proof (cases "43 \<le> unat c")
    case True
    then have u: "unat c \<le> 50" "length r = unat c - 42" using c by auto
    have "ctypePosMedium \<le> c" "c \<le> ctypePosMedium + 7" "\<not> c \<le> ctypeNegMedium"
      using True u by (simp_all add: word_le_nat_alt ctype_defs)
    moreover have "unat (c - ctypePosMedium) = unat c - 43" using \<open>ctypePosMedium \<le> c\<close>
      by (simp add: unat_sub ctypePosMedium_def)
    moreover have "Suc (unat c - 43) = unat c - 42" using True by linarith
    ultimately show ?thesis using other u True unfolding b valueEncodingLengths_def
      by (simp del: insert_iff)
  next
    case False
    then have u: "27 \<le> unat c" "unat c \<le> 34" "length r = 35 - unat c" using c by auto
    have "ctypeNegInf + 1 \<le> c" "c \<le> ctypeNegMedium"
      using u by (simp_all add: word_le_nat_alt ctype_defs)
    moreover have "unat (ctypeNegMedium - c) = 34 - unat c" using \<open>c \<le> ctypeNegMedium\<close>
      by (simp add: unat_sub ctypeNegMedium_def)
    moreover have "Suc (34 - unat c) = 35 - unat c" using u by linarith
    ultimately show ?thesis using other u unfolding b valueEncodingLengths_def
      by (simp del: insert_iff)
  qed
qed

lemma number_length_in:
  assumes "num_shape b" "t = [] \<or> length t = 8"
  shows "length (b @ t) \<in> set (valueEncodingLengths (b @ t @ rest))"
  using assms(2) unfolding number_lengths [OF assms(1)] number_length_def by auto

lemma encodeInt64_shape: "encodeInt64 i = [ctypeZero] \<or> num_shape (encodeInt64 i)"
  unfolding encodeInt64_def encodePosInt_key encodeNegInt_def Let_def neg_key_def [symmetric]
  by (simp add: pos_key_shape neg_key_shape)

lemma encodeNegInt_shape: "num_shape (encodeNegInt i)"
  unfolding encodeNegInt_def Let_def neg_key_def [symmetric] by (rule neg_key_shape)

text \<open>The encoding of a number: one type byte, or an integer part and perhaps a fraction.\<close>

lemma encodeFloat64_shape:
  "encodeFloat64 C f \<in> {[ctypeNaN], [ctypeNegInf], [ctypePosInf], [ctypeZero]} \<or>
   (\<exists>b t. encodeFloat64 C f = b @ t \<and> num_shape b \<and> (t = [] \<or> length t = 8))"
proof -
  have int: "encodeInt64 i = [ctypeZero] \<or> (\<exists>b t. encodeInt64 i = b @ t \<and> num_shape b \<and> (t = [] \<or> length t = 8))" for i
    using encodeInt64_shape [of i] by (metis append_Nil2)
  have frac: "\<exists>b' t. appendFraction b g = b' @ t \<and> num_shape b' \<and> (t = [] \<or> length t = 8)" if "num_shape b" for b g
    using that unfolding appendFraction_def by (metis length_be_bytes)
  have pos: "\<exists>b' t. appendFraction (encodePosInt n) g = b' @ t \<and> num_shape b' \<and> (t = [] \<or> length t = 8)" for n g
    unfolding encodePosInt_key by (rule frac [OF pos_key_shape])
  show ?thesis
    unfolding encodeFloat64_def Let_def
    using int frac [OF encodeNegInt_shape] pos
    by (simp only: split: if_split) (simp del: ex_simps)
qed

text \<open>
  The values of the right form: an \<open>ObjectID\<close> is an array of twelve bytes, and regex options do
  not start with a byte that is not text.
\<close>

fun key_shape :: "bson \<Rightarrow> bool" where
  "key_shape (BObjectID oid) \<longleftrightarrow> length oid = 12"
| "key_shape (BRegex p q) \<longleftrightarrow> q = [] \<or> hd q \<noteq> CHR 0xFF"
| "key_shape _ \<longleftrightarrow> True"

lemma lengths_one: "c \<in> {ctypeUndefined, ctypeMinKey, ctypeNull, ctypeNaN, ctypeNegInf, ctypeZero, ctypePosInf,
    ctypeObject, ctypeArray, ctypeBoolFalse, ctypeBoolTrue, ctypeMaxKey} \<Longrightarrow> valueEncodingLengths (c # r) = [1]"
  unfolding valueEncodingLengths_def by (simp only: list.case if_True)

lemma length_encoded_number:
  assumes "b \<in> {[ctypeNaN], [ctypeNegInf], [ctypePosInf], [ctypeZero]} \<or>
   (\<exists>b' t. b = b' @ t \<and> num_shape b' \<and> (t = [] \<or> length t = 8))"
  shows "length b \<in> set (valueEncodingLengths (b @ rest))"
proof (cases "b \<in> {[ctypeNaN], [ctypeNegInf], [ctypePosInf], [ctypeZero]}")
  case True
  then obtain c where "b = [c]" "c \<in> {ctypeNaN, ctypeNegInf, ctypePosInf, ctypeZero}" by auto
  then show ?thesis by (auto simp: lengths_one)
next
  case False
  then obtain b' t where "b = b' @ t" "num_shape b'" "t = [] \<or> length t = 8" using assms by blast
  then show ?thesis using number_length_in [of b' t rest] by simp
qed

lemma length_encoded:
  assumes "key_shape v" "\<forall>t b. v \<noteq> BBinary t b" "rest = [] \<or> hd rest \<noteq> 0xFF"
  shows "length (EncodeValue C v) \<in> set (valueEncodingLengths (EncodeValue C v @ rest))"
proof (cases v)
  case (BDouble f)
  show ?thesis unfolding BDouble EncodeValue.simps by (rule length_encoded_number [OF encodeFloat64_shape])
next
  case (BInt32 i)
  show ?thesis unfolding BInt32 EncodeValue.simps
    by (rule length_encoded_number) (use encodeInt64_shape [of "scast i"] in \<open>auto intro: exI [of _ "[]"]\<close>)
next
  case (BInt64 i)
  show ?thesis unfolding BInt64 EncodeValue.simps
    by (rule length_encoded_number) (use encodeInt64_shape [of i] in \<open>auto intro: exI [of _ "[]"]\<close>)
next
  case (BString s)
  show ?thesis using escapedEnd_append [OF assms(3), of "[ctypeString]" "bytes_of s"] unfolding BString
    by (simp add: valueEncodingLengths_def encodeString_def encodeStringBytes_def ctype_defs)
next
  case (BRegex p q)
  have "of_char c = (255 :: nat) \<longleftrightarrow> c = CHR 0xFF" for c
    using of_char_eq_iff [of c "CHR 0xFF", where 'a = nat] by simp
  then have "appendEscaped (bytes_of q) @ rest = [] \<or> hd (appendEscaped (bytes_of q) @ rest) \<noteq> 0xFF"
    using assms(1) BRegex by (cases q) (auto simp: bytes_of_def word_unat_eq_iff)
  from escapedEnd_append [OF this, of "[ctypeRegex]" "bytes_of p"]
    escapedEnd_append [OF assms(3), of "ctypeRegex # appendEscaped (bytes_of p)" "bytes_of q"]
  show ?thesis unfolding BRegex by (simp add: valueEncodingLengths_def ctype_defs)
qed (use assms in \<open>simp_all add: valueEncodingLengths_def fixed_length_def ctype_defs\<close>)

lemma EncodeValue_hd: "EncodeValue C v \<noteq> [] \<and> hd (EncodeValue C v) \<noteq> 0xFF"
proof -
  have num: "b \<noteq> [] \<and> hd b \<noteq> 0xFF" if "b \<in> {[ctypeNaN], [ctypeNegInf], [ctypePosInf], [ctypeZero]} \<or>
     (\<exists>b' t. b = b' @ t \<and> num_shape b' \<and> (t = [] \<or> length t = 8))" for b
    using that by (auto simp: num_shape_def ctype_defs)
  show ?thesis
  proof (cases v)
    case (BDouble f)
    show ?thesis unfolding BDouble EncodeValue.simps by (rule num [OF encodeFloat64_shape])
  next
    case (BInt32 i)
    show ?thesis unfolding BInt32 EncodeValue.simps
      by (rule num) (use encodeInt64_shape [of "scast i"] in \<open>auto intro: exI [of _ "[]"]\<close>)
  next
    case (BInt64 i)
    show ?thesis unfolding BInt64 EncodeValue.simps
      by (rule num) (use encodeInt64_shape [of i] in \<open>auto intro: exI [of _ "[]"]\<close>)
  qed (simp_all add: ctype_defs encodeString_def encodeStringBytes_def)
qed

lemma fits_encoded: "key_shape v \<Longrightarrow> valueEncodingFits (EncodeValue C v)"
proof (cases "\<exists>t b. v = BBinary t b")
  case False
  assume "key_shape v"
  then have len: "length (EncodeValue C v) \<in> set (valueEncodingLengths (EncodeValue C v))"
    using length_encoded [of v "[]" C] False by simp
  have "valueEncodingLengths b = []" if "b \<noteq> []" "hd b = ctypeBinData" for b
    using that by (cases b) (simp_all add: valueEncodingLengths_def ctype_defs word_le_nat_alt)
  then have "hd (EncodeValue C v) \<noteq> ctypeBinData" using len EncodeValue_hd [of C v] by fastforce
  then show ?thesis using len by (simp add: valueEncodingFits_def)
qed (auto simp: valueEncodingFits_def)

lemma split_encoded:
  assumes "\<forall>v\<in>set vals. key_shape v" "key_shape w" "\<forall>v\<in>set vals. \<forall>t b. v \<noteq> BBinary t b"
  shows "map (EncodeValue C) (vals @ [w]) \<in> set (all_splits (length vals) (concat (map (EncodeValue C) (vals @ [w]))))"
  using assms
proof (induction vals)
  case Nil
  then show ?case by (simp add: fits_encoded)
next
  case (Cons v vals)
  define rest where "rest = concat (map (EncodeValue C) (vals @ [w]))"
  have "rest = [] \<or> hd rest \<noteq> 0xFF" using EncodeValue_hd [of C] unfolding rest_def by (cases vals) auto
  then have "length (EncodeValue C v) \<in> set (valueEncodingLengths (EncodeValue C v @ rest))"
    using Cons.prems by (intro length_encoded) auto
  moreover have "map (EncodeValue C) (vals @ [w]) \<in> set (all_splits (length vals) rest)"
    using Cons.IH Cons.prems unfolding rest_def by simp
  ultimately have "EncodeValue C v # map (EncodeValue C) (vals @ [w]) \<in> set (all_splits (Suc (length vals)) (EncodeValue C v @ rest))"
    by (auto intro!: bexI [of _ "length (EncodeValue C v)"])
  then show ?case unfolding rest_def by simp
qed

section \<open>Properties\<close>

text \<open>
  Property C28 (roundtrip). When \<open>SplitKeyValues\<close> succeeds on the key of a compound index, what it returns
  are the encodings of the values the key was built from, whatever ambiguity the optional
  fractions of numbers bring. No value before the last is binary data, and the values have the
  shape of \<open>key_shape\<close>.
\<close>

theorem SplitKeyValues_encoded:
  assumes "list_all key_shape (vals @ [w])" "list_all (\<lambda>v. \<forall>t b. v \<noteq> BBinary t b) vals"
    and "SplitKeyValues (concat (map (EncodeValue C) (vals @ [w]))) (Suc (length vals)) = (found, True)"
  shows "found = map (EncodeValue C) (vals @ [w])"
proof -
  have "map (EncodeValue C) (vals @ [w]) \<in> set (all_splits (length vals) (concat (map (EncodeValue C) (vals @ [w]))))"
    using assms(1,2) by (intro split_encoded) (auto simp: list_all_iff)
  then show ?thesis using assms(3) unfolding SplitKeyValues_unique by simp
qed

text \<open>
  With binary data before the last value the only split can be a wrong one, and it is reported as
  the right one: the bytes of the binary value are read as the fraction of the number before it
  and a number of their own.
\<close>

lemma SplitKeyValues_binary_inside:
  "SplitKeyValues (concat (map (EncodeValue sample_conversions) [BInt32 1, BBinary 0 [1, 0, 0, 0, 0, 0, 43, 9], BInt32 7])) 3 =
     ([[43, 1, 90, 0, 1, 0, 0, 0, 0, 0], [43, 9], [43, 7]], True) \<and>
   map (EncodeValue sample_conversions) [BInt32 1, BBinary 0 [1, 0, 0, 0, 0, 0, 43, 9], BInt32 7] =
     [[43, 1], [90, 0, 1, 0, 0, 0, 0, 0, 43, 9], [43, 7]]"
  by (rule conjI; code_simp)

theorem SplitKeyValues_encoded_witness:
  "SplitKeyValues (concat (map (EncodeValue sample_conversions) [BString ''a'', BInt32 7])) 2 =
    (map (EncodeValue sample_conversions) [BString ''a'', BInt32 7], True)"
proof -
  have run: "SplitKeyValues (concat (map (EncodeValue sample_conversions) ([BString ''a''] @ [BInt32 7]))) (Suc (length [BString ''a''])) =
      ([[0x3C, 0x61, 0x00], [0x2B, 0x07]], True)"
    by code_simp
  have shape: "list_all key_shape ([BString ''a''] @ [BInt32 7])"
    "list_all (\<lambda>v. \<forall>t b. v \<noteq> BBinary t b) [BString ''a'']" by simp_all
  show ?thesis using run SplitKeyValues_encoded [OF shape run] by (simp add: numeral_2_eq_2)
qed

text \<open>
  \<open>SplitKeyValues\<close> succeeds exactly when there is one way to cut the key into \<open>n\<close>
  encodings, and then returns it; the pieces concatenate to the key.
\<close>

theorem SplitKeyValues_one_way:
  "(SplitKeyValues key (Suc k) = (vs, True) \<longleftrightarrow> all_splits k key = [vs]) \<and>
   (all_splits k key = [vs] \<longrightarrow> length vs = Suc k \<and> concat vs = key)"
  using SplitKeyValues_unique [of key k vs] all_splits_sound [of vs k key] by auto

theorem SplitKeyValues_one_way_witness:
  "SplitKeyValues [0x14, 0x2B, 0x07] 2 = ([[0x14], [0x2B, 0x07]], True) \<and>
   length [[0x14], [0x2B, 0x07 :: byte]] = Suc 1 \<and> concat [[0x14], [0x2B, 0x07 :: byte]] = [0x14, 0x2B, 0x07]"
proof -
  have "all_splits 1 [0x14, 0x2B, 0x07] = [[[0x14], [0x2B, 0x07]]]" by code_simp
  moreover have "Suc 1 = 2" by simp
  ultimately show ?thesis
    using SplitKeyValues_one_way [of "[0x14, 0x2B, 0x07]" 1 "[[0x14], [0x2B, 0x07]]"] by metis
qed

end
