(* ===== verification/Index.thy ===== *)
theory Index
  imports KeySplit
begin

text \<open>
  The secondary index of \<open>internal/index/index.go\<close>: entry keys, insertion and deletion, range
  scans with their caps, the uniqueness probe and the iterator over primary ids. The ordered map
  that stores the entries, \<open>prolly.Map\<close> of the Dolt library, is a parameter, the record
  \<open>prolly\<close>; \<open>prolly_ok\<close> states its documented behaviour on a store that does not fail.
\<close>

declare CompareOrder.simps [simp del]

section \<open>The ordered map\<close>

text \<open>
  Key tuples have one byte-string field, built by \<open>pr_key\<close> (the tuple builder) and read by
  \<open>pr_bytes\<close> (\<open>idxKeyDesc.GetBytes\<close>). An iterator is what its \<open>Next\<close> yields before the
  end, and whether an error, instead of \<open>io.EOF\<close>, ends it. Entries carry no payload.
\<close>

record ('m, 'k) prolly =
  pr_key :: "bytes \<Rightarrow> (unit, 'k) result"
  pr_bytes :: "'k \<Rightarrow> bytes option"
  pr_put :: "'m \<Rightarrow> 'k \<Rightarrow> (unit, 'm) result"
  pr_delete :: "'m \<Rightarrow> 'k \<Rightarrow> (unit, 'm) result"
  pr_range :: "'m \<Rightarrow> 'k option \<Rightarrow> 'k option \<Rightarrow> (unit, 'k list \<times> bool) result"
  pr_ordinal_range :: "'m \<Rightarrow> nat \<Rightarrow> nat \<Rightarrow> (unit, 'k list \<times> bool) result"
  pr_ordinal :: "'m \<Rightarrow> 'k \<Rightarrow> (unit, nat) result"
  pr_count :: "'m \<Rightarrow> (unit, nat) result"

section \<open>Entries\<close>

definition discriminator :: byte where "discriminator = 0x04"

definition BuildSecondaryKey :: "conversions \<Rightarrow> bson list \<Rightarrow> bytes \<Rightarrow> bytes" where
  "BuildSecondaryKey C fieldValues primaryIDBytes =
     concat (map (EncodeValue C) fieldValues) @ discriminator # primaryIDBytes"

definition BuildIndexEntry :: "('m, 'k) prolly \<Rightarrow> conversions \<Rightarrow> bson list \<Rightarrow> bytes \<Rightarrow> (unit, 'k) result" where
  "BuildIndexEntry P C fieldValues primaryIDBytes = pr_key P (BuildSecondaryKey C fieldValues primaryIDBytes)"

definition InsertEntry :: "('m, 'k) prolly \<Rightarrow> conversions \<Rightarrow> 'm \<Rightarrow> bson list \<Rightarrow> bytes \<Rightarrow> (unit, 'm) result" where
  "InsertEntry P C mut fieldValues primaryIDBytes =
     bind_result (BuildIndexEntry P C fieldValues primaryIDBytes) (\<lambda>keyTuple. pr_put P mut keyTuple)"

definition DeleteEntry :: "('m, 'k) prolly \<Rightarrow> conversions \<Rightarrow> 'm \<Rightarrow> bson list \<Rightarrow> bytes \<Rightarrow> (unit, 'm) result" where
  "DeleteEntry P C mut fieldValues primaryIDBytes =
     bind_result (BuildIndexEntry P C fieldValues primaryIDBytes) (\<lambda>keyTuple. pr_delete P mut keyTuple)"

section \<open>Bounds\<close>

definition LowerBoundInclusive :: "conversions \<Rightarrow> bson \<Rightarrow> bytes" where
  "LowerBoundInclusive C fieldValue = EncodeValue C fieldValue @ [discriminator]"

definition LowerBoundExclusive :: "conversions \<Rightarrow> bson \<Rightarrow> bytes" where
  "LowerBoundExclusive C fieldValue = EncodeValue C fieldValue @ [discriminator + 1]"

definition UpperBoundExclusive :: "conversions \<Rightarrow> bson \<Rightarrow> bytes" where
  "UpperBoundExclusive C fieldValue = EncodeValue C fieldValue @ [discriminator]"

definition UpperBoundInclusive :: "conversions \<Rightarrow> bson \<Rightarrow> bytes" where
  "UpperBoundInclusive C fieldValue = EncodeValue C fieldValue @ [discriminator + 1]"

definition EqualityProbeBounds :: "conversions \<Rightarrow> bson list \<Rightarrow> bytes \<times> bytes" where
  "EqualityProbeBounds C fieldValues =
     (let prefix = BuildSecondaryKey C fieldValues [] in (prefix, butlast prefix @ [discriminator + 1]))"

definition boundTuple :: "('m, 'k) prolly \<Rightarrow> bytes \<Rightarrow> (unit, 'k option) result" where
  "boundTuple P key = (if key = [] then Ok None else bind_result (pr_key P key) (\<lambda>t. Ok (Some t)))"

section \<open>Range scans\<close>

definition primaryIDLen :: nat where "primaryIDLen = 20"

text \<open>The loop of \<open>rangeLookupCapped\<close> over what the iterator yields.\<close>

fun lookup_loop :: "('m, 'k) prolly \<Rightarrow> int \<Rightarrow> bool \<Rightarrow> 'k list \<Rightarrow> bool \<Rightarrow> bytes list \<Rightarrow> bytes list \<Rightarrow>
    (unit, bytes list \<times> bytes list \<times> bool) result" where
  "lookup_loop P maxResults keepValues [] failed results vals = (if failed then Err () else Ok (results, vals, False))"
| "lookup_loop P maxResults keepValues (k # ks) failed results vals =
     (case pr_bytes P k of None \<Rightarrow> lookup_loop P maxResults keepValues ks failed results vals
      | Some compositeKey \<Rightarrow>
        if length compositeKey < primaryIDLen + 1 then lookup_loop P maxResults keepValues ks failed results vals
        else let idStart = length compositeKey - primaryIDLen in
          if compositeKey ! (idStart - 1) \<noteq> discriminator then lookup_loop P maxResults keepValues ks failed results vals
          else let results = results @ [drop idStart compositeKey];
                   vals = (if keepValues then vals @ [take (idStart - 1) compositeKey] else vals) in
            if maxResults \<ge> 0 \<and> int (length results) > maxResults then Ok ([], [], True)
            else lookup_loop P maxResults keepValues ks failed results vals)"

definition rangeLookupCapped :: "('m, 'k) prolly \<Rightarrow> 'm \<Rightarrow> bytes \<Rightarrow> bytes \<Rightarrow> int \<Rightarrow> bool \<Rightarrow>
    (unit, bytes list \<times> bytes list \<times> bool) result" where
  "rangeLookupCapped P m startKey stopKey maxResults keepValues =
     bind_result (boundTuple P startKey) (\<lambda>startTup.
     bind_result (boundTuple P stopKey) (\<lambda>stopTup.
     bind_result (pr_range P m startTup stopTup) (\<lambda>(ks, failed).
       lookup_loop P maxResults keepValues ks failed [] [])))"

definition RangeLookup :: "('m, 'k) prolly \<Rightarrow> 'm \<Rightarrow> bytes \<Rightarrow> bytes \<Rightarrow> (unit, bytes list) result" where
  "RangeLookup P m startKey stopKey =
     bind_result (rangeLookupCapped P m startKey stopKey (- 1) False) (\<lambda>(results, _, _). Ok results)"

definition RangeLookupCapped :: "('m, 'k) prolly \<Rightarrow> 'm \<Rightarrow> bytes \<Rightarrow> bytes \<Rightarrow> int \<Rightarrow> (unit, bytes list \<times> bool) result" where
  "RangeLookupCapped P m startKey stopKey maxResults =
     bind_result (rangeLookupCapped P m startKey stopKey maxResults False) (\<lambda>(results, _, exceeded). Ok (results, exceeded))"

definition RangeEntriesCapped :: "('m, 'k) prolly \<Rightarrow> 'm \<Rightarrow> bytes \<Rightarrow> bytes \<Rightarrow> int \<Rightarrow>
    (unit, bytes list \<times> bytes list \<times> bool) result" where
  "RangeEntriesCapped P m startKey stopKey maxResults = rangeLookupCapped P m startKey stopKey maxResults True"

definition EqualityLookup :: "('m, 'k) prolly \<Rightarrow> conversions \<Rightarrow> 'm \<Rightarrow> bson \<Rightarrow> (unit, bytes list) result" where
  "EqualityLookup P C m fieldValue =
     RangeLookup P m (EncodeValue C fieldValue @ [discriminator]) (EncodeValue C fieldValue @ [discriminator + 1])"

definition UniqueConflict :: "('m, 'k) prolly \<Rightarrow> conversions \<Rightarrow> 'm \<Rightarrow> bson list \<Rightarrow> bytes \<Rightarrow> (unit, bool) result" where
  "UniqueConflict P C m fieldValues selfID =
     (case EqualityProbeBounds C fieldValues of (start, stop) \<Rightarrow>
        bind_result (RangeLookupCapped P m start stop 2) (\<lambda>(ids, _). Ok (list_ex (\<lambda>id. id \<noteq> selfID) ids)))"

definition RangeCount :: "('m, 'k) prolly \<Rightarrow> 'm \<Rightarrow> bytes \<Rightarrow> bytes \<Rightarrow> (unit, nat) result" where
  "RangeCount P m startKey stopKey =
     bind_result (boundTuple P startKey) (\<lambda>startTup.
     bind_result (boundTuple P stopKey) (\<lambda>stopTup.
     bind_result (pr_range P m startTup stopTup) (\<lambda>(ks, failed). if failed then Err () else Ok (length ks))))"

section \<open>The iterator over primary ids\<close>

definition entryPrimaryID :: "('m, 'k) prolly \<Rightarrow> 'k \<Rightarrow> bytes option" where
  "entryPrimaryID P k =
     (case pr_bytes P k of None \<Rightarrow> None
      | Some compositeKey \<Rightarrow>
        if length compositeKey < primaryIDLen + 1 then None
        else let idStart = length compositeKey - primaryIDLen in
          if compositeKey ! (idStart - 1) \<noteq> discriminator then None else Some (drop idStart compositeKey))"

record ('m, 'k) RangeIDIter =
  it_m :: 'm
  it_reverse :: bool
  it_entries :: "'k list \<times> bool"
  it_lo :: nat
  it_hi :: nat
  it_chunk :: nat
  it_buffered :: "bytes list"

definition NewRangeIDIter :: "('m, 'k) prolly \<Rightarrow> 'm \<Rightarrow> bytes \<Rightarrow> bytes \<Rightarrow> bool \<Rightarrow> (unit, ('m, 'k) RangeIDIter) result" where
  "NewRangeIDIter P m startKey stopKey reverse =
     bind_result (boundTuple P startKey) (\<lambda>startTup.
     bind_result (boundTuple P stopKey) (\<lambda>stopTup.
       let it = \<lparr>it_m = m, it_reverse = reverse, it_entries = ([], False), it_lo = 0, it_hi = 0,
                 it_chunk = 0, it_buffered = []\<rparr> in
       if \<not> reverse then bind_result (pr_range P m startTup stopTup) (\<lambda>es. Ok (it\<lparr>it_entries := es\<rparr>))
       else bind_result (case startTup of None \<Rightarrow> Ok 0 | Some t \<Rightarrow> pr_ordinal P m t) (\<lambda>lo.
            bind_result (case stopTup of None \<Rightarrow> pr_count P m | Some t \<Rightarrow> pr_ordinal P m t) (\<lambda>hi.
              Ok (it\<lparr>it_lo := lo, it_hi := hi, it_chunk := 16\<rparr>)))))"

definition fillBackward :: "('m, 'k) prolly \<Rightarrow> ('m, 'k) RangeIDIter \<Rightarrow> (unit, ('m, 'k) RangeIDIter) result" where
  "fillBackward P it =
     (let from = (if it_hi it - it_lo it > it_chunk it then it_hi it - it_chunk it else it_lo it) in
      bind_result (pr_ordinal_range P (it_m it) from (it_hi it)) (\<lambda>(ks, failed).
        if failed then Err ()
        else Ok (it\<lparr>it_buffered := it_buffered it @ List.map_filter (entryPrimaryID P) ks,
                    it_hi := from, it_chunk := min (it_chunk it * 2) 1024\<rparr>)))"

text \<open>
  \<open>Next\<close>: backward it fills the buffer until it has an id or the range is used up. The chunk
  starts at 16 and only grows (\<open>backward_chunk\<close> below), so every turn lowers \<open>it_hi\<close>; the
  test for a zero chunk, which the code does not have, is never met. Forward it skips what is
  no entry.
\<close>

fun next_forward :: "('m, 'k) prolly \<Rightarrow> 'k list \<Rightarrow> bool \<Rightarrow> (unit, bytes option \<times> 'k list) result" where
  "next_forward P [] failed = (if failed then Err () else Ok (None, []))"
| "next_forward P (k # ks) failed =
     (case entryPrimaryID P k of Some pid \<Rightarrow> Ok (Some pid, ks) | None \<Rightarrow> next_forward P ks failed)"

function next_backward :: "('m, 'k) prolly \<Rightarrow> ('m, 'k) RangeIDIter \<Rightarrow> (unit, bytes option \<times> ('m, 'k) RangeIDIter) result" where
  "next_backward P it =
     (if it_buffered it \<noteq> [] then Ok (Some (last (it_buffered it)), it\<lparr>it_buffered := butlast (it_buffered it)\<rparr>)
      else if it_hi it \<le> it_lo it \<or> it_chunk it = 0 then Ok (None, it)
      else case fillBackward P it of Ok it' \<Rightarrow> next_backward P it' | Err e \<Rightarrow> Err e | Panic \<Rightarrow> Panic)"
  by pat_completeness auto
termination
  by (relation "measure (\<lambda>(P, it). it_hi it)")
    (auto simp: fillBackward_def Let_def bind_result_Ok_iff split: prod.splits if_splits)

declare next_backward.simps [simp del]

definition Next :: "('m, 'k) prolly \<Rightarrow> ('m, 'k) RangeIDIter \<Rightarrow> (unit, bytes option \<times> ('m, 'k) RangeIDIter) result" where
  "Next P it =
     (if it_reverse it then next_backward P it
      else bind_result (next_forward P (fst (it_entries it)) (snd (it_entries it))) (\<lambda>(r, ks).
        Ok (r, it\<lparr>it_entries := (ks, snd (it_entries it))\<rparr>)))"

section \<open>What is asked of the ordered map\<close>

definition in_bounds :: "bytes \<Rightarrow> bytes \<Rightarrow> bytes \<Rightarrow> bool" where
  "in_bounds lo hi e \<longleftrightarrow> (lo = [] \<or> bytes_compare lo e \<noteq> Greater) \<and> (hi = [] \<or> bytes_compare e hi = Less)"

definition ordinal :: "bytes list \<Rightarrow> bytes \<Rightarrow> nat" where
  "ordinal es b = length (filter (\<lambda>e. bytes_compare e b = Less) es)"

text \<open>
  \<open>entries m\<close> are the keys of a map, in byte order. No operation fails; tuples read back what
  they were built from; \<open>IterKeyRange\<close> yields the keys from the start on and before the stop,
  a missing bound being open; ordinals count the keys before a key.
\<close>

definition prolly_ok :: "('m, 'k) prolly \<Rightarrow> ('m \<Rightarrow> bytes list) \<Rightarrow> bool" where
  "prolly_ok P entries \<longleftrightarrow>
     (\<forall>b. \<exists>k. pr_key P b = Ok k \<and> pr_bytes P k = Some b) \<and>
     (\<forall>m. sorted_wrt (\<lambda>a b. bytes_compare a b = Less) (entries m)) \<and>
     (\<forall>m k b. pr_bytes P k = Some b \<longrightarrow> (\<exists>m'. pr_put P m k = Ok m' \<and> set (entries m') = insert b (set (entries m)))) \<and>
     (\<forall>m k b. pr_bytes P k = Some b \<longrightarrow> (\<exists>m'. pr_delete P m k = Ok m' \<and> set (entries m') = set (entries m) - {b})) \<and>
     (\<forall>m lo hi. \<exists>ks. pr_range P m lo hi = Ok (ks, False) \<and> map (pr_bytes P) ks = map Some (filter (\<lambda>e.
        (case lo of None \<Rightarrow> True | Some k \<Rightarrow> \<exists>b. pr_bytes P k = Some b \<and> bytes_compare b e \<noteq> Greater) \<and>
        (case hi of None \<Rightarrow> True | Some k \<Rightarrow> \<exists>b. pr_bytes P k = Some b \<and> bytes_compare e b = Less)) (entries m))) \<and>
     (\<forall>m i j. \<exists>ks. pr_ordinal_range P m i j = Ok (ks, False) \<and>
        map (pr_bytes P) ks = map Some (take (j - i) (drop i (entries m)))) \<and>
     (\<forall>m k b. pr_bytes P k = Some b \<longrightarrow> pr_ordinal P m k = Ok (ordinal (entries m) b)) \<and>
     (\<forall>m. pr_count P m = Ok (length (entries m)))"

lemma prolly_okD:
  assumes "prolly_ok P entries"
  shows prolly_key: "\<forall>b. \<exists>k. pr_key P b = Ok k \<and> pr_bytes P k = Some b"
    and prolly_sorted: "\<forall>m. sorted_wrt (\<lambda>a b. bytes_compare a b = Less) (entries m)"
    and prolly_put: "\<forall>m k b. pr_bytes P k = Some b \<longrightarrow> (\<exists>m'. pr_put P m k = Ok m' \<and> set (entries m') = insert b (set (entries m)))"
    and prolly_delete: "\<forall>m k b. pr_bytes P k = Some b \<longrightarrow> (\<exists>m'. pr_delete P m k = Ok m' \<and> set (entries m') = set (entries m) - {b})"
    and prolly_range: "\<forall>m lo hi. \<exists>ks. pr_range P m lo hi = Ok (ks, False) \<and> map (pr_bytes P) ks = map Some (filter (\<lambda>e.
        (case lo of None \<Rightarrow> True | Some k \<Rightarrow> \<exists>b. pr_bytes P k = Some b \<and> bytes_compare b e \<noteq> Greater) \<and>
        (case hi of None \<Rightarrow> True | Some k \<Rightarrow> \<exists>b. pr_bytes P k = Some b \<and> bytes_compare e b = Less)) (entries m))"
    and prolly_ordinal_range: "\<forall>m i j. \<exists>ks. pr_ordinal_range P m i j = Ok (ks, False) \<and>
        map (pr_bytes P) ks = map Some (take (j - i) (drop i (entries m)))"
    and prolly_ordinal: "\<forall>m k b. pr_bytes P k = Some b \<longrightarrow> pr_ordinal P m k = Ok (ordinal (entries m) b)"
    and prolly_count: "\<forall>m. pr_count P m = Ok (length (entries m))"
  using assms [unfolded prolly_ok_def] by - ((elim conjE, assumption)+)

text \<open>What a scan makes of an entry: the encoded values and the id, if it has the form of one.\<close>

definition key_parts :: "bytes \<Rightarrow> (bytes \<times> bytes) option" where
  "key_parts b = (if length b < primaryIDLen + 1 then None
     else let idStart = length b - primaryIDLen in
       if b ! (idStart - 1) \<noteq> discriminator then None else Some (take (idStart - 1) b, drop idStart b))"

lemma key_parts_entry: "length pid = primaryIDLen \<Longrightarrow> key_parts (vs @ discriminator # pid) = Some (vs, pid)"
  by (simp add: key_parts_def nth_append)

lemma entryPrimaryID_parts:
  "entryPrimaryID P k = (case pr_bytes P k of None \<Rightarrow> None | Some b \<Rightarrow> map_option snd (key_parts b))"
  by (simp add: entryPrimaryID_def key_parts_def Let_def split: option.split)

lemma lookup_loop_step:
  "lookup_loop P maxResults keep (k # ks) failed results vals =
     (case Option.bind (pr_bytes P k) key_parts of None \<Rightarrow> lookup_loop P maxResults keep ks failed results vals
      | Some (v, pid) \<Rightarrow>
          if maxResults \<ge> 0 \<and> int (length results + 1) > maxResults then Ok ([], [], True)
          else lookup_loop P maxResults keep ks failed (results @ [pid]) (if keep then vals @ [v] else vals))"
  by (auto simp: key_parts_def Let_def split: option.split)

declare lookup_loop.simps(2) [simp del]

lemma lookup_loop_all:
  assumes "map (pr_bytes P) ks = map Some bs" "maxResults < 0 \<or> int (length results) \<le> maxResults"
  shows "lookup_loop P maxResults keep ks False results vals =
    (let parts = List.map_filter key_parts bs in
     if maxResults < 0 \<or> int (length results + length parts) \<le> maxResults
     then Ok (results @ map snd parts, if keep then vals @ map fst parts else vals, False) else Ok ([], [], True))"
  using assms
proof (induction ks arbitrary: bs results vals)
  case Nil
  then show ?case by simp
next
  case (Cons k ks)
  then obtain b bs' where bs: "bs = b # bs'" "pr_bytes P k = Some b" "map (pr_bytes P) ks = map Some bs'"
    by (cases bs) auto
  show ?case
  proof (cases "key_parts b")
    case None
    then show ?thesis using Cons.IH [OF bs(3) Cons.prems(2)] bs by (simp add: lookup_loop_step)
  next
    case (Some q)
    obtain v pid where q: "q = (v, pid)" by (cases q)
    show ?thesis
    proof (cases "maxResults \<ge> 0 \<and> int (length results + 1) > maxResults")
      case True
      then show ?thesis using Some bs q by (simp add: lookup_loop_step)
    next
      case False
      then have "maxResults < 0 \<or> int (length (results @ [pid])) \<le> maxResults" by auto
      from Cons.IH [OF bs(3) this] show ?thesis using Some bs q False
        by (auto simp: lookup_loop_step Let_def)
    qed
  qed
qed

section \<open>Scans\<close>

lemma boundTuple_ok:
  assumes "prolly_ok P entries"
  shows "\<exists>t. boundTuple P b = Ok t \<and> (case t of None \<Rightarrow> b = [] | Some k \<Rightarrow> b \<noteq> [] \<and> pr_bytes P k = Some b)"
proof -
  obtain k where "pr_key P b = Ok k" "pr_bytes P k = Some b" using prolly_key [OF assms] by blast
  then show ?thesis by (simp add: boundTuple_def)
qed

lemma scan_ok:
  assumes "prolly_ok P entries"
  shows "\<exists>s t ks. boundTuple P lo = Ok s \<and> boundTuple P hi = Ok t \<and> pr_range P m s t = Ok (ks, False) \<and>
    map (pr_bytes P) ks = map Some (filter (in_bounds lo hi) (entries m))"
proof -
  obtain s t where st: "boundTuple P lo = Ok s" "case s of None \<Rightarrow> lo = [] | Some k \<Rightarrow> lo \<noteq> [] \<and> pr_bytes P k = Some lo"
    "boundTuple P hi = Ok t" "case t of None \<Rightarrow> hi = [] | Some k \<Rightarrow> hi \<noteq> [] \<and> pr_bytes P k = Some hi"
    using boundTuple_ok [OF assms, of lo] boundTuple_ok [OF assms, of hi] by blast
  have "(case s of None \<Rightarrow> True | Some k \<Rightarrow> \<exists>b. pr_bytes P k = Some b \<and> bytes_compare b e \<noteq> Greater) \<longleftrightarrow>
      lo = [] \<or> bytes_compare lo e \<noteq> Greater"
    "(case t of None \<Rightarrow> True | Some k \<Rightarrow> \<exists>b. pr_bytes P k = Some b \<and> bytes_compare e b = Less) \<longleftrightarrow>
      hi = [] \<or> bytes_compare e hi = Less" for e
    using st by (auto split: option.splits)
  then show ?thesis using prolly_range [OF assms, rule_format, of m s t] st(1,3) by (auto simp: in_bounds_def [abs_def])
qed

lemma rangeLookupCapped_ok:
  assumes "prolly_ok P entries"
  shows "rangeLookupCapped P m lo hi maxResults keep =
    (let parts = List.map_filter key_parts (filter (in_bounds lo hi) (entries m)) in
     if maxResults < 0 \<or> int (length parts) \<le> maxResults
     then Ok (map snd parts, if keep then map fst parts else [], False) else Ok ([], [], True))"
proof -
  obtain s t ks where "boundTuple P lo = Ok s" "boundTuple P hi = Ok t" "pr_range P m s t = Ok (ks, False)"
    and ks: "map (pr_bytes P) ks = map Some (filter (in_bounds lo hi) (entries m))"
    using scan_ok [OF assms] by blast
  moreover have "maxResults < 0 \<or> int (length ([] :: bytes list)) \<le> maxResults" by auto
  note lookup_loop_all [OF ks this, of keep "[]"]
  ultimately show ?thesis by (simp add: rangeLookupCapped_def Let_def)
qed

lemma RangeLookup_ok:
  assumes "prolly_ok P entries"
  shows "RangeLookup P m lo hi = Ok (map snd (List.map_filter key_parts (filter (in_bounds lo hi) (entries m))))"
  by (simp add: RangeLookup_def rangeLookupCapped_ok [OF assms])

section \<open>An index on one field\<close>

text \<open>
  \<open>indexed\<close>: the map holds exactly the entries of the pairs of a value and a primary id in
  \<open>E\<close>, the values having exact keys and the ids twenty bytes.
\<close>

definition indexed :: "conversions \<Rightarrow> bytes list \<Rightarrow> (bson \<times> bytes) set \<Rightarrow> bool" where
  "indexed C es E \<longleftrightarrow> set es = (\<lambda>(v, pid). BuildSecondaryKey C [v] pid) ` E \<and>
     (\<forall>(v, pid)\<in>E. key_exact v \<and> length pid = primaryIDLen)"

lemma entry_key: "BuildSecondaryKey C [v] pid = EncodeValue C v @ discriminator # pid"
  by (simp add: BuildSecondaryKey_def)

lemma entry_compare:
  assumes "key_exact v" "key_exact x"
  shows "bytes_compare (EncodeValue C v @ [discriminator]) (BuildSecondaryKey C [x] pid) \<noteq> Greater \<longleftrightarrow> order_cmp D x v \<noteq> Less"
    and "bytes_compare (EncodeValue C v @ [discriminator + 1]) (BuildSecondaryKey C [x] pid) \<noteq> Greater \<longleftrightarrow> order_cmp D x v = Greater"
    and "bytes_compare (BuildSecondaryKey C [x] pid) (EncodeValue C v @ [discriminator]) = Less \<longleftrightarrow> order_cmp D x v = Less"
    and "bytes_compare (BuildSecondaryKey C [x] pid) (EncodeValue C v @ [discriminator + 1]) = Less \<longleftrightarrow> order_cmp D x v \<noteq> Greater"
proof -
  have low: "hd (discriminator # pid) \<le> 5" "hd [discriminator] \<le> 5" "hd [discriminator + 1] \<le> 5"
    by (simp_all add: discriminator_def)
  have inv: "order_cmp D v x = compareInvert (order_cmp D x v)" using order_cmp_invert [OF assms(2,1)] .
  have start: "bytes_compare [discriminator] (discriminator # pid) \<noteq> Greater" by (cases pid) simp_all
  have stop: "bytes_compare (discriminator # pid) [discriminator] \<noteq> Less" by (cases pid) simp_all
  have beyond: "bytes_compare [discriminator + 1] (discriminator # pid) = Greater"
    "bytes_compare (discriminator # pid) [discriminator + 1] = Less" by (simp_all add: discriminator_def)
  note cmp = key_string.suffixed_compare [where C = C and D = D]
  show "bytes_compare (EncodeValue C v @ [discriminator]) (BuildSecondaryKey C [x] pid) \<noteq> Greater \<longleftrightarrow> order_cmp D x v \<noteq> Less"
    using cmp [OF assms low(2,1)] inv start unfolding entry_key by (cases "order_cmp D x v") simp_all
  show "bytes_compare (EncodeValue C v @ [discriminator + 1]) (BuildSecondaryKey C [x] pid) \<noteq> Greater \<longleftrightarrow> order_cmp D x v = Greater"
    using cmp [OF assms low(3,1)] inv beyond unfolding entry_key by (cases "order_cmp D x v") simp_all
  show "bytes_compare (BuildSecondaryKey C [x] pid) (EncodeValue C v @ [discriminator]) = Less \<longleftrightarrow> order_cmp D x v = Less"
    using cmp [OF assms(2,1) low(1,2)] stop unfolding entry_key by (cases "order_cmp D x v") simp_all
  show "bytes_compare (BuildSecondaryKey C [x] pid) (EncodeValue C v @ [discriminator + 1]) = Less \<longleftrightarrow> order_cmp D x v \<noteq> Greater"
    using cmp [OF assms(2,1) low(1,3)] beyond unfolding entry_key by (cases "order_cmp D x v") simp_all
qed

lemma indexed_parts:
  assumes "indexed C es E"
  shows "set (map snd (List.map_filter key_parts (filter (in_bounds lo hi) es))) =
    {pid. \<exists>v. (v, pid) \<in> E \<and> in_bounds lo hi (BuildSecondaryKey C [v] pid)}"
proof -
  have parts: "key_parts (BuildSecondaryKey C [v] pid) = Some (EncodeValue C v, pid)" if "(v, pid) \<in> E" for v pid
    using assms that unfolding indexed_def entry_key by (intro key_parts_entry) auto
  have es: "e \<in> set es \<longleftrightarrow> (\<exists>v pid. (v, pid) \<in> E \<and> e = BuildSecondaryKey C [v] pid)" for e
    using assms unfolding indexed_def by auto
  show ?thesis
    by (auto simp: List.map_filter_def es parts) (force simp: es parts)+
qed

lemma range_scan:
  assumes "prolly_ok P entries" "indexed C (entries m) E" "key_exact lo" "key_exact hi"
  shows "\<exists>ids. RangeLookup P m (if a then LowerBoundInclusive C lo else LowerBoundExclusive C lo)
      (if b then UpperBoundInclusive C hi else UpperBoundExclusive C hi) = Ok ids \<and>
    set ids = {pid. \<exists>v. (v, pid) \<in> E \<and> (if a then order_cmp D v lo \<noteq> Less else order_cmp D v lo = Greater) \<and>
      (if b then order_cmp D v hi \<noteq> Greater else order_cmp D v hi = Less)}"
proof (intro exI conjI, rule RangeLookup_ok [OF assms(1)])
  have exact: "key_exact v" if "(v, pid) \<in> E" for v pid using assms(2) that unfolding indexed_def by auto
  have "in_bounds (if a then LowerBoundInclusive C lo else LowerBoundExclusive C lo)
      (if b then UpperBoundInclusive C hi else UpperBoundExclusive C hi) (BuildSecondaryKey C [v] pid) \<longleftrightarrow>
    (if a then order_cmp D v lo \<noteq> Less else order_cmp D v lo = Greater) \<and>
      (if b then order_cmp D v hi \<noteq> Greater else order_cmp D v hi = Less)" if "(v, pid) \<in> E" for v pid
    unfolding in_bounds_def LowerBoundInclusive_def LowerBoundExclusive_def UpperBoundInclusive_def UpperBoundExclusive_def
    using entry_compare [OF assms(3) exact [OF that], of C pid D] entry_compare [OF assms(4) exact [OF that], of C pid D]
    by (cases a; cases b; simp del: CompareOrder.simps)
  then show "set (map snd (List.map_filter key_parts (filter (in_bounds
      (if a then LowerBoundInclusive C lo else LowerBoundExclusive C lo)
      (if b then UpperBoundInclusive C hi else UpperBoundExclusive C hi)) (entries m)))) =
    {pid. \<exists>v. (v, pid) \<in> E \<and> (if a then order_cmp D v lo \<noteq> Less else order_cmp D v lo = Greater) \<and>
      (if b then order_cmp D v hi \<noteq> Greater else order_cmp D v hi = Less)}"
    unfolding indexed_parts [OF assms(2)] by blast
qed

lemma entry_key_inject:
  assumes "key_exact v" "key_exact w" "length q = length pid"
  shows "BuildSecondaryKey C [w] q = BuildSecondaryKey C [v] pid \<longleftrightarrow> order_cmp D w v = Equal \<and> q = pid"
proof -
  have "EncodeValue C w = EncodeValue C v \<longleftrightarrow> order_cmp D w v = Equal"
    using key_string.enc_compare [OF assms(2,1), of C D] by (metis bytes_compare_Equal)
  then show ?thesis using assms(3) unfolding entry_key by (auto simp: append_eq_append_conv)
qed

lemma InsertEntry_indexed:
  assumes "prolly_ok P entries" "indexed C (entries m) E" "key_exact v" "length pid = primaryIDLen"
  shows "\<exists>m'. InsertEntry P C m [v] pid = Ok m' \<and> indexed C (entries m') (insert (v, pid) E)"
proof -
  obtain k where k: "pr_key P (BuildSecondaryKey C [v] pid) = Ok k" "pr_bytes P k = Some (BuildSecondaryKey C [v] pid)"
    using prolly_key [OF assms(1)] by blast
  obtain m' where "pr_put P m k = Ok m'" "set (entries m') = insert (BuildSecondaryKey C [v] pid) (set (entries m))"
    using prolly_put [OF assms(1)] k(2) by blast
  then show ?thesis using k assms(2-4) by (auto simp: InsertEntry_def BuildIndexEntry_def indexed_def)
qed

lemma DeleteEntry_indexed:
  assumes "prolly_ok P entries" "indexed C (entries m) E" "key_exact v" "length pid = primaryIDLen"
  shows "\<exists>m'. DeleteEntry P C m [v] pid = Ok m' \<and>
    indexed C (entries m') {(w, q) \<in> E. \<not> (q = pid \<and> order_cmp D w v = Equal)}"
proof -
  obtain k where k: "pr_key P (BuildSecondaryKey C [v] pid) = Ok k" "pr_bytes P k = Some (BuildSecondaryKey C [v] pid)"
    using prolly_key [OF assms(1)] by blast
  obtain m' where m': "pr_delete P m k = Ok m'" "set (entries m') = set (entries m) - {BuildSecondaryKey C [v] pid}"
    using prolly_delete [OF assms(1)] k(2) by blast
  have "BuildSecondaryKey C [w] q = BuildSecondaryKey C [v] pid \<longleftrightarrow> order_cmp D w v = Equal \<and> q = pid"
    if "(w, q) \<in> E" for w q
    using assms(2-4) that unfolding indexed_def by (intro entry_key_inject) auto
  then have "indexed C (entries m') {(w, q) \<in> E. \<not> (q = pid \<and> order_cmp D w v = Equal)}"
    using m'(2) assms(2) unfolding indexed_def by (auto simp: image_iff)
  then show ?thesis using k m'(1) by (auto simp: DeleteEntry_def BuildIndexEntry_def)
qed

section \<open>The uniqueness probe\<close>

lemma EqualityProbeBounds_single:
  "EqualityProbeBounds C [v] = (EncodeValue C v @ [discriminator], EncodeValue C v @ [discriminator + 1])"
  by (simp add: EqualityProbeBounds_def entry_key Let_def)

lemma sorted_entries_distinct:
  "sorted_wrt (\<lambda>a b. bytes_compare a b = Less) (es :: bytes list) \<Longrightarrow> distinct es"
  by (induction es) auto

lemma probe_parts:
  assumes "\<forall>e\<in>set es. \<exists>pid. e = b @ discriminator # pid \<and> length pid = primaryIDLen"
  shows "map snd (List.map_filter key_parts es) = map (drop (Suc (length b))) es"
  using assms by (induction es) (auto simp: key_parts_entry)

lemma probe_distinct:
  assumes "\<forall>e\<in>set es. \<exists>pid. e = b @ discriminator # pid \<and> length pid = primaryIDLen" "distinct es"
  shows "distinct (map snd (List.map_filter key_parts es))"
proof -
  have "inj_on (drop (Suc (length b))) (set es)"
  proof (rule inj_onI)
    fix x y
    assume "x \<in> set es" "y \<in> set es" "drop (Suc (length b)) x = drop (Suc (length b)) y"
    moreover from this obtain p q where "x = b @ discriminator # p" "y = b @ discriminator # q" using assms(1) by metis
    ultimately show "x = y" by simp
  qed
  then show ?thesis unfolding probe_parts [OF assms(1)] distinct_map using assms(2) by blast
qed

lemma probe:
  assumes "prolly_ok P entries" "indexed C (entries m) E" "key_exact v"
  defines "parts \<equiv> List.map_filter key_parts (filter (in_bounds (EncodeValue C v @ [discriminator]) (EncodeValue C v @ [discriminator + 1])) (entries m))"
  shows "set (map snd parts) = {pid. \<exists>x. (x, pid) \<in> E \<and> order_cmp D x v = Equal}" "distinct (map snd parts)"
proof -
  have exact: "key_exact x" "length pid = primaryIDLen" if "(x, pid) \<in> E" for x pid
    using assms(2) that unfolding indexed_def by auto
  have ib: "in_bounds (EncodeValue C v @ [discriminator]) (EncodeValue C v @ [discriminator + 1]) (BuildSecondaryKey C [x] pid) \<longleftrightarrow>
      order_cmp D x v = Equal" if "(x, pid) \<in> E" for x pid
    using entry_compare(1,4) [OF assms(3) exact(1) [OF that], of C pid D]
    by (cases "order_cmp D x v") (auto simp: in_bounds_def)
  then show "set (map snd parts) = {pid. \<exists>x. (x, pid) \<in> E \<and> order_cmp D x v = Equal}"
    unfolding parts_def indexed_parts [OF assms(2)] by blast
  show "distinct (map snd parts)" unfolding parts_def
  proof (rule probe_distinct [where b = "EncodeValue C v"])
    show "distinct (filter (in_bounds (EncodeValue C v @ [discriminator]) (EncodeValue C v @ [discriminator + 1])) (entries m))"
      using sorted_entries_distinct prolly_sorted [OF assms(1)] by (intro distinct_filter) blast
    show "\<forall>e\<in>set (filter (in_bounds (EncodeValue C v @ [discriminator]) (EncodeValue C v @ [discriminator + 1])) (entries m)).
        \<exists>pid. e = EncodeValue C v @ discriminator # pid \<and> length pid = primaryIDLen"
    proof
      fix e
      assume e: "e \<in> set (filter (in_bounds (EncodeValue C v @ [discriminator]) (EncodeValue C v @ [discriminator + 1])) (entries m))"
      then obtain x pid where x: "(x, pid) \<in> E" "e = BuildSecondaryKey C [x] pid"
        using assms(2) unfolding indexed_def by auto
      then have "order_cmp D x v = Equal" using ib e by simp
      then have "EncodeValue C x = EncodeValue C v" using key_string.enc_Equal [OF exact(1) [OF x(1)] assms(3)] by blast
      then show "\<exists>pid. e = EncodeValue C v @ discriminator # pid \<and> length pid = primaryIDLen"
        using x exact(2) unfolding entry_key by auto
    qed
  qed
qed

text \<open>The primary ids of the entries with a value equal to \<open>v\<close>.\<close>

definition owners :: "bigint_fun \<Rightarrow> (bson \<times> bytes) set \<Rightarrow> bson \<Rightarrow> bytes set" where
  "owners D E v = {pid. \<exists>x. (x, pid) \<in> E \<and> CompareOrder D x v Ascending = Equal}"

lemma UniqueConflict_eq:
  assumes "prolly_ok P entries" "indexed C (entries m) E" "key_exact v"
  shows "UniqueConflict P C m [v] selfID = Ok (card (owners D E v) \<le> 2 \<and> owners D E v - {selfID} \<noteq> {})"
proof -
  note pr = probe(1) [OF assms(1-3), of D] probe(2) [OF assms(1-3)]
  have card: "length (List.map_filter key_parts (filter (in_bounds (EncodeValue C v @ [discriminator]) (EncodeValue C v @ [discriminator + 1])) (entries m)))
      = card (owners D E v)"
    using distinct_card [OF pr(2)] unfolding pr(1) owners_def by simp
  define parts where "parts = List.map_filter key_parts (filter (in_bounds (EncodeValue C v @ [discriminator])
    (EncodeValue C v @ [discriminator + 1])) (entries m))"
  have "UniqueConflict P C m [v] selfID = (if length parts \<le> 2 then Ok (list_ex (\<lambda>i. i \<noteq> selfID) (map snd parts)) else Ok False)"
    by (simp add: UniqueConflict_def EqualityProbeBounds_single RangeLookupCapped_def rangeLookupCapped_ok [OF assms(1)]
        Let_def parts_def)
  moreover have "list_ex (\<lambda>i. i \<noteq> selfID) (map snd parts) \<longleftrightarrow> set (map snd parts) - {selfID} \<noteq> {}"
    unfolding list_ex_iff by blast
  moreover have "set (map snd parts) = owners D E v" unfolding parts_def owners_def by (rule pr(1))
  ultimately show ?thesis using card unfolding parts_def [symmetric] by simp
qed

section \<open>The iterator yields the scan, in either direction\<close>

abbreviation ids_of :: "bytes list \<Rightarrow> bytes list" where
  "ids_of es \<equiv> map snd (List.map_filter key_parts es)"

lemma entryPrimaryID_ids: "map (pr_bytes P) ks = map Some bs \<Longrightarrow> List.map_filter (entryPrimaryID P) ks = ids_of bs"
proof (induction ks arbitrary: bs)
  case (Cons k ks)
  then obtain b bs' where "bs = b # bs'" "pr_bytes P k = Some b" "map (pr_bytes P) ks = map Some bs'" by (cases bs) auto
  then show ?case using Cons.IH by (simp add: entryPrimaryID_parts split: option.split)
qed simp

lemma slice_split: "lo \<le> from \<Longrightarrow> from \<le> hi \<Longrightarrow>
    take (hi - lo) (drop lo es) = take (from - lo) (drop lo es) @ take (hi - from) (drop from es)"
  using take_add [of "from - lo" "hi - from" "drop lo es"] by simp

text \<open>The ids an iterator that runs backward has still to yield, the last one first.\<close>

definition remaining :: "('m \<Rightarrow> bytes list) \<Rightarrow> ('m, 'k) RangeIDIter \<Rightarrow> bytes list" where
  "remaining entries it = ids_of (take (it_hi it - it_lo it) (drop (it_lo it) (entries (it_m it)))) @ it_buffered it"

lemma ids_of_append: "List.map_filter f (xs @ ys) = List.map_filter f xs @ List.map_filter f ys"
  by (simp add: List.map_filter_def)

lemma fillBackward_ok:
  assumes "prolly_ok P entries" "it_buffered it = []" "it_lo it < it_hi it" "0 < it_chunk it"
  shows "\<exists>it'. fillBackward P it = Ok it' \<and> remaining entries it' = remaining entries it \<and> 0 < it_chunk it' \<and>
    it_reverse it' = it_reverse it"
proof -
  define start where "start = (if it_hi it - it_lo it > it_chunk it then it_hi it - it_chunk it else it_lo it)"
  have start: "it_lo it \<le> start" "start \<le> it_hi it" using assms(3) by (auto simp: start_def)
  obtain ks where ks: "pr_ordinal_range P (it_m it) start (it_hi it) = Ok (ks, False)"
    "map (pr_bytes P) ks = map Some (take (it_hi it - start) (drop start (entries (it_m it))))"
    using prolly_ordinal_range [OF assms(1)] by blast
  show ?thesis unfolding fillBackward_def start_def [symmetric] remaining_def
    using ks(1) entryPrimaryID_ids [OF ks(2)] slice_split [OF start, of "entries (it_m it)"] assms(2,4)
    by (simp add: Let_def ids_of_append)
qed

lemma next_backward_ok:
  assumes "prolly_ok P entries" "0 < it_chunk it"
  shows "\<exists>it'. next_backward P it =
      Ok (if remaining entries it = [] then None else Some (last (remaining entries it)), it') \<and>
    remaining entries it' = butlast (remaining entries it) \<and> 0 < it_chunk it' \<and> it_reverse it' = it_reverse it"
  using assms
proof (induction P it rule: next_backward.induct)
  case (1 P it)
  consider (buffered) "it_buffered it \<noteq> []" | (finished) "it_buffered it = []" "it_hi it \<le> it_lo it"
    | (fill) "it_buffered it = []" "it_lo it < it_hi it" by linarith
  then show ?case
  proof cases
    case buffered
    then show ?thesis using 1(3) by (simp add: next_backward.simps [of P it] remaining_def butlast_append)
  next
    case finished
    then show ?thesis using 1(3) by (simp add: next_backward.simps [of P it] remaining_def)
  next
    case fill
    obtain it' where it': "fillBackward P it = Ok it'" "remaining entries it' = remaining entries it" "0 < it_chunk it'"
      "it_reverse it' = it_reverse it"
      using fillBackward_ok [OF 1(2) fill 1(3)] by blast
    have same: "next_backward P it = next_backward P it'" using fill 1(3) it'(1) by (simp add: next_backward.simps [of P it])
    have "\<exists>it''. next_backward P it' =
        Ok (if remaining entries it' = [] then None else Some (last (remaining entries it')), it'') \<and>
      remaining entries it'' = butlast (remaining entries it') \<and> 0 < it_chunk it'' \<and> it_reverse it'' = it_reverse it'"
      using 1(1) [OF _ _ it'(1) 1(2) it'(3)] fill 1(3) by simp
    then show ?thesis unfolding same it'(2,4) .
  qed
qed

text \<open>The first \<open>n\<close> calls of \<open>Next\<close>, up to the one that returns nothing.\<close>

fun drain :: "nat \<Rightarrow> ('m, 'k) prolly \<Rightarrow> ('m, 'k) RangeIDIter \<Rightarrow> (unit, bytes list) result" where
  "drain 0 P it = Panic"
| "drain (Suc n) P it =
     bind_result (Next P it) (\<lambda>(r, it'). case r of None \<Rightarrow> Ok [] | Some pid \<Rightarrow>
       bind_result (drain n P it') (\<lambda>ids. Ok (pid # ids)))"

lemma drain_backward:
  assumes "prolly_ok P entries" "0 < it_chunk it" "it_reverse it" "length (remaining entries it) < n"
  shows "drain n P it = Ok (rev (remaining entries it))"
  using assms(2-4)
proof (induction n arbitrary: it)
  case (Suc n)
  obtain it' where it': "Next P it = Ok (if remaining entries it = [] then None else Some (last (remaining entries it)), it')"
      "remaining entries it' = butlast (remaining entries it)" "0 < it_chunk it'" "it_reverse it'"
    using next_backward_ok [OF assms(1) Suc.prems(1)] Suc.prems(2) by (auto simp: Next_def)
  show ?case
  proof (cases "remaining entries it = []")
    case True
    then show ?thesis using it' by simp
  next
    case False
    have r: "rev (remaining entries it) = last (remaining entries it) # rev (butlast (remaining entries it))"
      using append_butlast_last_id [OF False] by (metis rev_eq_Cons_iff rev_rev_ident)
    have "0 < length (remaining entries it)" using False by simp
    then have "length (remaining entries it') < n" using Suc.prems(3) unfolding it'(2) length_butlast by linarith
    from Suc.IH [OF it'(3,4) this] show ?thesis unfolding r it'(2) using False it'(1) by simp
  qed
qed simp

lemma drain_forward:
  assumes "\<not> it_reverse it" "it_entries it = (ks, False)" "map (pr_bytes P) ks = map Some bs" "length (ids_of bs) < n"
  shows "drain n P it = Ok (ids_of bs)"
  using assms
proof (induction n arbitrary: it ks bs)
  case (Suc n)
  have step: "\<exists>ks' bs'. next_forward P ks False = Ok (if ids_of bs = [] then None else Some (hd (ids_of bs)), ks') \<and>
      map (pr_bytes P) ks' = map Some bs' \<and> ids_of bs' = tl (ids_of bs)"
    using Suc.prems(3)
  proof (induction ks arbitrary: bs)
    case Nil
    then show ?case by auto
  next
    case (Cons k ks)
    then obtain b bs' where bs: "bs = b # bs'" "pr_bytes P k = Some b" "map (pr_bytes P) ks = map Some bs'" by (cases bs) auto
    show ?case
    proof (cases "key_parts b")
      case None
      then have "next_forward P (k # ks) False = next_forward P ks False" "ids_of bs = ids_of bs'"
        using bs by (simp_all add: entryPrimaryID_parts)
      then show ?thesis using Cons.IH [OF bs(3)] by (simp only:)
    next
      case (Some q)
      then show ?thesis using bs by (auto simp: entryPrimaryID_parts)
    qed
  qed
  then obtain ks' bs' where *: "next_forward P ks False = Ok (if ids_of bs = [] then None else Some (hd (ids_of bs)), ks')"
    "map (pr_bytes P) ks' = map Some bs'" "ids_of bs' = tl (ids_of bs)" by blast
  show ?case
  proof (cases "ids_of bs")
    case Nil
    then show ?thesis using * Suc.prems(1,2) by (simp add: Next_def)
  next
    case (Cons i js)
    then show ?thesis using * Suc.prems Suc.IH [of "it\<lparr>it_entries := (ks', False)\<rparr>" ks' bs'] by (simp add: Next_def)
  qed
qed simp

lemma filter_down_take:
  assumes "sorted_wrt (\<lambda>a b. P b \<longrightarrow> P a) es"
  shows "filter P (drop l es) = take (length (filter P es) - l) (drop l es)"
  using assms
proof (induction es arbitrary: l)
  case (Cons x es)
  show ?case
  proof (cases "P x")
    case True
    have z: "take (length (filter P es) - k) (drop k es) = filter P (drop k es)" for k
      using Cons.IH [of k, symmetric] Cons.prems by simp
    show ?thesis using True z [of 0] z [of "l - 1"] by (cases l) simp_all
  next
    case False
    then have "filter P es = []" using Cons.prems by (auto simp: filter_empty_conv)
    then show ?thesis using False set_drop_subset [of "l - 1" es] by (cases l) (auto simp: filter_empty_conv)
  qed
qed simp

lemma filter_down_drop:
  assumes "sorted_wrt (\<lambda>a b. P b \<longrightarrow> P a) es"
  shows "filter (\<lambda>e. \<not> P e) es = drop (length (filter P es)) es"
  using assms
proof (induction es)
  case (Cons x es)
  show ?case
  proof (cases "P x")
    case False
    then have "filter P es = []" "filter (\<lambda>e. \<not> P e) es = es"
      using Cons.prems by (auto simp: filter_empty_conv intro!: filter_True)
    then show ?thesis using False by simp
  qed (use Cons in simp)
qed simp

lemma bytes_trans: "bytes_compare a b = Less \<Longrightarrow> bytes_compare b c = Less \<Longrightarrow> bytes_compare a (c :: bytes) = Less"
  using bytewise.less_trans [of a b c] by simp

lemma sorted_slice:
  assumes "sorted_wrt (\<lambda>a b. bytes_compare a b = Less) es"
  shows "filter (in_bounds lo hi) es =
    take ((if hi = [] then length es else ordinal es hi) - (if lo = [] then 0 else ordinal es lo))
      (drop (if lo = [] then 0 else ordinal es lo) es)"
proof -
  have down: "sorted_wrt (\<lambda>a b. bytes_compare b c = Less \<longrightarrow> bytes_compare a c = Less) es" for c
    using assms by (rule sorted_wrt_mono_rel [rotated]) (blast intro: bytes_trans)
  have flip: "bytes_compare lo e \<noteq> Greater \<longleftrightarrow> \<not> bytes_compare e lo = Less" for e
    using bytewise.cmp_invert [of e lo] by (cases "bytes_compare e lo") simp_all
  have low: "filter (\<lambda>e. lo = [] \<or> bytes_compare lo e \<noteq> Greater) es = drop (if lo = [] then 0 else ordinal es lo) es"
    unfolding flip using filter_down_drop [OF down, of lo] by (simp add: ordinal_def)
  have high: "filter (\<lambda>e. hi = [] \<or> bytes_compare e hi = Less) (drop l es) =
      take ((if hi = [] then length es else ordinal es hi) - l) (drop l es)" for l
    using filter_down_take [OF down, of hi l] by (simp add: ordinal_def)
  have "filter (in_bounds lo hi) es =
      filter (\<lambda>e. hi = [] \<or> bytes_compare e hi = Less) (filter (\<lambda>e. lo = [] \<or> bytes_compare lo e \<noteq> Greater) es)"
    by (simp add: in_bounds_def [abs_def] conj_commute)
  then show ?thesis unfolding low high .
qed

lemma iterator_scan:
  assumes "prolly_ok P entries" "RangeLookup P m lo hi = Ok ids" "length ids < n"
  shows "\<exists>it. NewRangeIDIter P m lo hi reverse = Ok it \<and> drain n P it = Ok (if reverse then rev ids else ids)"
proof -
  have ids: "ids = ids_of (filter (in_bounds lo hi) (entries m))" using assms(2) RangeLookup_ok [OF assms(1)] by simp
  obtain s t ks where st: "boundTuple P lo = Ok s" "boundTuple P hi = Ok t" "pr_range P m s t = Ok (ks, False)"
    and ks: "map (pr_bytes P) ks = map Some (filter (in_bounds lo hi) (entries m))"
    using scan_ok [OF assms(1)] by blast
  show ?thesis
  proof (cases reverse)
    case False
    then show ?thesis using st drain_forward [OF _ _ ks, where n = n] assms(3) ids by (simp add: NewRangeIDIter_def Let_def)
  next
    case True
    have lo: "(case s of None \<Rightarrow> Ok 0 | Some k \<Rightarrow> pr_ordinal P m k) = Ok (if lo = [] then 0 else ordinal (entries m) lo)"
      using boundTuple_ok [OF assms(1), of lo] st(1) prolly_ordinal [OF assms(1)] by (auto split: option.splits)
    have hi: "(case t of None \<Rightarrow> pr_count P m | Some k \<Rightarrow> pr_ordinal P m k) =
        Ok (if hi = [] then length (entries m) else ordinal (entries m) hi)"
      using boundTuple_ok [OF assms(1), of hi] st(2) prolly_ordinal [OF assms(1)] prolly_count [OF assms(1)]
      by (auto split: option.splits)
    define it :: "('a, 'b) RangeIDIter" where "it = \<lparr>it_m = m, it_reverse = True, it_entries = ([], False),
      it_lo = (if lo = [] then 0 else ordinal (entries m) lo),
      it_hi = (if hi = [] then length (entries m) else ordinal (entries m) hi), it_chunk = 16, it_buffered = []\<rparr>"
    have "remaining entries it = ids"
      using sorted_slice [OF prolly_sorted [OF assms(1), rule_format], of lo hi m] ids by (simp add: remaining_def it_def)
    moreover have "NewRangeIDIter P m lo hi True = Ok it"
      using st lo hi by (simp add: NewRangeIDIter_def Let_def it_def)
    ultimately show ?thesis using drain_backward [OF assms(1), of it n] assms(3) True by (simp add: it_def)
  qed
qed

lemma backward_chunk: "NewRangeIDIter P m lo hi True = Ok it \<Longrightarrow> it_chunk it = 16"
  and fill_chunk: "fillBackward P it = Ok it' \<Longrightarrow> 0 < it_chunk it \<Longrightarrow> 0 < it_chunk it'"
  by (auto simp: NewRangeIDIter_def fillBackward_def Let_def bind_result_Ok_iff split: prod.splits if_splits)

section \<open>A map that meets the requirements\<close>

text \<open>A list of keys, read in order; it shows that \<open>prolly_ok\<close> can be met.\<close>

fun insert_key :: "bytes \<Rightarrow> bytes list \<Rightarrow> bytes list" where
  "insert_key x [] = [x]"
| "insert_key x (y # ys) =
     (case bytes_compare x y of Less \<Rightarrow> x # y # ys | Equal \<Rightarrow> y # ys | Greater \<Rightarrow> y # insert_key x ys)"

definition sample_entries :: "bytes list \<Rightarrow> bytes list" where
  "sample_entries m = foldr insert_key m []"

definition sample_prolly :: "(bytes list, bytes) prolly" where
  "sample_prolly = \<lparr>pr_key = Ok, pr_bytes = Some, pr_put = (\<lambda>m k. Ok (k # m)),
     pr_delete = (\<lambda>m k. Ok (filter (\<lambda>b. b \<noteq> k) m)),
     pr_range = (\<lambda>m lo hi. Ok (filter (\<lambda>e. (case lo of None \<Rightarrow> True | Some b \<Rightarrow> bytes_compare b e \<noteq> Greater) \<and>
        (case hi of None \<Rightarrow> True | Some b \<Rightarrow> bytes_compare e b = Less)) (sample_entries m), False)),
     pr_ordinal_range = (\<lambda>m i j. Ok (take (j - i) (drop i (sample_entries m)), False)),
     pr_ordinal = (\<lambda>m k. Ok (ordinal (sample_entries m) k)),
     pr_count = (\<lambda>m. Ok (length (sample_entries m)))\<rparr>"

lemma set_insert_key: "set (insert_key x ys) = insert x (set ys)"
  by (induction ys) (auto split: CompareResult.splits)

lemma sorted_insert_key:
  "sorted_wrt (\<lambda>a b. bytes_compare a b = Less) ys \<Longrightarrow> sorted_wrt (\<lambda>a b. bytes_compare a b = Less) (insert_key x ys)"
proof (induction ys)
  case (Cons y ys)
  have "bytes_compare y x = Less" if "bytes_compare x y = Greater"
    using that bytewise.cmp_invert [of x y] by simp
  with Cons show ?case by (auto simp: set_insert_key split: CompareResult.split intro: bytes_trans)
qed simp

lemma sample_prolly_ok: "prolly_ok sample_prolly sample_entries"
proof -
  have "set (sample_entries m) = set m" for m
    by (induction m) (simp_all add: sample_entries_def set_insert_key)
  moreover have "sorted_wrt (\<lambda>a b. bytes_compare a b = Less) (sample_entries m)" for m
    by (induction m) (simp_all add: sample_entries_def sorted_insert_key)
  ultimately show ?thesis unfolding prolly_ok_def
    by (auto simp: sample_prolly_def intro!: filter_cong split: option.splits)
qed

definition sample_id :: "byte \<Rightarrow> bytes" where
  "sample_id b = replicate primaryIDLen b"

definition sample_index :: "bytes list" where
  "sample_index = map (\<lambda>(v, pid). BuildSecondaryKey sample_conversions [v] pid)
     [(BInt32 5, sample_id 1), (BString ''a'', sample_id 2), (BInt32 7, sample_id 3)]"

lemma sample_indexed: "indexed sample_conversions (sample_entries sample_index)
    {(BInt32 5, sample_id 1), (BString ''a'', sample_id 2), (BInt32 7, sample_id 3)}"
proof -
  have "set (sample_entries m) = set m" for m
    by (induction m) (simp_all add: sample_entries_def set_insert_key)
  then show ?thesis by (auto simp: indexed_def sample_index_def sample_id_def)
qed

section \<open>Properties\<close>

text \<open>
  Property C13 (functional). A range scan of an index on one field returns exactly the ids of the entries whose
  value lies between the two bounds in the value order, each bound inclusive or exclusive as
  asked: what the byte bounds select is what \<open>$gt\<close>, \<open>$gte\<close>, \<open>$lt\<close> and
  \<open>$lte\<close> mean. The two bounds and the values of all entries are \<open>key_exact\<close>.
\<close>

theorem index_range_scan:
  assumes "prolly_ok P entries" "indexed C (entries m) E" "key_exact lo" "key_exact hi"
  shows "\<exists>ids. RangeLookup P m (if a then LowerBoundInclusive C lo else LowerBoundExclusive C lo)
      (if b then UpperBoundInclusive C hi else UpperBoundExclusive C hi) = Ok ids \<and>
    set ids = {pid. \<exists>v. (v, pid) \<in> E \<and>
      (if a then CompareOrder D v lo Ascending \<noteq> Less else CompareOrder D v lo Ascending = Greater) \<and>
      (if b then CompareOrder D v hi Ascending \<noteq> Greater else CompareOrder D v hi Ascending = Less)}"
  by (rule range_scan [OF assms])

theorem index_range_scan_witness:
  "\<exists>ids. RangeLookup sample_prolly sample_index (LowerBoundExclusive sample_conversions (BInt32 5))
      (UpperBoundInclusive sample_conversions (BInt32 9)) = Ok ids \<and>
    set ids = {pid. \<exists>v. (v, pid) \<in> {(BInt32 5, sample_id 1), (BString ''a'', sample_id 2), (BInt32 7, sample_id 3)} \<and>
      CompareOrder sample_bigint v (BInt32 5) Ascending = Greater \<and>
      CompareOrder sample_bigint v (BInt32 9) Ascending \<noteq> Greater}"
  using index_range_scan [OF sample_prolly_ok sample_indexed, of "BInt32 5" "BInt32 9" False True sample_bigint] by simp

text \<open>
  Inserting and deleting entries keeps the index in step: afterwards it holds the entries
  of the pairs with the new one added, or with the pairs of that id and an equal value taken
  away, and no others.
\<close>

theorem index_maintenance:
  assumes "prolly_ok P entries" "indexed C (entries m) E" "key_exact v" "length pid = primaryIDLen"
  shows "(\<exists>m'. InsertEntry P C m [v] pid = Ok m' \<and> indexed C (entries m') (insert (v, pid) E)) \<and>
    (\<exists>m'. DeleteEntry P C m [v] pid = Ok m' \<and>
      indexed C (entries m') {(w, q) \<in> E. \<not> (q = pid \<and> CompareOrder D w v Ascending = Equal)})"
  using InsertEntry_indexed [OF assms] DeleteEntry_indexed [OF assms] by blast

theorem index_maintenance_witness:
  "\<exists>m'. InsertEntry sample_prolly sample_conversions sample_index [BNull] (sample_id 4) = Ok m' \<and>
     indexed sample_conversions (sample_entries m') (insert (BNull, sample_id 4)
       {(BInt32 5, sample_id 1), (BString ''a'', sample_id 2), (BInt32 7, sample_id 3)})"
  using index_maintenance [OF sample_prolly_ok sample_indexed, of BNull "sample_id 4"] by (simp add: sample_id_def)

text \<open>
  Property C14 (safety). The uniqueness probe of an index on one field answers whether another document owns the
  value, as long as at most two do; with three or more owners the capped lookup returns no ids
  and the probe reports no conflict. The value and those of all entries are \<open>key_exact\<close>.
\<close>

theorem UniqueConflict_exact:
  assumes "prolly_ok P entries" "indexed C (entries m) E" "key_exact v"
  shows "UniqueConflict P C m [v] selfID = Ok (card (owners D E v) \<le> 2 \<and> owners D E v - {selfID} \<noteq> {})"
  by (rule UniqueConflict_eq [OF assms])

theorem UniqueConflict_exact_witness:
  "UniqueConflict sample_prolly sample_conversions sample_index [BInt32 7] (sample_id 3) =
    Ok (card (owners sample_bigint {(BInt32 5, sample_id 1), (BString ''a'', sample_id 2), (BInt32 7, sample_id 3)} (BInt32 7)) \<le> 2 \<and>
      owners sample_bigint {(BInt32 5, sample_id 1), (BString ''a'', sample_id 2), (BInt32 7, sample_id 3)} (BInt32 7)
        - {sample_id 3} \<noteq> {})"
  by (rule UniqueConflict_exact [OF sample_prolly_ok sample_indexed]) simp

text \<open>
  Property C27 (equivalence). The iterator over primary ids yields what \<open>RangeLookup\<close> returns, from the front or, in
  chunks that double, from the back, and then ends: one call more than there are ids is enough.
\<close>

theorem RangeIDIter_scan:
  assumes "prolly_ok P entries" "RangeLookup P m lo hi = Ok ids" "length ids < n"
  shows "\<exists>it. NewRangeIDIter P m lo hi reverse = Ok it \<and> drain n P it = Ok (if reverse then rev ids else ids)"
  by (rule iterator_scan [OF assms])

theorem RangeIDIter_scan_witness:
  "\<exists>it. NewRangeIDIter sample_prolly sample_index [0x2B] [] True = Ok it \<and>
    drain 5 sample_prolly it = Ok (rev [sample_id 1, sample_id 3, sample_id 2])"
proof -
  have "RangeLookup sample_prolly sample_index [0x2B] [] = Ok [sample_id 1, sample_id 3, sample_id 2]" by code_simp
  from RangeIDIter_scan [OF sample_prolly_ok this, of 5 True] show ?thesis by simp
qed

end
