(* ===== verification/CommonPath.thy ===== *)
theory CommonPath
  imports Paths
begin

text \<open>
  Paths that look into arrays, \<open>internal/handler/commonpath/commonpath.go\<close>: the values a
  dotted filter key reaches, the branches that miss it, the value a document sorts by and the
  keys it has in an index. Reading a key that a document has more than once panics.
\<close>

section \<open>Reading fields and elements\<close>

text \<open>\<open>v, _ := d.Get(k)\<close>: no value where the key is missing.\<close>

definition get_value :: "fields \<Rightarrow> string \<Rightarrow> ('e, bson option) result" where
  "get_value fs k = (if key_count fs k > 1 then Panic else Ok (field_get fs k))"

definition array_Get :: "bson list \<Rightarrow> int \<Rightarrow> bson option" where
  "array_Get vs i = (if i < 0 \<or> i \<ge> int (length vs) then None else Some (vs ! nat i))"

definition findArrayIndex :: "bson list \<Rightarrow> string \<Rightarrow> bson option" where
  "findArrayIndex vs index = (case Atoi index of None \<Rightarrow> None | Some i \<Rightarrow> array_Get vs i)"

fun lookupArrayDocuments :: "bson list \<Rightarrow> string \<Rightarrow> ('e, bson list) result" where
  "lookupArrayDocuments [] k = Ok []"
| "lookupArrayDocuments (v # vs) k =
     (case v of
        BDocument fs \<Rightarrow> bind_result (get_value fs k) (\<lambda>r.
          bind_result (lookupArrayDocuments vs k) (\<lambda>res. Ok (case r of Some x \<Rightarrow> x # res | None \<Rightarrow> res)))
      | _ \<Rightarrow> lookupArrayDocuments vs k)"

section \<open>Values by path\<close>

record FindValuesOpts =
  FindArrayDocuments :: bool
  FindArrayIndex :: bool

fun find_next :: "FindValuesOpts \<Rightarrow> string \<Rightarrow> bson \<Rightarrow> ('e, bson list) result" where
  "find_next opts e (BDocument fs) =
     bind_result (get_value fs e) (\<lambda>r. Ok (case r of Some v \<Rightarrow> [v] | None \<Rightarrow> []))"
| "find_next opts e (BArray vs) =
     (case (if FindArrayIndex opts then findArrayIndex vs e else None) of
        Some v \<Rightarrow> Ok [v]
      | None \<Rightarrow> if FindArrayDocuments opts then lookupArrayDocuments vs e else Ok [])"
| "find_next opts e _ = Ok []"

fun find_all :: "FindValuesOpts \<Rightarrow> string \<Rightarrow> bson list \<Rightarrow> ('e, bson list) result" where
  "find_all opts e [] = Ok []"
| "find_all opts e (v # vs) =
     bind_result (find_next opts e v) (\<lambda>r. bind_result (find_all opts e vs) (\<lambda>rs. Ok (r @ rs)))"

fun find_path :: "FindValuesOpts \<Rightarrow> path \<Rightarrow> bson list \<Rightarrow> ('e, bson list) result" where
  "find_path opts [] vs = Ok vs"
| "find_path opts (e # p) vs = bind_result (find_all opts e vs) (find_path opts p)"

definition FindValues :: "fields \<Rightarrow> path \<Rightarrow> FindValuesOpts \<Rightarrow> ('e, bson list) result" where
  "FindValues doc path opts = find_path opts path [BDocument doc]"

abbreviation find_both :: FindValuesOpts where
  "find_both \<equiv> \<lparr>FindArrayDocuments = True, FindArrayIndex = True\<rparr>"

section \<open>Missing branches\<close>

text \<open>
  \<open>missing_in\<close> is the loop over the elements of an array, of which only the documents are
  entered.
\<close>

lemma findArrayIndex_size: "findArrayIndex vs k = Some v \<Longrightarrow> size v < Suc (size_list size vs)"
proof -
  assume "findArrayIndex vs k = Some v"
  then have "v \<in> set vs" by (auto simp: findArrayIndex_def array_Get_def not_le nat_less_iff split: option.splits if_splits)
  then show ?thesis by (induction vs) auto
qed

lemma field_get_size: "field_get fs k = Some v \<Longrightarrow> size v < Suc (size_list (size_prod (\<lambda>_. 0) size) fs)"
  by (induction fs) (auto split: if_splits)

lemma get_value_size: "get_value fs k = Ok (Some v) \<Longrightarrow> size v < Suc (size_list (size_prod (\<lambda>_. 0) size) fs)"
  by (auto simp: get_value_def field_get_size split: if_splits)

function (sequential) hasMissingBranch :: "bson \<Rightarrow> path \<Rightarrow> ('e, bool) result"
  and missing_in :: "bson list \<Rightarrow> path \<Rightarrow> ('e, bool) result" where
  "hasMissingBranch v [] = Ok False"
| "hasMissingBranch (BDocument fs) (k # ks) =
     bind_result (get_value fs k) (\<lambda>r. case r of None \<Rightarrow> Ok True | Some v \<Rightarrow> hasMissingBranch v ks)"
| "hasMissingBranch (BArray vs) (k # ks) =
     bind_result (case findArrayIndex vs k of None \<Rightarrow> Ok False | Some el \<Rightarrow> hasMissingBranch el ks) (\<lambda>b.
       if b then Ok True else missing_in vs (k # ks))"
| "hasMissingBranch _ (k # ks) = Ok True"
| "missing_in [] ks = Ok False"
| "missing_in (v # vs) ks =
     (case v of
        BDocument fs \<Rightarrow> bind_result (hasMissingBranch (BDocument fs) ks) (\<lambda>b. if b then Ok True else missing_in vs ks)
      | _ \<Rightarrow> missing_in vs ks)"
  by pat_completeness auto
termination
  by (relation "measure (\<lambda>x. case x of Inl (v, _) \<Rightarrow> 2 * size v | Inr (vs, _) \<Rightarrow> 2 * size_list size vs + 1)")
    (auto dest!: findArrayIndex_size get_value_size)

definition HasMissingBranch :: "fields \<Rightarrow> path \<Rightarrow> ('e, bool) result" where
  "HasMissingBranch doc path = hasMissingBranch (BDocument doc) path"

section \<open>Sort keys\<close>

definition gathered :: "bson list \<Rightarrow> bson list" where
  "gathered vals = concat (map (\<lambda>v. case v of BArray vs \<Rightarrow> vs | _ \<Rightarrow> [v]) vals)"

definition SortKeyValue :: "fields \<Rightarrow> path \<Rightarrow> ('e, bson) result" where
  "SortKeyValue d path =
     (if length path = 1 then
        bind_result (get_value d (hd path)) (\<lambda>r. Ok (case r of Some v \<Rightarrow> v | None \<Rightarrow> BNull))
      else case FindValues d path find_both of
        Panic \<Rightarrow> Panic
      | Err e \<Rightarrow> Ok BNull
      | Ok vals \<Rightarrow> bind_result (HasMissingBranch d path) (\<lambda>missing.
          if vals = [] then Ok BNull
          else if length vals = 1 \<and> \<not> missing then Ok (hd vals)
          else Ok (BArray (gathered vals @ (if missing then [BNull] else [])))))"

section \<open>Index keys\<close>

function (sequential) appendIndexKeyValues :: "bson \<Rightarrow> path \<Rightarrow> ('e, bson list) result"
  and index_keys_in :: "bson list \<Rightarrow> path \<Rightarrow> ('e, bson list) result" where
  "appendIndexKeyValues (BArray vs) [] = Ok (if vs = [] then [BUndefined] else vs)"
| "appendIndexKeyValues v [] = Ok [v]"
| "appendIndexKeyValues (BDocument fs) (k # ks) =
     bind_result (get_value fs k) (\<lambda>r. case r of None \<Rightarrow> Ok [BNull] | Some v \<Rightarrow> appendIndexKeyValues v ks)"
| "appendIndexKeyValues (BArray vs) (k # ks) = (if vs = [] then Ok [BNull] else index_keys_in vs (k # ks))"
| "appendIndexKeyValues _ (k # ks) = Ok [BNull]"
| "index_keys_in [] ks = Ok []"
| "index_keys_in (v # vs) ks =
     bind_result (case v of BDocument fs \<Rightarrow> appendIndexKeyValues (BDocument fs) ks | _ \<Rightarrow> Ok [BNull]) (\<lambda>r.
       bind_result (index_keys_in vs ks) (\<lambda>rs. Ok (r @ rs)))"
  by pat_completeness auto
termination
  by (relation "measure (\<lambda>x. case x of Inl (v, _) \<Rightarrow> 2 * size v | Inr (vs, _) \<Rightarrow> 2 * size_list size vs + 1)")
    (auto dest!: get_value_size)

definition IndexKeyValues :: "fields \<Rightarrow> path \<Rightarrow> ('e, bson list) result" where
  "IndexKeyValues doc path = appendIndexKeyValues (BDocument doc) path"

end
