(* ===== verification/FilterOps.thy ===== *)
theory FilterOps
  imports CommonPath KeyString "HOL-Library.Signed_Division"
begin

text \<open>
  The field operators of \<open>internal/handler/common/filter.go\<close> that need no recursion into
  the filter: equality under a collation, regular expressions, \<open>$size\<close>, the bit operators,
  \<open>$mod\<close>, \<open>$exists\<close> and \<open>$type\<close>, with the parameters they read
  (\<open>handlerparams/typecode.go\<close>, \<open>GetWholeNumberParam\<close>, \<open>getBinaryMaskParam\<close>).
  A command error is its code; the text of the message is left out. The regular
  expression engine, the collator, the random numbers and the conversions of an out-of-range
  \<open>float64\<close> are parameters, as are the operators that are not modelled (\<open>$text\<close>,
  \<open>$jsonSchema\<close> and the geometric ones) and the evaluation of an aggregation expression, whose
  result \<open>filterExprOperator\<close> turns into a truth value.
\<close>

unbundle bit_operations_syntax

section \<open>Errors, parameters and loops\<close>

datatype param_error =
    ErrNotWholeNumber | ErrLongExceededPositive | ErrLongExceededNegative | ErrInfinity | ErrUnexpectedType

datatype filter_error =
    ErrBadValue | ErrFailedToParse | ErrNotImplemented | ErrBadRegexOption | ErrRegexMissingParen
  | ErrRegexExecution | ErrRegexOptions | ErrParam param_error | ErrPath path_error

type_synonym 'a filtered = "(filter_error, 'a) result"

text \<open>
  \<open>pcre_Compile\<close> takes the pattern and the flags \<open>i\<close>, \<open>m\<close>, \<open>s\<close> and \<open>x\<close>; a
  compiled expression answers \<open>None\<close> when the match runs out of time. \<open>processExpr\<close> is the
  operator \<open>validatedExpr\<close> builds from an expression, run on a document, and \<open>rand_Float64\<close>
  the number drawn from the random source.
\<close>

type_synonym matcher = "string \<Rightarrow> bool option"

record filter_env =
  conv :: conversions
  out_of_range_int32 :: "float64 \<Rightarrow> int32"
  decimals :: bigint_fun
  pcre_Compile :: "string \<Rightarrow> bool \<Rightarrow> bool \<Rightarrow> bool \<Rightarrow> bool \<Rightarrow> matcher option"
  filterTextSearch :: "fields \<Rightarrow> fields \<Rightarrow> bool filtered"
  rand_Float64 :: float64
  decimal_Float64 :: "uint64 \<Rightarrow> uint64 \<Rightarrow> float64"
  processExpr :: "bson \<Rightarrow> fields \<Rightarrow> bson filtered"
  filterJSONSchema :: "fields \<Rightarrow> fields \<Rightarrow> bool filtered"
  filterGeo :: "string \<Rightarrow> bson \<Rightarrow> bson \<Rightarrow> fields \<Rightarrow> bool filtered"

type_synonym collator = "(string \<Rightarrow> string \<Rightarrow> int) option"

text \<open>
  A loop whose body either returns from the function (\<open>Some r\<close>) or goes on with the next
  element (\<open>None\<close>).
\<close>

fun for_each :: "('a \<Rightarrow> ('e, 'r option) result) \<Rightarrow> 'a list \<Rightarrow> 'r \<Rightarrow> ('e, 'r) result" where
  "for_each body [] end = Ok end"
| "for_each body (x # xs) end =
     bind_result (body x) (\<lambda>o1. case o1 of Some r \<Rightarrow> Ok r | None \<Rightarrow> for_each body xs end)"

lemma for_each_cong [fundef_cong]:
  assumes "xs = ys" "\<And>x. x \<in> set ys \<Longrightarrow> f x = g x" "r = r'"
  shows "for_each f xs r = for_each g ys r'"
  using assms(2) unfolding assms(1,3) by (induction ys) (auto intro!: bind_result_cong split: option.splits)

text \<open>The two loops that return as soon as an element does not match, or matches.\<close>

definition for_all :: "('a \<Rightarrow> ('e, bool) result) \<Rightarrow> 'a list \<Rightarrow> ('e, bool) result" where
  "for_all f xs = for_each (\<lambda>x. bind_result (f x) (\<lambda>b. Ok (if b then None else Some False))) xs True"

definition for_some :: "('a \<Rightarrow> ('e, bool) result) \<Rightarrow> 'a list \<Rightarrow> ('e, bool) result" where
  "for_some f xs = for_each (\<lambda>x. bind_result (f x) (\<lambda>b. Ok (if b then Some True else None))) xs False"

lemma for_all_simps [simp]:
  "for_all f [] = Ok True"
  "for_all f (x # xs) = bind_result (f x) (\<lambda>b. if b then for_all f xs else Ok False)"
  by (cases "f x"; simp add: for_all_def)+

lemma for_some_simps [simp]:
  "for_some f [] = Ok False"
  "for_some f (x # xs) = bind_result (f x) (\<lambda>b. if b then Ok True else for_some f xs)"
  by (cases "f x"; simp add: for_some_def)+

lemma for_all_cong [fundef_cong]:
  "xs = ys \<Longrightarrow> (\<And>x. x \<in> set ys \<Longrightarrow> f x = g x) \<Longrightarrow> for_all f xs = for_all g ys"
  unfolding for_all_def by (auto intro!: for_each_cong)

lemma for_some_cong [fundef_cong]:
  "xs = ys \<Longrightarrow> (\<And>x. x \<in> set ys \<Longrightarrow> f x = g x) \<Longrightarrow> for_some f xs = for_some g ys"
  unfolding for_some_def by (auto intro!: for_each_cong)

definition no_error :: "(unit, 'a) result \<Rightarrow> 'a filtered" where
  "no_error r = (case r of Ok a \<Rightarrow> Ok a | _ \<Rightarrow> Panic)"

fun is_array :: "bson \<Rightarrow> bool" where
  "is_array (BArray _) = True"
| "is_array _ = False"

fun is_regex :: "bson \<Rightarrow> bool" where
  "is_regex (BRegex _ _) = True"
| "is_regex _ = False"

section \<open>Comparison under a collation\<close>

definition signToResult :: "int \<Rightarrow> CompareResult" where
  "signToResult n = (if n < 0 then Less else if n > 0 then Greater else Equal)"

definition collCompare :: "bigint_fun \<Rightarrow> bson \<Rightarrow> bson \<Rightarrow> collator \<Rightarrow> CompareResult" where
  "collCompare D a b cmp =
     (case (cmp, a, b) of
        (Some CompareStrings, BString as, BString bs) \<Rightarrow> signToResult (CompareStrings as bs)
      | _ \<Rightarrow> Compare D a b)"

definition collCompareOrderOp :: "bigint_fun \<Rightarrow> bson \<Rightarrow> bson \<Rightarrow> SortType \<Rightarrow> collator \<Rightarrow> CompareResult filtered" where
  "collCompareOrderOp D a b order cmp =
     (case (cmp, a, b) of
        (Some CompareStrings, BString as, BString bs) \<Rightarrow> Ok (signToResult (CompareStrings as bs))
      | _ \<Rightarrow> no_error (CompareOrderForOperator D a b order))"

definition equalsOrHasElement :: "bigint_fun \<Rightarrow> bson \<Rightarrow> bson \<Rightarrow> collator \<Rightarrow> bool" where
  "equalsOrHasElement D val target cmp =
     (if collCompare D val target cmp = Equal then True
      else case (val, target) of
        (BArray arr, BArray targetArr) \<Rightarrow>
          list_ex (\<lambda>elem. is_array elem \<and> Compare D elem (BArray targetArr) = Equal) arr
      | _ \<Rightarrow> False)"

section \<open>Regular expressions\<close>

definition Regex_Compile :: "filter_env \<Rightarrow> string \<Rightarrow> string \<Rightarrow> matcher option" where
  "Regex_Compile E pattern options =
     pcre_Compile E pattern (CHR ''i'' \<in> set options) (CHR ''m'' \<in> set options)
       (CHR ''s'' \<in> set options) (CHR ''x'' \<in> set options)"

definition match_string :: "matcher \<Rightarrow> string \<Rightarrow> bool filtered" where
  "match_string re s = (case re s of None \<Rightarrow> Err ErrRegexExecution | Some matched \<Rightarrow> Ok matched)"

text \<open>The value of a field that does not exist is \<open>None\<close>, the \<open>nil\<close> of the code.\<close>

definition filterFieldRegex :: "filter_env \<Rightarrow> bson option \<Rightarrow> string \<Rightarrow> string \<Rightarrow> bool filtered" where
  "filterFieldRegex E fieldValue pattern options =
     (if \<not> list_all (\<lambda>option. option \<in> set ''imsx'') options then Err ErrBadRegexOption
      else case Regex_Compile E pattern options of
        None \<Rightarrow> Err ErrRegexMissingParen
      | Some re \<Rightarrow>
          (case fieldValue of
             Some (BArray vs) \<Rightarrow> for_some (\<lambda>arrValue. case arrValue of
                 BString s \<Rightarrow> match_string re s
               | BRegex p q \<Rightarrow> Ok (Compare (decimals E) arrValue (BRegex pattern options) = Equal)
               | _ \<Rightarrow> Ok False) vs
           | Some (BString s) \<Rightarrow> match_string re s
           | Some (BRegex p q) \<Rightarrow> Ok (Compare (decimals E) (BRegex p q) (BRegex pattern options) = Equal)
           | _ \<Rightarrow> Ok False))"

definition filterFieldExprRegex :: "filter_env \<Rightarrow> bson option \<Rightarrow> bson \<Rightarrow> bson option \<Rightarrow> bool filtered" where
  "filterFieldExprRegex E fieldValue regexValue optionsValue =
     bind_result (case optionsValue of None \<Rightarrow> Ok [] | Some (BString s) \<Rightarrow> Ok s | Some _ \<Rightarrow> Err ErrBadValue) (\<lambda>options.
       case regexValue of
         BString pattern \<Rightarrow> filterFieldRegex E fieldValue pattern options
       | BRegex pattern regexOptions \<Rightarrow>
           if options \<noteq> [] then
             if regexOptions \<noteq> [] then Err ErrRegexOptions
             else filterFieldRegex E fieldValue pattern options
           else filterFieldRegex E fieldValue pattern regexOptions
       | _ \<Rightarrow> Err ErrBadValue)"

section \<open>Numbers as parameters\<close>

definition IsInf :: "float64 \<Rightarrow> bool" where
  "IsInf f \<longleftrightarrow> IsInf_pos f \<or> IsInf_neg f"

abbreviation max_int64_float :: float64 where "max_int64_float \<equiv> f64_of_int (2 ^ 63 - 1)"
abbreviation min_int64_float :: float64 where "min_int64_float \<equiv> f64_of_int (- (2 ^ 63))"

definition go_int32 :: "filter_env \<Rightarrow> float64 \<Rightarrow> int32" where
  "go_int32 E f = (if - (2 ^ 31) \<le> f64_to_int f \<and> f64_to_int f < 2 ^ 31
     then word_of_int (f64_to_int f) else out_of_range_int32 E f)"

definition GetWholeNumberParam :: "conversions \<Rightarrow> bson \<Rightarrow> (param_error, int64) result" where
  "GetWholeNumberParam C v =
     (case v of
        BDouble f \<Rightarrow>
          if IsInf_pos f then Err ErrInfinity
          else if f64_lt max_int64_float f then Err ErrLongExceededPositive
          else if f64_lt f min_int64_float then Err ErrLongExceededNegative
          else if \<not> f64_eq f (Trunc f) then Err ErrNotWholeNumber
          else Ok (go_int64 C f)
      | BInt32 i \<Rightarrow> Ok (scast i)
      | BInt64 i \<Rightarrow> Ok i
      | _ \<Rightarrow> Err ErrUnexpectedType)"

definition filterFieldExprSize :: "conversions \<Rightarrow> bson \<Rightarrow> bson \<Rightarrow> bool filtered" where
  "filterFieldExprSize C fieldValue sizeValue =
     (case GetWholeNumberParam C sizeValue of
        Panic \<Rightarrow> Panic
      | Err e \<Rightarrow> if e \<in> {ErrUnexpectedType, ErrNotWholeNumber, ErrInfinity} then Err ErrBadValue else Err (ErrParam e)
      | Ok n \<Rightarrow>
          if sint n < 0 then Err ErrBadValue
          else (case fieldValue of
            BArray arr \<Rightarrow> Ok (int (length arr) = sint n)
          | _ \<Rightarrow> Ok False))"

section \<open>Bit operators\<close>

text \<open>\<open>uint64(math.Min(float64(b), 63))\<close> of a \<open>b\<close> that is not negative.\<close>

definition bit_position :: "conversions \<Rightarrow> bson \<Rightarrow> nat filtered" where
  "bit_position C v =
     (case GetWholeNumberParam C v of
        Panic \<Rightarrow> Panic
      | Err e \<Rightarrow> Err ErrBadValue
      | Ok b \<Rightarrow> if sint b < 0 then Err ErrBadValue else Ok (min (nat (sint b)) 63))"

fun positions_mask :: "conversions \<Rightarrow> bson list \<Rightarrow> uint64 \<Rightarrow> uint64 filtered" where
  "positions_mask C [] bitmask = Ok bitmask"
| "positions_mask C (v # vs) bitmask =
     bind_result (bit_position C v) (\<lambda>b. positions_mask C vs (bitmask OR push_bit b 1))"

fun binary_mask :: "bytes \<Rightarrow> nat \<Rightarrow> uint64 \<Rightarrow> uint64" where
  "binary_mask [] b bitmask = bitmask"
| "binary_mask (byteAt # bs) b bitmask =
     binary_mask bs (Suc b)
       (if byteAt = 0 then bitmask
        else if b < 8 then bitmask OR push_bit (b * 8) (ucast byteAt)
        else bitmask OR push_bit 63 1)"

definition getBinaryMaskParam :: "conversions \<Rightarrow> bson \<Rightarrow> uint64 filtered" where
  "getBinaryMaskParam C v =
     (case v of
        BArray vs \<Rightarrow> positions_mask C vs 0
      | BDouble f \<Rightarrow>
          if \<not> f64_eq f (Trunc f) \<or> IsInf f then Err ErrFailedToParse
          else if f64_lt f 0 then Err ErrFailedToParse
          else Ok (go_uint64 C f)
      | BBinary _ bs \<Rightarrow> Ok (binary_mask bs 0 0)
      | BInt32 i \<Rightarrow> if sint i < 0 then Err ErrFailedToParse else Ok (scast i)
      | BInt64 i \<Rightarrow> if sint i < 0 then Err ErrFailedToParse else Ok i
      | _ \<Rightarrow> Err ErrBadValue)"

definition isInvalidBitwiseValue :: "float64 \<Rightarrow> bool" where
  "isInvalidBitwiseValue f \<longleftrightarrow>
     \<not> f64_eq f (Trunc f) \<or> IsNaN f \<or> IsInf f \<or> f64_lt max_int64_float f \<or> f64_eq max_int64_float f \<or>
     f64_lt f min_int64_float"

definition decimal128ToInt64 :: "bigint_fun \<Rightarrow> uint64 \<Rightarrow> uint64 \<Rightarrow> int64 option" where
  "decimal128ToInt64 D l h =
     (case D h l of
        BigInt coeff ex \<Rightarrow>
          (let bi = (if ex > 0 then coeff * 10 ^ nat ex else if ex < 0 then coeff sdiv 10 ^ nat (- ex) else coeff) in
           if bi < - (2 ^ 63) \<or> bi > 2 ^ 63 - 1 then None else Some (word_of_int bi))
      | _ \<Rightarrow> None)"

text \<open>
  The four operators read the mask and the field alike and differ in the test on the two
  words.
\<close>

definition bits_operator :: "filter_env \<Rightarrow> (uint64 \<Rightarrow> uint64 \<Rightarrow> bool) \<Rightarrow> bson \<Rightarrow> bson \<Rightarrow> bool filtered" where
  "bits_operator E test fieldValue maskValue =
     bind_result (getBinaryMaskParam (conv E) maskValue) (\<lambda>bitmask.
       case fieldValue of
         BDouble f \<Rightarrow> Ok (\<not> isInvalidBitwiseValue f \<and> test (go_uint64 (conv E) f) bitmask)
       | BBinary _ _ \<Rightarrow> Err ErrNotImplemented
       | BInt32 i \<Rightarrow> Ok (test (scast i) bitmask)
       | BInt64 i \<Rightarrow> Ok (test i bitmask)
       | BDecimal128 l h \<Rightarrow>
           Ok (case decimal128ToInt64 (decimals E) l h of None \<Rightarrow> False | Some intVal \<Rightarrow> test intVal bitmask)
       | _ \<Rightarrow> Ok False)"

definition filterFieldExprBitsAllClear :: "filter_env \<Rightarrow> bson \<Rightarrow> bson \<Rightarrow> bool filtered" where
  "filterFieldExprBitsAllClear E = bits_operator E (\<lambda>val bitmask. NOT val AND bitmask = bitmask)"

definition filterFieldExprBitsAllSet :: "filter_env \<Rightarrow> bson \<Rightarrow> bson \<Rightarrow> bool filtered" where
  "filterFieldExprBitsAllSet E = bits_operator E (\<lambda>val bitmask. val AND bitmask = bitmask)"

definition filterFieldExprBitsAnyClear :: "filter_env \<Rightarrow> bson \<Rightarrow> bson \<Rightarrow> bool filtered" where
  "filterFieldExprBitsAnyClear E = bits_operator E (\<lambda>val bitmask. NOT val AND bitmask \<noteq> 0)"

definition filterFieldExprBitsAnySet :: "filter_env \<Rightarrow> bson \<Rightarrow> bson \<Rightarrow> bool filtered" where
  "filterFieldExprBitsAnySet E = bits_operator E (\<lambda>val bitmask. val AND bitmask \<noteq> 0)"

section \<open>Remainders\<close>

definition mod_param :: "conversions \<Rightarrow> bson \<Rightarrow> int64 filtered" where
  "mod_param C v =
     (case v of
        BDouble d \<Rightarrow>
          if IsNaN d \<or> IsInf d then Err ErrBadValue
          else (let d = Trunc d in
            if f64_lt max_int64_float d \<or> f64_eq max_int64_float d \<or> f64_lt d min_int64_float then Err ErrBadValue
            else Ok (go_int64 C d))
      | BInt32 d \<Rightarrow> Ok (scast d)
      | BInt64 d \<Rightarrow> Ok d
      | _ \<Rightarrow> Err ErrBadValue)"

text \<open>The type assertion on the operand panics when it is not an array.\<close>

definition mod_params :: "conversions \<Rightarrow> bson \<Rightarrow> (int64 \<times> int64) filtered" where
  "mod_params C exprValue =
     (case exprValue of
        BArray [d, r] \<Rightarrow>
          bind_result (mod_param C d) (\<lambda>divisor. bind_result (mod_param C r) (\<lambda>remainder.
            if divisor = 0 then Err ErrBadValue else Ok (divisor, remainder)))
      | BArray _ \<Rightarrow> Err ErrBadValue
      | _ \<Rightarrow> Panic)"

text \<open>The dividend, if the field has one; Go's \<open>%\<close> truncates towards zero.\<close>

definition mod_field :: "conversions \<Rightarrow> bson \<Rightarrow> int64 option" where
  "mod_field C v =
     (case v of
        BDouble f \<Rightarrow>
          if IsNaN f \<or> IsInf f then None
          else (let f = Trunc f; field = go_int64 C f in
            if \<not> f64_eq f (f64_of_int (sint field)) then None else Some field)
      | BInt32 f \<Rightarrow> Some (scast f)
      | BInt64 f \<Rightarrow> Some f
      | _ \<Rightarrow> None)"

function (sequential) filterFieldMod :: "conversions \<Rightarrow> bson \<Rightarrow> bson \<Rightarrow> bool filtered" where
  "filterFieldMod C fieldValue exprValue =
     bind_result (mod_params C exprValue) (\<lambda>(divisor, remainder).
       case fieldValue of
         BArray arr \<Rightarrow> for_some (\<lambda>elem. filterFieldMod C elem exprValue) arr
       | _ \<Rightarrow> Ok (case mod_field C fieldValue of
           None \<Rightarrow> False
         | Some field \<Rightarrow> word_of_int (sint field smod sint divisor) = remainder))"
  by pat_completeness auto
termination
  by (relation "measure (\<lambda>(_, v, _). size v)") (auto simp: size_list_estimation' intro!: le_imp_less_Suc)

section \<open>Existence and undefined operands\<close>

definition decimal128IsZero :: "uint64 \<Rightarrow> uint64 \<Rightarrow> bool" where
  "decimal128IsZero l h =
     (if drop_bit 61 h AND 3 = 3 then drop_bit 58 h AND 0x1F < 0x1E
      else h AND (push_bit 49 1 - 1) = 0 \<and> l = 0)"

fun existsOperandTrue :: "bson \<Rightarrow> bool" where
  "existsOperandTrue (BBool b) = b"
| "existsOperandTrue (BInt32 i) = (i \<noteq> 0)"
| "existsOperandTrue (BInt64 i) = (i \<noteq> 0)"
| "existsOperandTrue (BDouble f) = (\<not> f64_eq f 0)"
| "existsOperandTrue (BDecimal128 l h) = (\<not> decimal128IsZero l h)"
| "existsOperandTrue BNull = False"
| "existsOperandTrue BUndefined = False"
| "existsOperandTrue _ = True"

definition filterFieldExprExists :: "bool \<Rightarrow> bson \<Rightarrow> bool" where
  "filterFieldExprExists fieldExist exprValue =
     (let expr = existsOperandTrue exprValue in
      if fieldExist \<and> expr then True else if \<not> fieldExist \<and> \<not> expr then True else False)"

definition isNegatedFieldOperator :: "string \<Rightarrow> bson \<Rightarrow> bool" where
  "isNegatedFieldOperator op v =
     (if op \<in> {''$ne'', ''$nin'', ''$not''} then True
      else if op = ''$exists'' then \<not> filterFieldExprExists True v
      else False)"

definition arrayHasUndefined :: "bson list \<Rightarrow> bool" where
  "arrayHasUndefined arr = list_ex (\<lambda>v. v = BUndefined) arr"

text \<open>The value of a key that comes from \<open>Keys()\<close>: it exists, and panics when it is not unique.\<close>

definition must_get :: "fields \<Rightarrow> string \<Rightarrow> ('e, bson) result" where
  "must_get fs k = bind_result (get_value fs k) (\<lambda>r. case r of Some v \<Rightarrow> Ok v | None \<Rightarrow> Panic)"

lemma must_get_Ok_iff: "must_get fs k = Ok v \<longleftrightarrow> key_count fs k \<le> 1 \<and> field_get fs k = Some v"
  by (auto simp: must_get_def get_value_def split: option.splits)

lemma must_get_size: "must_get fs k = Ok v \<Longrightarrow> size v < Suc (size_list (size_prod (\<lambda>_. 0) size) fs)"
  by (auto simp: must_get_Ok_iff field_get_size)

function (sequential) checkUndefinedOperand :: "string \<Rightarrow> bson \<Rightarrow> unit filtered" where
  "checkUndefinedOperand op operand =
     (if op \<in> {''$not'', ''$elemMatch''} then
        (case operand of
           BDocument inner \<Rightarrow> for_each (\<lambda>k.
             if \<not> HasPrefix k ''$'' then Ok None
             else bind_result (must_get inner k) (\<lambda>v.
               bind_result (checkUndefinedOperand k v) (\<lambda>_. Ok None))) (map fst inner) ()
         | _ \<Rightarrow> Ok ())
      else if op \<in> {''$eq'', ''$ne'', ''$gt'', ''$gte'', ''$lt'', ''$lte''} then
        (if operand = BUndefined then Err ErrBadValue else Ok ())
      else if op \<in> {''$in'', ''$nin'', ''$all''} then
        (case operand of
           BArray arr \<Rightarrow> if \<not> arrayHasUndefined arr then Ok () else Err ErrBadValue
         | _ \<Rightarrow> Ok ())
      else Ok ())"
  by pat_completeness auto
termination
  by (relation "measure (\<lambda>(_, v). size v)") (auto dest!: must_get_size)

section \<open>Types\<close>

datatype TypeCode =
    TypeCodeDouble | TypeCodeString | TypeCodeObject | TypeCodeArray | TypeCodeBinData | TypeCodeUndefined
  | TypeCodeObjectID | TypeCodeBool | TypeCodeDate | TypeCodeNull | TypeCodeRegex | TypeCodeInt
  | TypeCodeTimestamp | TypeCodeLong | TypeCodeDecimal | TypeCodeMinKey | TypeCodeMaxKey | TypeCodeNumber

text \<open>The codes with their numbers and the names of the line comments.\<close>

definition type_codes :: "(TypeCode \<times> int \<times> string) list" where
  "type_codes =
     [(TypeCodeDouble, 1, ''double''), (TypeCodeString, 2, ''string''), (TypeCodeObject, 3, ''object''),
      (TypeCodeArray, 4, ''array''), (TypeCodeBinData, 5, ''binData''), (TypeCodeUndefined, 6, ''undefined''),
      (TypeCodeObjectID, 7, ''objectId''), (TypeCodeBool, 8, ''bool''), (TypeCodeDate, 9, ''date''),
      (TypeCodeNull, 10, ''null''), (TypeCodeRegex, 11, ''regex''), (TypeCodeInt, 16, ''int''),
      (TypeCodeTimestamp, 17, ''timestamp''), (TypeCodeLong, 18, ''long''), (TypeCodeDecimal, 19, ''decimal''),
      (TypeCodeMinKey, -1, ''minKey''), (TypeCodeMaxKey, 127, ''maxKey''), (TypeCodeNumber, -128, ''number'')]"

definition NewTypeCode :: "int32 \<Rightarrow> TypeCode filtered" where
  "NewTypeCode code =
     (case map_of (map (\<lambda>(c, n, _). (n, c)) type_codes) (sint code) of
        Some c \<Rightarrow> Ok c
      | None \<Rightarrow> Err ErrBadValue)"

definition ParseTypeCode :: "string \<Rightarrow> TypeCode filtered" where
  "ParseTypeCode alias =
     (case map_of (map (\<lambda>(c, _, s). (s, c)) type_codes) alias of
        Some c \<Rightarrow> Ok c
      | None \<Rightarrow> Err ErrBadValue)"

fun AliasFromType :: "bson \<Rightarrow> TypeCode" where
  "AliasFromType (BDocument _) = TypeCodeObject"
| "AliasFromType (BArray _) = TypeCodeArray"
| "AliasFromType (BDouble _) = TypeCodeDouble"
| "AliasFromType (BString _) = TypeCodeString"
| "AliasFromType (BBinary _ _) = TypeCodeBinData"
| "AliasFromType (BObjectID _) = TypeCodeObjectID"
| "AliasFromType (BBool _) = TypeCodeBool"
| "AliasFromType (BDate _) = TypeCodeDate"
| "AliasFromType BNull = TypeCodeNull"
| "AliasFromType (BRegex _ _) = TypeCodeRegex"
| "AliasFromType (BInt32 _) = TypeCodeInt"
| "AliasFromType (BTimestamp _) = TypeCodeTimestamp"
| "AliasFromType (BInt64 _) = TypeCodeLong"
| "AliasFromType (BDecimal128 _ _) = TypeCodeDecimal"
| "AliasFromType BMinKey = TypeCodeMinKey"
| "AliasFromType BMaxKey = TypeCodeMaxKey"
| "AliasFromType BUndefined = TypeCodeUndefined"

fun isWholeNumber :: "bson \<Rightarrow> bool" where
  "isWholeNumber (BDouble f) = (\<not> (\<not> f64_eq f (Trunc f) \<or> IsNaN f \<or> IsInf f))"
| "isWholeNumber (BInt32 _) = True"
| "isWholeNumber (BInt64 _) = True"
| "isWholeNumber _ = False"

fun same_type_loop :: "TypeCode option \<Rightarrow> bson list \<Rightarrow> bool" where
  "same_type_loop prev [] = True"
| "same_type_loop prev (v # vs) =
     (let cur = (if isWholeNumber v then TypeCodeNumber else AliasFromType v) in
      case prev of
        None \<Rightarrow> same_type_loop (Some cur) vs
      | Some p \<Rightarrow> if p \<noteq> cur then False else same_type_loop (Some p) vs)"

definition HasSameTypeElements :: "bson list \<Rightarrow> bool" where
  "HasSameTypeElements vs = same_type_loop None vs"

text \<open>Every code of the enumeration has a case of its own, so the default is not reached.\<close>

definition value_has_code :: "bson \<Rightarrow> TypeCode \<Rightarrow> bool" where
  "value_has_code v code =
     (if code = TypeCodeNumber
      then AliasFromType v \<in> {TypeCodeDouble, TypeCodeInt, TypeCodeLong, TypeCodeDecimal}
      else AliasFromType v = code)"

definition filterFieldValueByTypeCode :: "bson option \<Rightarrow> TypeCode \<Rightarrow> bool" where
  "filterFieldValueByTypeCode fieldValue code =
     (case fieldValue of
        None \<Rightarrow> False
      | Some v \<Rightarrow>
          (case v of
             BArray vs \<Rightarrow> code \<noteq> TypeCodeArray \<and> list_ex (\<lambda>w. \<not> is_array w \<and> value_has_code w code) vs
           | _ \<Rightarrow> False) \<or> value_has_code v code)"

definition type_operand :: "filter_env \<Rightarrow> bson \<Rightarrow> TypeCode filtered" where
  "type_operand E v =
     (case v of
        BDouble f \<Rightarrow>
          if IsNaN f \<or> IsInf f then Err ErrBadValue
          else if \<not> f64_eq f (Trunc f) then Err ErrBadValue
          else NewTypeCode (go_int32 E f)
      | BString s \<Rightarrow> ParseTypeCode s
      | BInt32 i \<Rightarrow> NewTypeCode i
      | _ \<Rightarrow> Err ErrBadValue)"

definition filterFieldExprType :: "filter_env \<Rightarrow> bson option \<Rightarrow> bson \<Rightarrow> bool filtered" where
  "filterFieldExprType E fieldValue exprValue =
     (case exprValue of
        BArray vs \<Rightarrow>
          (let hasSameType = HasSameTypeElements vs in
           for_some (\<lambda>v. bind_result (type_operand E v) (\<lambda>code.
             Ok ((case v of BString _ \<Rightarrow> True | _ \<Rightarrow> hasSameType) \<and> filterFieldValueByTypeCode fieldValue code))) vs)
      | _ \<Rightarrow> bind_result (type_operand E exprValue) (\<lambda>code. Ok (filterFieldValueByTypeCode fieldValue code)))"

section \<open>Operators on the whole document\<close>

definition filterSampleRate :: "filter_env \<Rightarrow> bson \<Rightarrow> bool filtered" where
  "filterSampleRate E rate =
     bind_result (case rate of
         BInt32 i \<Rightarrow> Ok (f64_of_int (sint i))
       | BInt64 i \<Rightarrow> Ok (f64_of_int (sint i))
       | BDouble f \<Rightarrow> Ok f
       | BDecimal128 h l \<Rightarrow> Ok (decimal_Float64 E h l)
       | _ \<Rightarrow> Err ErrBadValue) (\<lambda>x.
       let zero = f64_of_int 0; one = f64_of_int 1 in
       if \<not> ((f64_lt zero x \<or> f64_eq zero x) \<and> (f64_lt x one \<or> f64_eq x one)) then Err ErrBadValue
       else Ok (f64_lt (rand_Float64 E) x))"

text \<open>A result of a type the switch does not name (Decimal128, MinKey, MaxKey, undefined) panics.\<close>

definition filterExprOperator :: "filter_env \<Rightarrow> fields \<Rightarrow> bson \<Rightarrow> bool filtered" where
  "filterExprOperator E doc exprValue =
     bind_result (processExpr E exprValue doc) (\<lambda>v.
       case v of
         BDocument _ \<Rightarrow> Ok True | BArray _ \<Rightarrow> Ok True | BString _ \<Rightarrow> Ok True | BBinary _ _ \<Rightarrow> Ok True
       | BObjectID _ \<Rightarrow> Ok True | BDate _ \<Rightarrow> Ok True | BRegex _ _ \<Rightarrow> Ok True | BTimestamp _ \<Rightarrow> Ok True
       | BDouble _ \<Rightarrow> Ok (Compare (decimals E) v (BInt32 0) \<noteq> Equal)
       | BInt32 _ \<Rightarrow> Ok (Compare (decimals E) v (BInt32 0) \<noteq> Equal)
       | BInt64 _ \<Rightarrow> Ok (Compare (decimals E) v (BInt32 0) \<noteq> Equal)
       | BBool b \<Rightarrow> Ok b
       | BNull \<Rightarrow> Ok False
       | _ \<Rightarrow> Panic)"

end
