(* ===== verification/Filters.thy ===== *)
theory Filters
  imports FilterOps
begin

text \<open>
  The filter language, \<open>internal/handler/common/filter.go\<close>: a document against a filter
  with its logical operators, field expressions, \<open>$elemMatch\<close> and \<open>$all\<close>. The
  functions call each other on parts of the filter, so they are one recursive group.
\<close>

section \<open>Field operators that do not recurse\<close>

definition range_operator :: "filter_env \<Rightarrow> SortType \<Rightarrow> CompareResult set \<Rightarrow> bson \<Rightarrow> bson \<Rightarrow> collator \<Rightarrow> bool filtered" where
  "range_operator E order accepted fieldValue exprValue cmp =
     (if is_regex exprValue then Err ErrBadValue
      else bind_result (collCompareOrderOp (decimals E) fieldValue exprValue order cmp) (\<lambda>res. Ok (res \<in> accepted)))"

definition in_member :: "filter_env \<Rightarrow> bson \<Rightarrow> collator \<Rightarrow> bson \<Rightarrow> bool filtered" where
  "in_member E fieldValue cmp arrValue =
     (case arrValue of
        BDocument fs \<Rightarrow>
          if list_ex (\<lambda>(key, _). HasPrefix key ''$'') fs then Err ErrBadValue
          else Ok (equalsOrHasElement (decimals E) fieldValue arrValue cmp)
      | BRegex p q \<Rightarrow> filterFieldRegex E (Some fieldValue) p q
      | _ \<Rightarrow> Ok (equalsOrHasElement (decimals E) fieldValue arrValue cmp))"

definition in_operator :: "filter_env \<Rightarrow> bson \<Rightarrow> bson \<Rightarrow> collator \<Rightarrow> bool filtered" where
  "in_operator E fieldValue exprValue cmp =
     (case exprValue of BArray arr \<Rightarrow> for_some (in_member E fieldValue cmp) arr | _ \<Rightarrow> Err ErrBadValue)"

text \<open>
  \<open>fieldValue\<close> is \<open>None\<close> for a field that does not exist, which reaches \<open>$exists\<close> and
  \<open>$type\<close>; the other operators see null instead.
\<close>

definition field_operator ::
  "filter_env \<Rightarrow> fields \<Rightarrow> string \<Rightarrow> bson option \<Rightarrow> bson \<Rightarrow> collator \<Rightarrow> bool filtered" where
  "field_operator E expr exprKey fieldValue exprValue cmp =
     (let D = decimals E; fv = (case fieldValue of Some v \<Rightarrow> v | None \<Rightarrow> BNull) in
      if exprKey = ''$eq'' then Ok (equalsOrHasElement D fv exprValue cmp)
      else if exprKey = ''$ne'' then
        (if is_regex exprValue then Err ErrBadValue else Ok (\<not> equalsOrHasElement D fv exprValue cmp))
      else if exprKey = ''$gt'' then range_operator E Descending {Greater} fv exprValue cmp
      else if exprKey = ''$gte'' then range_operator E Descending {Equal, Greater} fv exprValue cmp
      else if exprKey = ''$lt'' then range_operator E Ascending {Less} fv exprValue cmp
      else if exprKey = ''$lte'' then range_operator E Ascending {Equal, Less} fv exprValue cmp
      else if exprKey = ''$in'' then in_operator E fv exprValue cmp
      else if exprKey = ''$nin'' then bind_result (in_operator E fv exprValue cmp) (\<lambda>found. Ok (\<not> found))
      else if exprKey = ''$regex'' then
        bind_result (get_value expr ''$options'') (\<lambda>optionsAny. filterFieldExprRegex E (Some fv) exprValue optionsAny)
      else if exprKey = ''$size'' then filterFieldExprSize (conv E) fv exprValue
      else if exprKey = ''$bitsAllClear'' then filterFieldExprBitsAllClear E fv exprValue
      else if exprKey = ''$bitsAllSet'' then filterFieldExprBitsAllSet E fv exprValue
      else if exprKey = ''$bitsAnyClear'' then filterFieldExprBitsAnyClear E fv exprValue
      else if exprKey = ''$bitsAnySet'' then filterFieldExprBitsAnySet E fv exprValue
      else if exprKey = ''$mod'' then filterFieldMod (conv E) fv exprValue
      else if exprKey = ''$exists'' then Ok (filterFieldExprExists (fieldValue \<noteq> None) exprValue)
      else if exprKey = ''$type'' then filterFieldExprType E fieldValue exprValue
      else if exprKey \<in> {''$geoWithin'', ''$geoIntersects'', ''$near'', ''$nearSphere''}
        then filterGeo E exprKey fv exprValue expr
      else if exprKey \<in> {''$maxDistance'', ''$minDistance''} then Ok True
      else Err ErrBadValue)"

section \<open>The values a filter key reaches\<close>

definition filter_values :: "fields \<Rightarrow> string \<Rightarrow> (string \<times> bson list \<times> bool) filtered" where
  "filter_values doc filterKey =
     (if CHR ''.'' \<in> set filterKey then
        (case NewPathFromString filterKey of
           Panic \<Rightarrow> Panic
         | Err e \<Rightarrow> Err (ErrPath e)
         | Ok path \<Rightarrow>
             bind_result (FindValues doc path find_both) (\<lambda>vals.
               bind_result (HasMissingBranch doc path) (\<lambda>missing. Ok (last path, vals, missing))))
      else bind_result (get_value doc filterKey) (\<lambda>r.
        Ok (filterKey, (case r of Some v \<Rightarrow> [v] | None \<Rightarrow> []), r = None)))"

section \<open>Documents at an array position\<close>

definition isOperatorDocument :: "fields \<Rightarrow> bool" where
  "isOperatorDocument doc \<longleftrightarrow> doc \<noteq> [] \<and> HasPrefix (fst (hd doc)) ''$''"

text \<open>The documents a filter expects and whether it is negated; \<open>None\<close> for another filter.\<close>

definition expected_documents :: "fields \<Rightarrow> (fields list \<times> bool) option" where
  "expected_documents flt =
     (if \<not> isOperatorDocument flt then Some ([flt], False)
      else case flt of
        [(op, operand)] \<Rightarrow>
          if op \<in> {''$eq'', ''$ne''} then
            (case operand of BDocument doc \<Rightarrow> Some ([doc], op = ''$ne'') | _ \<Rightarrow> None)
          else if op \<in> {''$in'', ''$nin''} then
            (case operand of
               BArray members \<Rightarrow>
                 if members = [] \<or> \<not> list_all (\<lambda>m. case m of BDocument _ \<Rightarrow> True | _ \<Rightarrow> False) members then None
                 else Some (map (\<lambda>m. case m of BDocument doc \<Rightarrow> doc | _ \<Rightarrow> []) members, op = ''$nin'')
             | _ \<Rightarrow> None)
          else None
      | _ \<Rightarrow> None)"

definition equals_expected :: "bigint_fun \<Rightarrow> fields list \<Rightarrow> bson \<Rightarrow> bool" where
  "equals_expected D expected v =
     (case v of BDocument d \<Rightarrow> list_ex (\<lambda>e. Compare D v (BDocument e) = Equal) expected | _ \<Rightarrow> False)"

definition positionalDocumentEquality ::
  "bigint_fun \<Rightarrow> fields \<Rightarrow> string \<Rightarrow> bson list \<Rightarrow> fields \<Rightarrow> bool option filtered" where
  "positionalDocumentEquality D doc filterKey vals flt =
     (if CHR ''.'' \<notin> set filterKey \<or> Atoi (last (split_dot filterKey)) = None then Ok None
      else case NewPathFromString filterKey of
        Panic \<Rightarrow> Panic
      | Err e \<Rightarrow> Ok None
      | Ok path \<Rightarrow>
          (case bind_result (TrimSuffix path) (\<lambda>parent. FindValues doc parent find_both) of
             Panic \<Rightarrow> Panic
           | Err e \<Rightarrow> Ok None
           | Ok parents \<Rightarrow>
               if \<not> list_ex is_array parents then Ok None
               else (case expected_documents flt of
                 None \<Rightarrow> Ok None
               | Some (expected, negate) \<Rightarrow>
                   if list_ex (equals_expected D expected) vals then Ok (Some (\<not> negate)) else Ok (Some negate))))"

section \<open>Helpers of the recursive operators\<close>

definition has_elem_match :: "bson list \<Rightarrow> bool filtered" where
  "has_elem_match query = for_some (\<lambda>elem. case elem of
       BDocument d \<Rightarrow> bind_result (get_value d ''$elemMatch'') (\<lambda>r. Ok (r \<noteq> None))
     | _ \<Rightarrow> Ok False) query"

definition all_member :: "filter_env \<Rightarrow> bson \<Rightarrow> bson \<Rightarrow> bool filtered" where
  "all_member E fieldValue q =
     (case q of
        BRegex p q \<Rightarrow> filterFieldRegex E (Some fieldValue) p q
      | _ \<Rightarrow> (case fieldValue of
          BArray arr \<Rightarrow> Ok (Contains (decimals E) arr q)
        | _ \<Rightarrow> Ok (Compare (decimals E) fieldValue q = Equal)))"

text \<open>Whether every key is an operator and none is logical.\<close>

definition elem_match_pure :: "fields \<Rightarrow> bool filtered" where
  "elem_match_pure expr =
     (if list_ex (\<lambda>(key, _). key \<in> {''$text'', ''$where''}) expr then Err ErrBadValue
      else Ok (list_all (\<lambda>(key, _). HasPrefix key ''$'' \<and> key \<notin> {''$and'', ''$or'', ''$nor''}) expr))"

definition equals_elem :: "bigint_fun \<Rightarrow> bson list \<Rightarrow> bson \<Rightarrow> bool" where
  "equals_elem D elem v = (if is_regex v then False else CompareOrder D (BArray elem) v Ascending = Equal)"

definition elem_range :: "bigint_fun \<Rightarrow> bson list \<Rightarrow> string \<Rightarrow> bson \<Rightarrow> bool" where
  "elem_range D elem op v =
     (case v of
        BArray other \<Rightarrow>
          (let c = CompareOrder D (BArray elem) v Ascending in
           if op = ''$gt'' then c = Greater else if op = ''$gte'' then c \<noteq> Less
           else if op = ''$lt'' then c = Less else c \<noteq> Greater)
      | _ \<Rightarrow> False)"

definition elem_members :: "bigint_fun \<Rightarrow> bson list \<Rightarrow> string \<Rightarrow> bson list \<Rightarrow> bool" where
  "elem_members D elem op vs =
     (let someEqual = list_ex (equals_elem D elem) vs; allEqual = (vs \<noteq> [] \<and> list_all (equals_elem D elem) vs) in
      if op = ''$in'' then someEqual else if op = ''$nin'' then \<not> someEqual else allEqual)"

definition elem_type :: "bigint_fun \<Rightarrow> bson \<Rightarrow> bool" where
  "elem_type D v =
     list_ex (\<lambda>code. code = BString ''array'' \<or> Compare D code (BInt32 4) = Equal)
       (case v of BArray vs \<Rightarrow> vs | _ \<Rightarrow> [v])"

definition branch_expr :: "fields \<Rightarrow> string \<Rightarrow> bson \<Rightarrow> fields filtered" where
  "branch_expr expr op opValue =
     bind_result (get_value expr ''$options'') (\<lambda>options.
       Ok ((op, opValue) # (case options of Some v \<Rightarrow> if op = ''$regex'' then [(''$options'', v)] else [] | None \<Rightarrow> [])))"

section \<open>Filters\<close>

abbreviation doc_size :: "fields \<Rightarrow> nat" where
  "doc_size fs \<equiv> size_list (size_prod (\<lambda>_. 0) size) fs"

lemma field_get_single: "field_get fs k = Some v \<Longrightarrow> Suc (Suc (size v)) \<le> doc_size fs"
  by (induction fs) (auto split: if_splits)

lemma field_get_pair:
  "field_get fs k = Some v \<Longrightarrow> field_get fs l = Some w \<Longrightarrow> k \<noteq> l \<Longrightarrow> doc_size [(k, v), (l, w)] \<le> doc_size fs"
  by (induction fs) (auto split: if_splits intro: field_get_single)

lemma branch_expr_size:
  "branch_expr expr op v = Ok e \<Longrightarrow> field_get expr op = Some v \<Longrightarrow> doc_size e \<le> doc_size expr"
  using field_get_single [of expr op v] field_get_pair [of expr op v "''$options''"]
  by (auto simp: branch_expr_def get_value_def split: option.splits if_splits)

lemma array_document_size: "BDocument f \<in> set vs \<Longrightarrow> doc_size f < size_list size vs"
  by (induction vs) auto

lemma pair_value_size: "(k, v) \<in> set fs \<Longrightarrow> size v < doc_size fs"
  by (induction fs) auto

lemma get_value_less: "get_value fs k = Ok (Some v) \<Longrightarrow> size v < doc_size fs"
  using field_get_single [of fs k v] by (auto simp: get_value_def split: if_splits)

lemma must_get_less: "must_get fs k = Ok v \<Longrightarrow> Suc (Suc (size v)) \<le> doc_size fs \<and> field_get fs k = Some v"
  by (auto simp: must_get_Ok_iff intro: field_get_single)

lemma array_get_size: "BDocument d \<in> set vs \<Longrightarrow> get_value d k = Ok (Some v) \<Longrightarrow> size v < size_list size vs"
  by (meson array_document_size get_value_less less_trans)

lemmas filter_sizes = branch_expr_size array_document_size pair_value_size get_value_less must_get_less array_get_size

function (sequential) FilterDocumentColl :: "filter_env \<Rightarrow> fields \<Rightarrow> fields \<Rightarrow> collator \<Rightarrow> bool filtered"
  and filterDocumentPair :: "filter_env \<Rightarrow> fields \<Rightarrow> string \<Rightarrow> bson \<Rightarrow> collator \<Rightarrow> bool filtered"
  and filterOperator :: "filter_env \<Rightarrow> fields \<Rightarrow> string \<Rightarrow> bson \<Rightarrow> collator \<Rightarrow> bool filtered"
  and filterFieldExprBranches :: "filter_env \<Rightarrow> fields list \<Rightarrow> string \<Rightarrow> string \<Rightarrow> fields \<Rightarrow> collator \<Rightarrow> bool filtered"
  and filterFieldExpr :: "filter_env \<Rightarrow> fields \<Rightarrow> string \<Rightarrow> string \<Rightarrow> fields \<Rightarrow> collator \<Rightarrow> bool filtered"
  and filterFieldExprAll :: "filter_env \<Rightarrow> fields \<Rightarrow> string \<Rightarrow> string \<Rightarrow> bson \<Rightarrow> bson \<Rightarrow> collator \<Rightarrow> bool filtered"
  and filterFieldExprElemMatch :: "filter_env \<Rightarrow> fields \<Rightarrow> string \<Rightarrow> string \<Rightarrow> bson \<Rightarrow> collator \<Rightarrow> bool filtered"
  and elemMatchArrayElement :: "filter_env \<Rightarrow> bson list \<Rightarrow> string \<Rightarrow> string \<Rightarrow> fields \<Rightarrow> collator \<Rightarrow> bool filtered" where
  "FilterDocumentColl E doc flt cmp = for_all (\<lambda>(k, v). filterDocumentPair E doc k v cmp) flt"
| "filterDocumentPair E doc filterKey filterValue cmp =
     bind_result (filter_values doc filterKey) (\<lambda>(filterSuffix, vals, missing).
       if HasPrefix filterKey ''$'' then filterOperator E doc filterKey filterValue cmp
       else case filterValue of
         BDocument expr \<Rightarrow>
           bind_result (positionalDocumentEquality (decimals E) doc filterKey vals expr) (\<lambda>r.
             case r of
               Some res \<Rightarrow> Ok res
             | None \<Rightarrow>
                 if filterSuffix = filterKey then filterFieldExpr E doc filterKey filterSuffix expr cmp
                 else (let branches = map (\<lambda>val. [(filterSuffix, val)]) vals @ (if missing then [[]] else []) in
                   if length branches = 1 then filterFieldExpr E (hd branches) filterKey filterSuffix expr cmp
                   else filterFieldExprBranches E branches filterKey filterSuffix expr cmp))
       | BNull \<Rightarrow> Ok (missing \<or> list_ex (\<lambda>val. collCompare (decimals E) val BNull cmp = Equal) vals)
       | BUndefined \<Rightarrow> Err ErrBadValue
       | BRegex p q \<Rightarrow> for_some (\<lambda>val. filterFieldRegex E (Some val) p q) vals
       | _ \<Rightarrow> Ok (list_ex (\<lambda>val. equalsOrHasElement (decimals E) val filterValue cmp) vals))"
| "filterOperator E doc operator filterValue cmp =
     (if operator \<in> {''$and'', ''$or'', ''$nor''} then
        (case filterValue of
           BArray exprs \<Rightarrow>
             if exprs = [] then Err ErrBadValue
             else if \<not> list_all (\<lambda>e. case e of BDocument _ \<Rightarrow> True | _ \<Rightarrow> False) exprs then Err ErrBadValue
             else if operator = ''$and'' then
               for_all (\<lambda>e. case e of BDocument expr \<Rightarrow> FilterDocumentColl E doc expr cmp | _ \<Rightarrow> Panic) exprs
             else if operator = ''$or'' then
               for_some (\<lambda>e. case e of BDocument expr \<Rightarrow> FilterDocumentColl E doc expr cmp | _ \<Rightarrow> Panic) exprs
             else
               for_all (\<lambda>e. case e of BDocument expr \<Rightarrow>
                   bind_result (FilterDocumentColl E doc expr cmp) (\<lambda>m. Ok (\<not> m)) | _ \<Rightarrow> Panic) exprs
         | _ \<Rightarrow> Err ErrBadValue)
      else if operator = ''$text'' then
        (case filterValue of BDocument textDoc \<Rightarrow> filterTextSearch E doc textDoc | _ \<Rightarrow> Err ErrBadValue)
      else if operator = ''$comment'' then Ok True
      else if operator = ''$sampleRate'' then filterSampleRate E filterValue
      else if operator = ''$expr'' then filterExprOperator E doc filterValue
      else if operator = ''$jsonSchema'' then
        (case filterValue of BDocument schema \<Rightarrow> filterJSONSchema E doc schema | _ \<Rightarrow> Err ErrBadValue)
      else Err ErrBadValue)"
| "filterFieldExprBranches E branches filterKey filterSuffix expr cmp =
     (if expr = [] \<or> \<not> HasPrefix (fst (hd expr)) ''$'' then
        bind_result (filterFieldExpr E [] filterKey filterSuffix expr cmp) (\<lambda>_.
          for_some (\<lambda>branch. filterFieldExpr E branch filterKey filterSuffix expr cmp) branches)
      else for_each (\<lambda>op.
        if op = ''$options'' then Ok None
        else bind_result (must_get expr op) (\<lambda>opValue. bind_result (branch_expr expr op opValue) (\<lambda>opExpr.
          bind_result (filterFieldExpr E [] filterKey filterSuffix opExpr cmp) (\<lambda>_.
            let negated = isNegatedFieldOperator op opValue in
            bind_result (for_each (\<lambda>branch.
                bind_result (filterFieldExpr E branch filterKey filterSuffix opExpr cmp) (\<lambda>ok.
                  Ok (if ok \<noteq> negated then Some ok else None))) branches negated) (\<lambda>matched.
              Ok (if \<not> matched then Some False else None)))))) (map fst expr) True)"
| "filterFieldExpr E doc filterKey filterSuffix expr cmp =
     (if expr = [] then bind_result (get_value doc filterSuffix) (\<lambda>r. Ok (r = Some (BDocument [])))
      else for_each (\<lambda>exprKey.
        if exprKey = ''$options'' then Ok None
        else bind_result (must_get expr exprKey) (\<lambda>exprValue.
          bind_result (checkUndefinedOperand exprKey exprValue) (\<lambda>_.
          bind_result (get_value doc filterSuffix) (\<lambda>found.
            let fieldValue = (if found = None \<and> exprKey \<notin> {''$exists'', ''$not'', ''$elemMatch'', ''$type''}
                              then Some BNull else found) in
            if found = None \<and> exprKey = ''$type'' \<and> exprValue = BString ''null'' then Ok (Some False)
            else if \<not> HasPrefix exprKey ''$'' then
              Ok (Some (case fieldValue of
                  Some (BDocument d) \<Rightarrow> Compare (decimals E) (BDocument d) (BDocument expr) = Equal
                | Some (BArray a) \<Rightarrow> Compare (decimals E) (BArray a) (BDocument expr) = Equal
                | _ \<Rightarrow> False))
            else bind_result
              (if exprKey = ''$not'' then
                 (case exprValue of
                    BDocument inner \<Rightarrow> bind_result (filterFieldExpr E doc filterKey filterSuffix inner cmp) (\<lambda>res. Ok (\<not> res))
                  | BRegex p q \<Rightarrow> bind_result (get_value expr ''$options'') (\<lambda>optionsAny.
                      bind_result (filterFieldExprRegex E fieldValue exprValue optionsAny) (\<lambda>res. Ok (\<not> res)))
                  | _ \<Rightarrow> Err ErrBadValue)
               else if exprKey = ''$elemMatch'' then filterFieldExprElemMatch E doc filterKey filterSuffix exprValue cmp
               else if exprKey = ''$all'' then
                 filterFieldExprAll E doc filterKey filterSuffix (case fieldValue of Some v \<Rightarrow> v | None \<Rightarrow> BNull) exprValue cmp
               else field_operator E expr exprKey fieldValue exprValue cmp)
              (\<lambda>res. Ok (if res then None else Some False)))))) (map fst expr) True)"
| "filterFieldExprAll E doc filterKey filterSuffix fieldValue allValue cmp =
     (case allValue of
        BArray query \<Rightarrow>
          if query = [] then Ok False
          else bind_result (has_elem_match query) (\<lambda>hasElemMatch.
            if hasElemMatch then
              for_all (\<lambda>elem. case elem of
                  BDocument elemDoc \<Rightarrow> bind_result (get_value elemDoc ''$elemMatch'') (\<lambda>r.
                    case r of
                      None \<Rightarrow> Ok False
                    | Some elemMatchValue \<Rightarrow> filterFieldExprElemMatch E doc filterKey filterSuffix elemMatchValue cmp)
                | _ \<Rightarrow> Ok False) query
            else case fieldValue of
              BDocument _ \<Rightarrow> Ok False
            | _ \<Rightarrow> for_all (all_member E fieldValue) query)
      | _ \<Rightarrow> Err ErrBadValue)"
| "filterFieldExprElemMatch E doc filterKey filterSuffix exprValue cmp =
     (case exprValue of
        BDocument expr \<Rightarrow>
          bind_result (elem_match_pure expr) (\<lambda>pure. bind_result (get_value doc filterSuffix) (\<lambda>r.
            case r of
              Some (BArray arr) \<Rightarrow> for_some (\<lambda>elem.
                if pure then
                  (case elem of
                     BArray elemArr \<Rightarrow> elemMatchArrayElement E elemArr filterKey filterSuffix expr cmp
                   | _ \<Rightarrow> filterFieldExpr E [(filterSuffix, elem)] filterKey filterSuffix expr cmp)
                else (case elem of BDocument elemDoc \<Rightarrow> FilterDocumentColl E elemDoc expr cmp | _ \<Rightarrow> Ok False)) arr
            | _ \<Rightarrow> Ok False))
      | _ \<Rightarrow> Err ErrBadValue)"
| "elemMatchArrayElement E elem filterKey filterSuffix expr cmp =
     for_each (\<lambda>op. bind_result (must_get expr op) (\<lambda>v.
       if op = ''$options'' then Ok None
       else if op \<in> {''$in'', ''$nin'', ''$all''} \<and> \<not> is_array v then
         bind_result (filterFieldExpr E [(filterSuffix, BArray elem)] filterKey filterSuffix expr cmp) (\<lambda>res. Ok (Some res))
       else bind_result
         (if op = ''$eq'' then Ok (equals_elem (decimals E) elem v)
          else if op = ''$ne'' then Ok (\<not> equals_elem (decimals E) elem v)
          else if op \<in> {''$gt'', ''$gte'', ''$lt'', ''$lte''} then Ok (elem_range (decimals E) elem op v)
          else if op \<in> {''$in'', ''$nin'', ''$all''} then
            Ok (elem_members (decimals E) elem op (case v of BArray vs \<Rightarrow> vs | _ \<Rightarrow> []))
          else if op = ''$regex'' then Ok False
          else if op = ''$not'' then
            (case v of
               BDocument inner \<Rightarrow>
                 bind_result (elemMatchArrayElement E elem filterKey filterSuffix inner cmp) (\<lambda>matched. Ok (\<not> matched))
             | _ \<Rightarrow> Ok True)
          else if op = ''$exists'' then Ok (existsOperandTrue v)
          else if op = ''$type'' then Ok (elem_type (decimals E) v)
          else filterFieldExpr E [(filterSuffix, BArray elem)] filterKey filterSuffix [(op, v)] cmp)
         (\<lambda>ok. Ok (if \<not> ok then Some False else None)))) (map fst expr) True"
  by pat_completeness auto
termination
  by (relation "measure (\<lambda>x. case x of
        Inl (Inl (Inl (_, _, flt, _))) \<Rightarrow> 8 * doc_size flt
      | Inl (Inl (Inr (_, _, _, v, _))) \<Rightarrow> 8 * size v + 5
      | Inl (Inr (Inl (_, _, _, v, _))) \<Rightarrow> 8 * size v + 4
      | Inl (Inr (Inr (_, _, _, _, expr, _))) \<Rightarrow> 8 * doc_size expr + 4
      | Inr (Inl (Inl (_, _, _, _, expr, _))) \<Rightarrow> 8 * doc_size expr + 1
      | Inr (Inl (Inr (_, _, _, _, _, v, _))) \<Rightarrow> 8 * size v
      | Inr (Inr (Inl (_, _, _, _, v, _))) \<Rightarrow> 8 * size v
      | Inr (Inr (Inr (_, _, _, _, expr, _))) \<Rightarrow> 8 * doc_size expr + 2)")
    (auto dest!: filter_sizes)

end
