(* ===== verification/FilterLaws.thy ===== *)
theory FilterLaws
  imports Filters ValueOrder
begin

text \<open>
  What the filter language promises: the negated operators are complements, a range operator
  asks for one element of the operand's type.
\<close>

declare FilterDocumentColl.simps [simp del] filterDocumentPair.simps [simp del] filterOperator.simps [simp del]
  filterFieldExprBranches.simps [simp del] filterFieldExpr.simps [simp del] filterFieldExprAll.simps [simp del]
  filterFieldExprElemMatch.simps [simp del] elemMatchArrayElement.simps [simp del]
  checkUndefinedOperand.simps [simp del] filterFieldMod.simps [simp del]

section \<open>Complements\<close>

definition negate_result :: "('e, bool) result \<Rightarrow> ('e, bool) result" where
  "negate_result r = bind_result r (\<lambda>b. Ok (\<not> b))"

lemma negate_result_simps [simp]:
  "negate_result (Ok b) = Ok (\<not> b)" "negate_result (Err e) = Err e" "negate_result Panic = Panic"
  by (simp_all add: negate_result_def)

lemma negate_bind: "negate_result (bind_result r f) = bind_result r (\<lambda>a. negate_result (f a))"
  by (cases r) auto

lemma must_get_single [simp]: "must_get [(k, v)] k = Ok v"
  by (simp add: must_get_Ok_iff key_count_def)

text \<open>A field expression of one operator that reads the field as null where it does not exist.\<close>

lemma filterFieldExpr_single:
  assumes "HasPrefix k ''$''" "k \<notin> {''$options'', ''$exists'', ''$not'', ''$elemMatch'', ''$type'', ''$all''}"
  shows "filterFieldExpr E doc key suffix [(k, v)] cmp =
    bind_result (checkUndefinedOperand k v) (\<lambda>_. bind_result (get_value doc suffix) (\<lambda>found.
      field_operator E [(k, v)] k (case found of None \<Rightarrow> Some BNull | Some w \<Rightarrow> Some w) v cmp))"
proof -
  have ok: "bind_result r (\<lambda>res. bind_result (Ok (if res then None else Some False))
      (\<lambda>o1. case o1 of None \<Rightarrow> Ok True | Some r \<Rightarrow> Ok r)) = r" for r :: "bool filtered"
    by (cases r) auto
  have ok': "bind_result (bind_result r (\<lambda>res. Ok (if res then None else Some False)))
      (\<lambda>o1. case o1 of None \<Rightarrow> Ok True | Some r \<Rightarrow> Ok r) = r" for r :: "bool filtered"
    by (cases r) auto
  show ?thesis
    using assms by (cases "checkUndefinedOperand k v"; cases "get_value doc suffix :: bson option filtered")
      (auto simp: filterFieldExpr.simps ok' Let_def split: option.splits)
qed

lemma field_operator_complement:
  "\<not> is_regex v \<Longrightarrow>
    field_operator E [(''$ne'', v)] ''$ne'' fv v cmp = negate_result (field_operator E [(''$eq'', v)] ''$eq'' fv v cmp)"
  "field_operator E [(''$nin'', v)] ''$nin'' fv v cmp = negate_result (field_operator E [(''$in'', v)] ''$in'' fv v cmp)"
  by (simp_all add: field_operator_def negate_result_def)

lemma undefined_complement:
  "checkUndefinedOperand ''$ne'' v = checkUndefinedOperand ''$eq'' v"
  "checkUndefinedOperand ''$nin'' v = checkUndefinedOperand ''$in'' v"
  by (simp_all add: checkUndefinedOperand.simps)

definition complements :: "string \<Rightarrow> string \<Rightarrow> bool" where
  "complements pos neg \<longleftrightarrow> (pos, neg) \<in> {(''$eq'', ''$ne''), (''$in'', ''$nin'')}"

lemma filterFieldExpr_complement:
  assumes "complements pos neg" "\<not> is_regex v"
  shows "filterFieldExpr E doc key suffix [(neg, v)] cmp = negate_result (filterFieldExpr E doc key suffix [(pos, v)] cmp)"
  using assms by (auto simp: complements_def filterFieldExpr_single undefined_complement field_operator_complement negate_bind)

lemma branch_expr_single: "op \<noteq> ''$options'' \<Longrightarrow> branch_expr [(op, v)] op v = Ok [(op, v)]"
  by (simp add: branch_expr_def get_value_def key_count_def)

text \<open>One operator on the branches of a dotted path: its result is that of a loop over them.\<close>

definition branches_loop :: "bool \<Rightarrow> ('a \<Rightarrow> bool filtered) \<Rightarrow> 'a list \<Rightarrow> bool filtered" where
  "branches_loop negated f bs =
     for_each (\<lambda>b. bind_result (f b) (\<lambda>ok. Ok (if ok \<noteq> negated then Some ok else None))) bs negated"

lemma branches_loop_negate: "branches_loop True (\<lambda>b. negate_result (f b)) bs = negate_result (branches_loop False f bs)"
proof (induction bs)
  case (Cons b bs)
  then show ?case by (cases "f b") (simp_all add: branches_loop_def)
qed (simp add: branches_loop_def)

lemma filterFieldExprBranches_single:
  assumes "HasPrefix op ''$''" "op \<noteq> ''$options''"
  shows "filterFieldExprBranches E bs key suffix [(op, v)] cmp =
    bind_result (filterFieldExpr E [] key suffix [(op, v)] cmp) (\<lambda>_.
      branches_loop (isNegatedFieldOperator op v) (\<lambda>b. filterFieldExpr E b key suffix [(op, v)] cmp) bs)"
proof -
  have ok: "bind_result (bind_result r (\<lambda>res. Ok (if \<not> res then Some False else None)))
      (\<lambda>o1. case o1 of None \<Rightarrow> Ok True | Some r \<Rightarrow> Ok r) = r" for r :: "bool filtered"
    by (cases r) auto
  show ?thesis
    using assms by (cases "filterFieldExpr E [] key suffix [(op, v)] cmp")
      (simp_all add: filterFieldExprBranches.simps branch_expr_single ok branches_loop_def Let_def)
qed

lemma filterFieldExprBranches_complement:
  assumes "complements pos neg" "\<not> is_regex v"
  shows "filterFieldExprBranches E bs key suffix [(neg, v)] cmp =
    negate_result (filterFieldExprBranches E bs key suffix [(pos, v)] cmp)"
proof -
  have ops: "HasPrefix pos ''$''" "pos \<noteq> ''$options''" "HasPrefix neg ''$''" "neg \<noteq> ''$options''"
    and neg: "isNegatedFieldOperator neg v" "\<not> isNegatedFieldOperator pos v"
    using assms(1) by (auto simp: complements_def isNegatedFieldOperator_def)
  show ?thesis
    unfolding filterFieldExprBranches_single [OF ops(1,2)] filterFieldExprBranches_single [OF ops(3,4)]
      filterFieldExpr_complement [OF assms]
    using neg by (cases "filterFieldExpr E [] key suffix [(pos, v)] cmp") (simp_all add: branches_loop_negate)
qed

lemma expected_documents_complement:
  assumes "complements pos neg"
  shows "expected_documents [(neg, v)] = map_option (\<lambda>(es, n). (es, \<not> n)) (expected_documents [(pos, v)])"
  using assms by (cases v) (auto simp: complements_def expected_documents_def isOperatorDocument_def)

lemma positional_complement:
  assumes "complements pos neg"
  shows "positionalDocumentEquality D doc key vals [(neg, v)] =
    bind_result (positionalDocumentEquality D doc key vals [(pos, v)]) (\<lambda>r. Ok (map_option Not r))"
  unfolding positionalDocumentEquality_def expected_documents_complement [OF assms]
  by (auto split: result.splits option.splits)

lemma filterDocumentPair_complement:
  assumes "complements pos neg" "\<not> is_regex v" "\<not> HasPrefix key ''$''"
  shows "filterDocumentPair E doc key (BDocument [(neg, v)]) cmp =
    negate_result (filterDocumentPair E doc key (BDocument [(pos, v)]) cmp)"
proof (cases "filter_values doc key")
  case (Ok p)
  obtain suffix vals missing where p: "p = (suffix, vals, missing)" by (cases p) auto
  show ?thesis
    using assms(3) Ok p by (cases "positionalDocumentEquality (decimals E) doc key vals [(pos, v)]")
      (auto simp: filterDocumentPair.simps positional_complement [OF assms(1)] Let_def
        filterFieldExpr_complement [OF assms(1,2)] filterFieldExprBranches_complement [OF assms(1,2)] split: option.splits)
qed (simp_all add: filterDocumentPair.simps)

lemma for_all_single: "for_all f [x] = f x"
  by (cases "f x") auto

lemma FilterDocumentColl_single: "FilterDocumentColl E doc [(k, v)] cmp = filterDocumentPair E doc k v cmp"
  by (simp add: FilterDocumentColl.simps for_all_single del: for_all_simps)

lemma for_all_negate: "for_all (\<lambda>x. negate_result (f x)) xs = negate_result (for_some f xs)"
proof (induction xs)
  case (Cons x xs)
  then show ?case by (cases "f x") simp_all
qed simp

lemma for_all_append: "for_all f (xs @ ys) = bind_result (for_all f xs) (\<lambda>b. if b then for_all f ys else Ok False)"
proof (induction xs)
  case (Cons x xs)
  then show ?case by (cases "f x") simp_all
qed simp

lemma for_all_concat: "for_all f (concat xss) = for_all (for_all f) xss"
  by (induction xss) (simp_all add: for_all_append cong: if_cong)

text \<open>
  Property C34 (functional). The negated operators are complements. For every field key, dotted paths through arrays
  included, \<open>$ne\<close> answers the opposite of \<open>$eq\<close> and \<open>$nin\<close> the opposite of \<open>$in\<close>,
  and they fail in the same cases with the same error. The operand itself is not a regular
  expression: \<open>$eq\<close> takes one and \<open>$ne\<close> rejects it.
\<close>

theorem negated_operators:
  assumes "(pos, neg) \<in> {(''$eq'', ''$ne''), (''$in'', ''$nin'')}" "\<not> is_regex v" "\<not> HasPrefix key ''$''"
  shows "FilterDocumentColl E doc [(key, BDocument [(neg, v)])] cmp =
    (case FilterDocumentColl E doc [(key, BDocument [(pos, v)])] cmp of Ok b \<Rightarrow> Ok (\<not> b) | r \<Rightarrow> r)"
  using filterDocumentPair_complement [of pos neg v key E doc cmp] assms
  by (cases "filterDocumentPair E doc key (BDocument [(pos, v)]) cmp") (simp_all add: FilterDocumentColl_single complements_def)

text \<open>An environment for the witnesses: no operator outside the model and no regular expression is used.\<close>

definition sample_filter_env :: filter_env where
  "sample_filter_env = \<lparr>conv = \<lparr>out_of_range_int64 = (\<lambda>_. 0), out_of_range_uint64 = (\<lambda>_. 0)\<rparr>,
     out_of_range_int32 = (\<lambda>_. 0), decimals = sample_bigint,
     pcre_Compile = (\<lambda>_ _ _ _ _. Some (\<lambda>_. Some False)),
     filterTextSearch = (\<lambda>_ _. Err ErrNotImplemented), rand_Float64 = 0,
     decimal_Float64 = (\<lambda>_ _. 0), processExpr = (\<lambda>e _. Ok e), filterJSONSchema = (\<lambda>_ _. Err ErrNotImplemented),
     filterGeo = (\<lambda>_ _ _ _. Err ErrNotImplemented)\<rparr>"

definition sample_nested :: fields where
  "sample_nested = [(''a'', BArray [BDocument [(''b'', BInt32 5)], BDocument [(''b'', BInt32 6)]])]"

theorem negated_operators_witness:
  "FilterDocumentColl sample_filter_env sample_nested [(''a.b'', BDocument [(''$ne'', BInt32 6)])] None = Ok False"
proof -
  have "FilterDocumentColl sample_filter_env sample_nested [(''a.b'', BDocument [(''$eq'', BInt32 6)])] None = Ok True"
    by code_simp
  then show ?thesis
    using negated_operators [of "''$eq''" "''$ne''" "BInt32 6" "''a.b''" sample_filter_env sample_nested None] by simp
qed

section \<open>Logical operators\<close>

text \<open>
  The logical operators are those of the propositional calculus on filters: \<open>$and\<close> of a
  list of filters is the filter with all their fields, and \<open>$nor\<close> answers the opposite of
  \<open>$or\<close>, with the same errors in the same cases.
\<close>

theorem logical_operators:
  "(fs \<noteq> [] \<longrightarrow> filterOperator E doc ''$and'' (BArray (map BDocument fs)) cmp = FilterDocumentColl E doc (concat fs) cmp) \<and>
   filterOperator E doc ''$nor'' v cmp =
     (case filterOperator E doc ''$or'' v cmp of Ok b \<Rightarrow> Ok (\<not> b) | r \<Rightarrow> r)"
proof (intro conjI impI)
  assume "fs \<noteq> []"
  moreover have "for_all f (map BDocument fs) = for_all (\<lambda>x. f (BDocument x)) fs" for f :: "bson \<Rightarrow> bool filtered"
    by (induction fs) (simp_all cong: if_cong)
  moreover have "FilterDocumentColl E doc x cmp = for_all (\<lambda>(k, v). filterDocumentPair E doc k v cmp) x" for x
    by (simp add: FilterDocumentColl.simps)
  ultimately show "filterOperator E doc ''$and'' (BArray (map BDocument fs)) cmp = FilterDocumentColl E doc (concat fs) cmp"
    by (simp add: filterOperator.simps for_all_concat list_all_iff)
next
  let ?f = "\<lambda>e. case e of BDocument expr \<Rightarrow> FilterDocumentColl E doc expr cmp | _ \<Rightarrow> Panic"
  have "(case e of BDocument expr \<Rightarrow> bind_result (FilterDocumentColl E doc expr cmp) (\<lambda>m. Ok (\<not> m)) | _ \<Rightarrow> Panic) =
      negate_result (?f e)" for e
    by (cases e) (simp_all add: negate_result_def)
  then have "for_all (\<lambda>e. case e of BDocument expr \<Rightarrow> bind_result (FilterDocumentColl E doc expr cmp) (\<lambda>m. Ok (\<not> m)) | _ \<Rightarrow> Panic) xs =
      negate_result (for_some ?f xs)" for xs
    by (simp only: for_all_negate)
  moreover have "negate_result r = (case r of Ok b \<Rightarrow> Ok (\<not> b) | r \<Rightarrow> r)" for r :: "bool filtered"
    by (cases r) auto
  ultimately show "filterOperator E doc ''$nor'' v cmp = (case filterOperator E doc ''$or'' v cmp of Ok b \<Rightarrow> Ok (\<not> b) | r \<Rightarrow> r)"
    by (cases v) (simp_all add: filterOperator.simps)
qed

theorem logical_operators_witness:
  "filterOperator sample_filter_env sample_nested ''$and'' (BArray (map BDocument [[(''a.b'', BInt32 5)], [(''a.b'', BInt32 6)]])) None =
     Ok True"
proof -
  have "FilterDocumentColl sample_filter_env sample_nested (concat [[(''a.b'', BInt32 5)], [(''a.b'', BInt32 6)]]) None = Ok True"
    by code_simp
  then show ?thesis
    using logical_operators [of "[[(''a.b'', BInt32 5)], [(''a.b'', BInt32 6)]]" sample_filter_env sample_nested None BNull] by simp
qed

section \<open>Comparison operators\<close>

text \<open>The values a comparison looks at: the elements of an array, else the value, null if missing.\<close>

fun candidates :: "bson option \<Rightarrow> bson list" where
  "candidates None = [BNull]"
| "candidates (Some (BArray vs)) = vs"
| "candidates (Some v) = [v]"

definition same_type :: "bigint_fun \<Rightarrow> bson \<Rightarrow> bson \<Rightarrow> bool" where
  "same_type D v w \<longleftrightarrow> detectDataType D v = detectDataType D w"

lemma order_cmp_same_type: "same_type D v w \<Longrightarrow> CompareOrder D v w order = Compare D v w"
  by (simp add: same_type_def compareTypeOrder_Equal Let_def)

lemma order_cmp_Equal_same_type: "CompareOrder D v w order = Equal \<Longrightarrow> same_type D v w"
  by (auto simp: same_type_def compareTypeOrder_Equal Let_def split: if_splits)

lemma array_loop_Equal:
  "array_loop D vs b res c = Equal \<longleftrightarrow> (\<exists>x\<in>set vs. order_cmp D x b = Equal) \<or> res = Equal \<and> c \<and> vs = []"
proof (induction vs arbitrary: res c)
  case (Cons v vs)
  then show ?case by (cases vs) (auto simp: Let_def compareTypeOrder_Equal)
qed auto

lemma is_array_type: "is_array v \<longleftrightarrow> detectDataType D v = arrayDataType"
  by (cases v) (auto simp: dataType_defs)

lemma Compare_Equal_order:
  assumes "\<not> is_array w" "bigint_total D"
  shows "Compare D w v = Equal \<longleftrightarrow> order_cmp D w v = Equal"
proof (cases "isScalar w")
  case True
  then show ?thesis using compareScalars_other_types [OF assms(2), of w v] Compare_scalar [OF True, of D v] by (auto simp: Let_def)
next
  case False
  with assms(1) show ?thesis by (cases w; cases v) (simp_all add: compareTypeOrder_Equal dataType_defs)
qed

lemma equalsOrHasElement_candidates:
  assumes "\<not> is_array v" "bigint_total D"
  shows "equalsOrHasElement D w v None \<longleftrightarrow> (\<exists>x\<in>set (candidates (Some w)). order_cmp D x v = Equal)"
proof (cases "is_array w")
  case True
  then obtain vs where "w = BArray vs" by (cases w) auto
  then show ?thesis using assms(1)
    by (cases v) (simp_all add: equalsOrHasElement_def collCompare_def array_loop_Equal)
next
  case False
  have "Compare D w v = Equal \<longleftrightarrow> order_cmp D w v = Equal" by (rule Compare_Equal_order [OF False assms(2)])
  with False show ?thesis by (cases w; cases v) (simp_all add: equalsOrHasElement_def collCompare_def del: CompareOrder.simps)
qed

declare CompareOrder.simps [simp del]

text \<open>
  The extreme element decides: with the greatest element of the operand's type, some element
  is above (or not below) the operand exactly when that one is.
\<close>

definition extreme :: "SortType \<Rightarrow> CompareResult" where
  "extreme order = (case order of Ascending \<Rightarrow> Less | Descending \<Rightarrow> Greater)"

lemma comparison_element:
  assumes "bigint_total D" "vs \<noteq> []"
  obtains m where "getComparisonElementFromArray D vs order = Ok m" "m \<in> set vs"
    "\<And>x. x \<in> set vs \<Longrightarrow> order_cmp D x m = Equal \<or> order_cmp D m x = extreme order"
proof -
  note tw = three_way_CompareOrder [OF assms(1)]
  obtain v vs' where vs: "vs = v # vs'" using assms(2) by (cases vs) auto
  have inv: "order_cmp D b a = compareInvert (order_cmp D a b)" for a b by (rule three_way.cmp_invert [OF tw UNIV_I UNIV_I])
  show ?thesis
  proof (cases order)
    case Ascending
    let ?m = "foldl (\<lambda>m v. if order_cmp D m v = Greater then v else m) v vs'"
    have m: "?m \<in> set vs \<and> (\<forall>x\<in>set vs. order_cmp D ?m x \<noteq> Greater)"
      using three_way.fold_min [OF tw, of v vs'] vs by simp
    show ?thesis
    proof (rule that [of ?m])
      show "getComparisonElementFromArray D vs order = Ok ?m"
        using Ascending vs by (simp add: getComparisonElementFromArray_def)
      show "order_cmp D x ?m = Equal \<or> order_cmp D ?m x = extreme order" if "x \<in> set vs" for x
        using m that inv [of x ?m] Ascending by (cases "order_cmp D ?m x") (auto simp: extreme_def)
    qed (use m in simp)
  next
    case Descending
    let ?m = "foldl (\<lambda>m v. if order_cmp D m v = Less then v else m) v vs'"
    have "order_cmp D v m = Greater \<longleftrightarrow> order_cmp D m v = Less" for v m by (subst inv) simp
    then have m: "?m \<in> set vs \<and> (\<forall>x\<in>set vs. order_cmp D x ?m \<noteq> Greater)"
      using three_way.fold_min [OF three_way_converse [OF tw], of v vs'] vs by simp
    show ?thesis
    proof (rule that [of ?m])
      show "getComparisonElementFromArray D vs order = Ok ?m"
        using Descending vs by (simp add: getComparisonElementFromArray_def)
      show "order_cmp D x ?m = Equal \<or> order_cmp D ?m x = extreme order" if "x \<in> set vs" for x
        using m that inv [of ?m x] Descending by (cases "order_cmp D x ?m") (auto simp: extreme_def)
    qed (use m in simp)
  qed
qed

lemma extreme_decides:
  assumes "bigint_total D" "m \<in> set vs" "b \<in> {{extreme order}, {extreme order, Equal}}"
    and "\<And>x. x \<in> set vs \<Longrightarrow> order_cmp D x m = Equal \<or> order_cmp D m x = extreme order"
  shows "order_cmp D m v \<in> b \<longleftrightarrow> (\<exists>x\<in>set vs. order_cmp D x v \<in> b)"
proof
  assume "\<exists>x\<in>set vs. order_cmp D x v \<in> b"
  then obtain x where x: "x \<in> set vs" "order_cmp D x v \<in> b" by blast
  note tw = three_way_CompareOrder [OF assms(1)]
  have inv: "order_cmp D c a = compareInvert (order_cmp D a c)" for a c by (rule three_way.cmp_invert [OF tw UNIV_I UNIV_I])
  from assms(4) [OF x(1)] show "order_cmp D m v \<in> b"
  proof
    assume "order_cmp D x m = Equal"
    then show ?thesis using three_way.equal_left [OF tw, of x m v] x(2) by simp
  next
    assume e: "order_cmp D m x = extreme order"
    show ?thesis
    proof (cases order)
      case Ascending
      then show ?thesis using three_way.less_le_trans [OF tw, of m x v] e x(2) assms(3) by (auto simp: extreme_def)
    next
      case Descending
      have "order_cmp D x m = Less" "order_cmp D v x \<noteq> Greater"
        using e x(2) assms(3) Descending inv [of m x] inv [of x v] by (auto simp: extreme_def)
      then have "order_cmp D v m = Less" using three_way.le_less_trans [OF tw, of v x m] by simp
      then show ?thesis using inv [of v m] assms(3) Descending by (auto simp: extreme_def)
    qed
  qed
qed (use assms(2) in blast)

lemma CompareOrderForOperator_candidates:
  assumes "bigint_total D" "\<not> is_array v" "b \<in> {{extreme order}, {extreme order, Equal}}"
  shows "\<exists>r. CompareOrderForOperator D w v order = Ok r \<and>
    (r \<in> b \<longleftrightarrow> (\<exists>x\<in>set (candidates (Some w)). same_type D x v \<and> order_cmp D x v \<in> b))"
proof (cases "is_array w")
  case False
  have out: "(case order of Ascending \<Rightarrow> Greater | Descending \<Rightarrow> Less) \<notin> b"
    using assms(3) by (cases order) (auto simp: extreme_def)
  have c: "candidates (Some w) = [w]" using False by (cases w) auto
  have "CompareOrderForOperator D w v order =
      Ok (if compareTypeOrder D w v \<noteq> Equal then (case order of Ascending \<Rightarrow> Greater | Descending \<Rightarrow> Less) else Compare D w v)"
    using False assms(2) by (cases w; cases v) (simp_all add: CompareOrderForOperator_def)
  then show ?thesis using out c order_cmp_same_type [of D w v] by (auto simp: same_type_def compareTypeOrder_Equal simp del: Compare.simps)
next
  case True
  then obtain vs where w: "w = BArray vs" by (cases w) auto
  let ?vs = "FilterArrayByType D vs v"
  have out: "(case order of Ascending \<Rightarrow> Greater | Descending \<Rightarrow> Less) \<notin> b"
    using assms(3) by (cases order) (auto simp: extreme_def)
  have unf: "CompareOrderForOperator D w v order =
      bind_result (getComparisonElementFromArray D ?vs order) (\<lambda>a.
        if compareTypeOrder D a v \<noteq> Equal then Ok (case order of Ascending \<Rightarrow> Greater | Descending \<Rightarrow> Less) else Ok (Compare D a v))"
    using assms(2) w by (cases v) (simp_all add: CompareOrderForOperator_def Let_def cong: if_cong)
  have mem: "x \<in> set ?vs \<longleftrightarrow> x \<in> set vs \<and> same_type D x v" for x
    by (auto simp: FilterArrayByType_def same_type_def)
  show ?thesis
  proof (cases "?vs = []")
    case True
    have "arrayDataType \<noteq> detectDataType D v" using assms(2) is_array_type [of v D] by metis
    then have "CompareOrderForOperator D w v order = Ok (case order of Ascending \<Rightarrow> Greater | Descending \<Rightarrow> Less)"
      using True unf by (simp add: getComparisonElementFromArray_def compareTypeOrder_Equal)
    then show ?thesis using out mem True w by auto
  next
    case False
    obtain m where m: "getComparisonElementFromArray D ?vs order = Ok m" "m \<in> set ?vs"
      "\<And>x. x \<in> set ?vs \<Longrightarrow> order_cmp D x m = Equal \<or> order_cmp D m x = extreme order"
      using comparison_element [OF assms(1) False] by blast
    have "same_type D m v" using m(2) mem by blast
    then have "CompareOrderForOperator D w v order = Ok (order_cmp D m v)"
      using unf m(1) order_cmp_same_type [of D m v] by (simp add: same_type_def compareTypeOrder_Equal)
    moreover have "order_cmp D m v \<in> b \<longleftrightarrow> (\<exists>x\<in>set ?vs. order_cmp D x v \<in> b)"
      by (rule extreme_decides [OF assms(1) m(2) assms(3) m(3)])
    ultimately show ?thesis using mem w by (auto)
  qed
qed

lemma plain_pair:
  assumes "CHR ''.'' \<notin> set key" "\<not> HasPrefix key ''$''" "key_count doc key \<le> 1"
  shows "filterDocumentPair E doc key (BDocument expr) cmp = filterFieldExpr E doc key key expr cmp"
  using assms by (simp add: filterDocumentPair.simps filter_values_def get_value_def positionalDocumentEquality_def)

lemma plain_get: "key_count doc key \<le> 1 \<Longrightarrow> get_value doc key = Ok (field_get doc key)"
  by (simp add: get_value_def)

lemma plain_operator:
  assumes "CHR ''.'' \<notin> set key" "\<not> HasPrefix key ''$''" "key_count doc key \<le> 1" "HasPrefix op ''$''"
    "op \<notin> {''$options'', ''$exists'', ''$not'', ''$elemMatch'', ''$type'', ''$all''}" "checkUndefinedOperand op v = Ok ()"
  shows "FilterDocumentColl E doc [(key, BDocument [(op, v)])] cmp =
    field_operator E [(op, v)] op (case field_get doc key of None \<Rightarrow> Some BNull | Some w \<Rightarrow> Some w) v cmp"
  using assms by (simp add: FilterDocumentColl_single plain_pair filterFieldExpr_single plain_get)

definition comparison_operators :: "(string \<times> CompareResult set) list" where
  "comparison_operators = [(''$eq'', {Equal}), (''$gt'', {Greater}), (''$gte'', {Greater, Equal}),
     (''$lt'', {Less}), (''$lte'', {Less, Equal})]"

lemma range_operator_candidates:
  assumes "bigint_total (decimals E)" "\<not> is_array v" "\<not> is_regex v" "b \<in> {{extreme order}, {extreme order, Equal}}"
  shows "range_operator E order b w v None =
    Ok (\<exists>x\<in>set (candidates (Some w)). same_type (decimals E) x v \<and> order_cmp (decimals E) x v \<in> b)"
  using CompareOrderForOperator_candidates [OF assms(1,2,4), of w] assms(3)
  by (auto simp: range_operator_def collCompareOrderOp_def no_error_def)

lemma candidates_Some: "candidates (case m of None \<Rightarrow> Some BNull | Some w \<Rightarrow> Some w) = candidates m"
  by (cases m) auto

lemma field_operator_comparisons:
  "field_operator E e ''$eq'' (Some w) v cmp = Ok (equalsOrHasElement (decimals E) w v cmp)"
  "field_operator E e ''$gt'' (Some w) v cmp = range_operator E Descending {Greater} w v cmp"
  "field_operator E e ''$gte'' (Some w) v cmp = range_operator E Descending {Greater, Equal} w v cmp"
  "field_operator E e ''$lt'' (Some w) v cmp = range_operator E Ascending {Less} w v cmp"
  "field_operator E e ''$lte'' (Some w) v cmp = range_operator E Ascending {Less, Equal} w v cmp"
  by (simp_all add: field_operator_def insert_commute)

lemma field_operator_candidates:
  assumes "(op, accepted) \<in> set comparison_operators" "bigint_total (decimals E)" "\<not> is_array v" "\<not> is_regex v"
  shows "field_operator E e op (Some w) v None =
    Ok (\<exists>x\<in>set (candidates (Some w)). same_type (decimals E) x v \<and> order_cmp (decimals E) x v \<in> accepted)"
proof -
  note range = range_operator_candidates [OF assms(2-4)]
  from assms(1) consider "op = ''$eq''" "accepted = {Equal}" | "op = ''$gt''" "accepted = {Greater}"
    | "op = ''$gte''" "accepted = {Greater, Equal}" | "op = ''$lt''" "accepted = {Less}"
    | "op = ''$lte''" "accepted = {Less, Equal}"
    by (auto simp: comparison_operators_def)
  then show ?thesis
  proof cases
    case 1
    show ?thesis unfolding 1 field_operator_comparisons equalsOrHasElement_candidates [OF assms(3,2)]
      by (auto dest: order_cmp_Equal_same_type)
  qed (simp_all only: field_operator_comparisons, (rule range; simp add: extreme_def)+)
qed

end
