(* ===== verification/FilterSafety.thy ===== *)
theory FilterSafety
  imports FilterLaws
begin

text \<open>
  When filters panic. \<open>Document.Get\<close> panics on a duplicate key, and \<open>$mod\<close> on an
  operand that is not an array, and \<open>$expr\<close> on a result of a type its switch does not name;
  the theorems show that nothing else in the modelled part of the filter language does.
\<close>

section \<open>Results that are no panic\<close>

named_theorems safe_rules

definition safe :: "('e, 'a) result \<Rightarrow> bool" where
  "safe r \<longleftrightarrow> r \<noteq> Panic"

lemma safe_simps [simp]: "safe (Ok a)" "safe (Err e)" "\<not> safe Panic"
  by (simp_all add: safe_def)

lemma safe_bind [safe_rules]: "safe m \<Longrightarrow> (\<And>a. m = Ok a \<Longrightarrow> safe (f a)) \<Longrightarrow> safe (bind_result m f)"
  by (cases m) auto

lemma safe_for_each [safe_rules]: "(\<And>x. x \<in> set xs \<Longrightarrow> safe (f x)) \<Longrightarrow> safe (for_each f xs r)"
  by (induction xs) (auto intro!: safe_bind split: option.splits)

lemma safe_for_all [safe_rules]: "(\<And>x. x \<in> set xs \<Longrightarrow> safe (f x)) \<Longrightarrow> safe (for_all f xs)"
  unfolding for_all_def by (intro safe_rules) auto

lemma safe_for_some [safe_rules]: "(\<And>x. x \<in> set xs \<Longrightarrow> safe (f x)) \<Longrightarrow> safe (for_some f xs)"
  unfolding for_some_def by (intro safe_rules) auto

lemma safe_if: "(c \<Longrightarrow> safe a) \<Longrightarrow> (\<not> c \<Longrightarrow> safe b) \<Longrightarrow> safe (if c then a else b)"
  by simp

lemma safe_no_error: "safe (no_error r) \<longleftrightarrow> (\<exists>a. r = Ok a)"
  by (cases r) (simp_all add: no_error_def)

section \<open>Documents and filters without panics\<close>

text \<open>
  A filter whose documents have no duplicate key and whose \<open>$mod\<close> operands are arrays. Of the
  operators that are parameters nothing is assumed but this: where one occurs in the filter it does
  not panic on that operand. An \<open>$expr\<close> evaluates to a value of the types its switch names.
\<close>

definition expr_truth :: "bson \<Rightarrow> bool" where
  "expr_truth v = (case v of BDecimal128 _ _ \<Rightarrow> False | BMinKey \<Rightarrow> False | BMaxKey \<Rightarrow> False | BUndefined \<Rightarrow> False | _ \<Rightarrow> True)"

definition operand_ok :: "filter_env \<Rightarrow> string \<Rightarrow> bson \<Rightarrow> bool" where
  "operand_ok E k v \<longleftrightarrow>
     (k = ''$mod'' \<longrightarrow> is_array v) \<and>
     (k = ''$expr'' \<longrightarrow> (\<forall>doc. case processExpr E v doc of Ok r \<Rightarrow> expr_truth r | Err _ \<Rightarrow> True | Panic \<Rightarrow> False)) \<and>
     (k = ''$text'' \<longrightarrow> (\<forall>doc t. v = BDocument t \<longrightarrow> safe (filterTextSearch E doc t))) \<and>
     (k = ''$jsonSchema'' \<longrightarrow> (\<forall>doc s. v = BDocument s \<longrightarrow> safe (filterJSONSchema E doc s))) \<and>
     (k \<in> {''$geoWithin'', ''$geoIntersects'', ''$near'', ''$nearSphere''} \<longrightarrow> (\<forall>fv expr. safe (filterGeo E k fv v expr)))"

fun filter_ok :: "filter_env \<Rightarrow> bson \<Rightarrow> bool" where
  "filter_ok E (BDocument fs) \<longleftrightarrow>
     distinct (map fst fs) \<and> list_all (\<lambda>(k, v). operand_ok E k v \<and> filter_ok E v) fs"
| "filter_ok E (BArray vs) \<longleftrightarrow> list_all (filter_ok E) vs"
| "filter_ok E _ \<longleftrightarrow> True"

lemma distinct_get: "distinct (map fst fs) \<Longrightarrow> get_value fs k = Ok (field_get fs k)"
  using key_count_distinct [of fs k] by (simp add: get_value_def)

lemma no_dup_get: "no_dup (BDocument fs) \<Longrightarrow> get_value fs k = Ok (field_get fs k)"
  by (simp add: distinct_get)

lemma filter_ok_get: "filter_ok E (BDocument fs) \<Longrightarrow> get_value fs k = Ok (field_get fs k)"
  by (simp add: distinct_get)

lemma no_dup_field: "no_dup (BDocument fs) \<Longrightarrow> field_get fs k = Some v \<Longrightarrow> no_dup v"
  by (auto simp: list_all_iff dest!: field_get_in)

lemma filter_ok_field:
  "filter_ok E (BDocument fs) \<Longrightarrow> field_get fs k = Some v \<Longrightarrow> filter_ok E v \<and> operand_ok E k v"
  by (auto simp: list_all_iff dest!: field_get_in)

lemma field_get_key: "k \<in> fst ` set fs \<Longrightarrow> \<exists>v. field_get fs k = Some v"
  by (auto simp: field_get_map_of dest: weak_map_of_SomeI)

lemma must_get_filter_ok:
  "filter_ok E (BDocument fs) \<Longrightarrow> must_get fs k = Ok v \<Longrightarrow> filter_ok E v \<and> operand_ok E k v"
  using filter_ok_field [of E fs k v] by (auto simp: must_get_Ok_iff)

lemma filter_ok_distinct: "filter_ok E (BDocument fs) \<Longrightarrow> distinct (map fst fs)"
  by simp

lemma safe_must_get [safe_rules]:
  assumes "distinct (map fst fs)" "k \<in> fst ` set fs"
  shows "safe (must_get fs k)"
  using field_get_key [OF assms(2)] by (auto simp: must_get_def distinct_get [OF assms(1)])

lemma safe_get_value: "filter_ok E (BDocument fs) \<or> no_dup (BDocument fs) \<Longrightarrow> safe (get_value fs k)"
  by (auto simp: filter_ok_get no_dup_get simp del: filter_ok.simps no_dup.simps)

lemma branch_expr_ok:
  assumes "filter_ok E (BDocument expr)" "must_get expr op = Ok v"
  shows "safe (branch_expr expr op v)" and "branch_expr expr op v = Ok e \<Longrightarrow> filter_ok E (BDocument e)"
  using must_get_filter_ok [OF assms] filter_ok_field [OF assms(1), of "''$options''"]
  by (auto simp: branch_expr_def filter_ok_get [OF assms(1)] split: option.splits)

lemma safe_checkUndefinedOperand: "filter_ok E v \<Longrightarrow> safe (checkUndefinedOperand op v)"
proof (induction op v rule: checkUndefinedOperand.induct)
  case (1 op v)
  show ?case
  proof (cases v)
    case (BDocument inner)
    have ok: "filter_ok E (BDocument inner)" using 1(2) BDocument by simp
    have "safe (checkUndefinedOperand k w)"
      if "op \<in> {''$not'', ''$elemMatch''}" "k \<in> fst ` set inner" "HasPrefix k ''$''"
        "(must_get inner k :: bson filtered) = Ok w" for k w
    proof -
      have "k \<in> set (map fst inner)" "\<not> \<not> HasPrefix k ''$''" using that by simp_all
      then show ?thesis using 1(1) [OF that(1) BDocument _ _ that(4)] must_get_filter_ok [OF ok that(4)] by blast
    qed
    then show ?thesis unfolding BDocument checkUndefinedOperand.simps [of op "BDocument inner"] bson.case
      by (intro safe_if safe_rules) (use filter_ok_distinct [OF ok] in simp_all)
  qed (unfold checkUndefinedOperand.simps [of op v], (simp only: bson.case, (intro safe_if safe_simps))+)
qed

section \<open>Operators\<close>

lemma Ok_if: "(c \<Longrightarrow> \<exists>a. x = Ok a) \<Longrightarrow> (\<not> c \<Longrightarrow> \<exists>a. y = Ok a) \<Longrightarrow> \<exists>a. (if c then x else y) = Ok a"
  by simp

lemma Ok_bind: "\<exists>a. m = Ok a \<Longrightarrow> (\<And>a. \<exists>b. f a = Ok b) \<Longrightarrow> \<exists>b. bind_result m f = Ok b"
  by auto

lemma CompareOrderForOperator_Ok: "\<exists>r. CompareOrderForOperator D a b order = Ok r"
proof -
  have "\<exists>m. getComparisonElementFromArray D vs order = Ok m" for vs
    by (cases vs; cases order) (simp_all add: getComparisonElementFromArray_def)
  then show ?thesis unfolding CompareOrderForOperator_def Let_def by (intro Ok_if Ok_bind) simp_all
qed

lemma safe_collCompareOrderOp: "safe (collCompareOrderOp D a b order cmp)"
  using CompareOrderForOperator_Ok [of D a b order]
  by (auto simp: collCompareOrderOp_def safe_no_error split: option.splits bson.splits)

lemma safe_match_string: "safe (match_string re s)"
  by (simp add: match_string_def split: option.splits)

lemma safe_filterFieldRegex [safe_rules]: "safe (filterFieldRegex E fv p q)"
  unfolding filterFieldRegex_def
  by (auto intro!: safe_rules safe_match_string split: option.splits bson.splits)

lemma safe_filterFieldExprRegex [safe_rules]: "safe (filterFieldExprRegex E fv v options)"
  unfolding filterFieldExprRegex_def
  by (intro safe_rules) (auto intro: safe_rules split: option.splits bson.splits)

lemma safe_GetWholeNumberParam: "safe (GetWholeNumberParam C v)"
  by (cases v) (simp_all add: GetWholeNumberParam_def)

lemma safe_filterFieldExprSize: "safe (filterFieldExprSize C fv v)"
  using safe_GetWholeNumberParam [of C v]
  by (auto simp: filterFieldExprSize_def split: result.splits bson.splits)

lemma safe_positions_mask: "safe (positions_mask C vs m)"
proof (induction vs arbitrary: m)
  case (Cons v vs)
  have "safe (bit_position C v)" using safe_GetWholeNumberParam [of C v] by (auto simp: bit_position_def split: result.splits)
  with Cons show ?case by (auto intro!: safe_rules)
qed simp

lemma safe_bits_operator: "safe (bits_operator E test fv v)"
proof -
  have "safe (getBinaryMaskParam (conv E) v)" by (cases v) (simp_all add: getBinaryMaskParam_def safe_positions_mask)
  then show ?thesis unfolding bits_operator_def by (intro safe_rules) (auto split: bson.splits)
qed

lemma safe_mod_params: "is_array v \<Longrightarrow> safe (mod_params C v)"
proof -
  have "safe (mod_param C d)" for d by (cases d) (simp_all add: mod_param_def Let_def)
  then show "is_array v \<Longrightarrow> safe (mod_params C v)"
    by (cases v) (auto simp: mod_params_def intro!: safe_rules split: list.splits)
qed

lemma safe_filterFieldMod: "is_array v \<Longrightarrow> safe (filterFieldMod C fv v)"
proof (induction C fv v rule: filterFieldMod.induct)
  case (1 C fv v)
  have "safe (for_some (\<lambda>elem. filterFieldMod C elem v) arr)" if "mod_params C v = Ok p" "fv = BArray arr" for p arr
    using 1 that by (cases p) (auto intro!: safe_rules)
  then show ?case
    unfolding filterFieldMod.simps [of C fv v] using safe_mod_params [OF 1(2), of C]
    by (intro safe_rules) (auto split: prod.splits bson.splits)
qed

lemma safe_filterFieldExprType: "safe (filterFieldExprType E fv v)"
proof -
  have "safe (type_operand E w)" for w
    by (cases w) (simp_all add: type_operand_def NewTypeCode_def ParseTypeCode_def split: option.splits)
  then show ?thesis unfolding filterFieldExprType_def Let_def by (cases v) (auto intro!: safe_rules)
qed

lemma safe_in_operator: "safe (in_operator E fv v cmp)"
proof -
  have "safe (in_member E fv cmp m)" for m by (cases m) (auto simp: in_member_def intro: safe_rules)
  then show ?thesis by (cases v) (simp_all add: in_operator_def safe_for_some)
qed

lemma safe_range_operator: "safe (range_operator E order b fv v cmp)"
  unfolding range_operator_def by (intro safe_if safe_rules safe_collCompareOrderOp) simp_all

lemma safe_filterSampleRate: "safe (filterSampleRate E v)"
  unfolding filterSampleRate_def Let_def by (cases v) (auto intro!: safe_if)

lemma safe_filterExprOperator:
  assumes "operand_ok E ''$expr'' v"
  shows "safe (filterExprOperator E doc v)"
proof -
  have "case processExpr E v doc of Ok r \<Rightarrow> expr_truth r | Err _ \<Rightarrow> True | Panic \<Rightarrow> False"
    using assms by (simp add: operand_ok_def)
  then show ?thesis by (auto simp: filterExprOperator_def expr_truth_def split: result.splits bson.splits)
qed

lemma safe_field_operator:
  assumes "filter_ok E (BDocument expr)" "operand_ok E k v"
  shows "safe (field_operator E expr k fv v cmp)"
  using safe_get_value [OF disjI1 [OF assms(1)], of "''$options''"]
  unfolding field_operator_def Let_def filterFieldExprBitsAllClear_def filterFieldExprBitsAllSet_def
    filterFieldExprBitsAnyClear_def filterFieldExprBitsAnySet_def
  by (intro safe_if safe_rules safe_simps safe_range_operator safe_in_operator safe_filterFieldExprSize safe_bits_operator
      safe_filterFieldMod safe_filterFieldExprType assms)
    (use assms(2) in \<open>auto simp: operand_ok_def\<close>)

section \<open>Paths\<close>

lemma no_dup_element: "no_dup (BArray vs) \<Longrightarrow> v \<in> set vs \<Longrightarrow> no_dup v"
  by (simp add: list_all_iff)

lemma findArrayIndex_in: "findArrayIndex vs k = Some v \<Longrightarrow> v \<in> set vs"
  by (auto simp: findArrayIndex_def array_Get_def not_le nat_less_iff split: option.splits if_splits)

lemma lookupArrayDocuments_no_dup:
  "no_dup (BArray vs) \<Longrightarrow> \<exists>ws. lookupArrayDocuments vs k = (Ok ws :: ('e, bson list) result) \<and> list_all no_dup ws"
proof (induction vs)
  case (Cons v vs)
  then obtain ws where ws: "lookupArrayDocuments vs k = (Ok ws :: ('e, bson list) result)" "list_all no_dup ws" by auto
  show ?case
  proof (cases v)
    case (BDocument fs)
    have "no_dup (BDocument fs)" using Cons.prems BDocument by (simp del: no_dup.simps(1))
    then show ?thesis using ws BDocument no_dup_field [of fs k]
      by (auto simp: no_dup_get simp del: no_dup.simps split: option.splits)
  qed (use ws in simp_all)
qed simp

lemma find_next_no_dup: "no_dup v \<Longrightarrow> \<exists>ws. find_next opts e v = (Ok ws :: ('e, bson list) result) \<and> list_all no_dup ws"
proof (cases v)
  case (BDocument fs)
  assume "no_dup v"
  then show ?thesis using BDocument no_dup_field [of fs e]
    by (auto simp: no_dup_get simp del: no_dup.simps split: option.splits)
next
  case (BArray vs)
  assume "no_dup v"
  then have nd: "no_dup (BArray vs)" using BArray by simp
  show ?thesis using lookupArrayDocuments_no_dup [OF nd, of e] no_dup_element [OF nd] BArray
    by (auto dest: findArrayIndex_in simp del: no_dup.simps split: option.splits)
qed simp_all

lemma find_all_no_dup: "list_all no_dup vs \<Longrightarrow> \<exists>ws. find_all opts e vs = (Ok ws :: ('e, bson list) result) \<and> list_all no_dup ws"
proof (induction vs)
  case (Cons v vs)
  obtain ws where "find_next opts e v = (Ok ws :: ('e, bson list) result)" "list_all no_dup ws"
    using find_next_no_dup [of v opts e] Cons.prems by auto
  then show ?case using Cons by auto
qed simp

lemma find_path_no_dup: "list_all no_dup vs \<Longrightarrow> \<exists>ws. find_path opts p vs = (Ok ws :: ('e, bson list) result) \<and> list_all no_dup ws"
proof (induction p arbitrary: vs)
  case (Cons e p)
  obtain ws where "find_all opts e vs = (Ok ws :: ('e, bson list) result)" "list_all no_dup ws"
    using find_all_no_dup [OF Cons.prems] by blast
  then show ?case using Cons.IH by auto
qed simp

lemma FindValues_no_dup:
  "no_dup (BDocument doc) \<Longrightarrow> \<exists>ws. FindValues doc p opts = (Ok ws :: ('e, bson list) result) \<and> list_all no_dup ws"
  unfolding FindValues_def by (rule find_path_no_dup) (simp del: no_dup.simps)

lemma safe_missing_size:
  "(\<forall>v p. size v < n \<longrightarrow> no_dup v \<longrightarrow> safe (hasMissingBranch v p :: ('e, bool) result)) \<and>
   (\<forall>vs p. size_list size vs < n \<longrightarrow> list_all no_dup vs \<longrightarrow> safe (missing_in vs p :: ('e, bool) result))"
proof (induction n)
  case (Suc n)
  have "safe (hasMissingBranch v p :: ('e, bool) result)" if "size v < Suc n" "no_dup v" for v p
  proof (cases p)
    case (Cons k ks)
    show ?thesis
    proof (cases v)
      case (BDocument fs)
      with that Suc Cons show ?thesis using no_dup_field [of fs k] field_get_size [of fs k]
        by (auto simp: no_dup_get simp del: no_dup.simps split: option.splits)
    next
      case (BArray vs)
      have "safe (hasMissingBranch w ks :: ('e, bool) result)" if "findArrayIndex vs k = Some w" for w
        using that \<open>size v < Suc n\<close> \<open>no_dup v\<close> Suc BArray findArrayIndex_size [OF that] findArrayIndex_in [OF that]
        by (auto simp: list_all_iff)
      with that Suc Cons BArray show ?thesis by (auto intro!: safe_rules split: option.splits)
    qed (use Cons in simp_all)
  qed simp
  moreover have "safe (missing_in vs p :: ('e, bool) result)" if "size_list size vs < Suc n" "list_all no_dup vs" for vs p
    using that Suc by (cases vs) (auto intro!: safe_rules simp del: no_dup.simps(1) hasMissingBranch.simps split: bson.splits)
  ultimately show ?case by blast
qed simp

lemma safe_HasMissingBranch: "no_dup (BDocument doc) \<Longrightarrow> safe (HasMissingBranch doc p)"
  using safe_missing_size [of "Suc (size (BDocument doc))"] unfolding HasMissingBranch_def by blast

lemma safe_NewPathFromString: "safe (NewPathFromString s)"
  by (simp add: NewPathFromString_def newPath_def split: option.splits)

lemma filter_values_safe:
  assumes "no_dup (BDocument doc)"
  shows "safe (filter_values doc key)"
    and "filter_values doc key = Ok (suffix, vals, missing) \<Longrightarrow> list_all no_dup vals"
proof -
  obtain ws where ws: "\<And>p. FindValues doc p find_both = (Ok (ws p) :: bson list filtered)" "\<And>p. list_all no_dup (ws p)"
    using FindValues_no_dup [OF assms] by metis
  show "safe (filter_values doc key)"
    using ws safe_HasMissingBranch [OF assms] safe_NewPathFromString [of key]
    by (auto simp: filter_values_def no_dup_get [OF assms] intro!: safe_rules split: result.splits)
  show "list_all no_dup vals" if "filter_values doc key = Ok (suffix, vals, missing)"
    using that ws no_dup_field [OF assms, of key]
    by (auto simp: filter_values_def no_dup_get [OF assms] split: result.splits if_splits option.splits)
qed

lemma check_elements_butlast: "check_elements p = None \<Longrightarrow> check_elements (butlast p) = None"
  by (induction p rule: check_elements.induct) (auto split: if_splits)

lemma split_dot_length: "CHR ''.'' \<in> set s \<Longrightarrow> 1 < length (split_dot s)"
proof (induction s)
  case (Cons c s)
  have "split_dot s \<noteq> []" by (induction s) (auto split: list.splits)
  with Cons show ?case by (auto split: list.splits if_splits)
qed simp

lemma safe_positional:
  assumes "no_dup (BDocument doc)"
  shows "safe (positionalDocumentEquality D doc key vals flt)"
proof -
  obtain ws where ws: "\<And>p. FindValues doc p find_both = (Ok (ws p) :: (path_error, bson list) result)"
    using FindValues_no_dup [OF assms] by metis
  have "safe (TrimSuffix path)" if "NewPathFromString key = Ok path" "CHR ''.'' \<in> set key" for path
    using that split_dot_length [OF that(2)] check_elements_butlast [of path]
    by (auto simp: NewPathFromString_def newPath_def TrimSuffix_def NewStaticPath_def split: option.splits)
  then have "safe (bind_result (TrimSuffix path) (\<lambda>parent. FindValues doc parent find_both))"
    if "NewPathFromString key = Ok path" "CHR ''.'' \<in> set key" for path
    using that ws by (auto intro!: safe_rules)
  then show ?thesis
    using safe_NewPathFromString [of key]
    by (auto simp: positionalDocumentEquality_def safe_def split: result.splits option.splits)
qed

section \<open>The recursive group\<close>

lemma filter_ok_pair: "filter_ok E (BDocument flt) \<Longrightarrow> (k, v) \<in> set flt \<Longrightarrow> filter_ok E v \<and> operand_ok E k v"
  by (auto simp: list_all_iff)

lemma filter_ok_element: "filter_ok E (BArray vs) \<Longrightarrow> v \<in> set vs \<Longrightarrow> filter_ok E v"
  by (simp add: list_all_iff)

lemma no_dup_single: "no_dup (BDocument [(k, v)]) \<longleftrightarrow> no_dup v"
  by simp

lemma no_dup_empty: "no_dup (BDocument [])"
  by simp

declare filter_ok.simps(1) [simp del] no_dup.simps(1) [simp del]

text \<open>
  The eight functions on filters below a size; the offsets are those of the termination
  measure.
\<close>

definition group_safe :: "filter_env \<Rightarrow> collator \<Rightarrow> nat \<Rightarrow> bool" where
  "group_safe E cmp n \<longleftrightarrow>
     (\<forall>doc flt. 8 * doc_size flt < n \<longrightarrow> no_dup (BDocument doc) \<longrightarrow> filter_ok E (BDocument flt) \<longrightarrow>
        safe (FilterDocumentColl E doc flt cmp)) \<and>
     (\<forall>doc key v. 8 * size v + 5 < n \<longrightarrow> no_dup (BDocument doc) \<longrightarrow> filter_ok E v \<longrightarrow> operand_ok E key v \<longrightarrow>
        safe (filterDocumentPair E doc key v cmp)) \<and>
     (\<forall>doc op v. 8 * size v + 4 < n \<longrightarrow> no_dup (BDocument doc) \<longrightarrow> filter_ok E v \<longrightarrow> operand_ok E op v \<longrightarrow>
        safe (filterOperator E doc op v cmp)) \<and>
     (\<forall>bs key suffix expr. 8 * doc_size expr + 4 < n \<longrightarrow> list_all (\<lambda>b. no_dup (BDocument b)) bs \<longrightarrow>
        filter_ok E (BDocument expr) \<longrightarrow> safe (filterFieldExprBranches E bs key suffix expr cmp)) \<and>
     (\<forall>doc key suffix expr. 8 * doc_size expr + 1 < n \<longrightarrow> no_dup (BDocument doc) \<longrightarrow> filter_ok E (BDocument expr) \<longrightarrow>
        safe (filterFieldExpr E doc key suffix expr cmp)) \<and>
     (\<forall>doc key suffix fv v. 8 * size v < n \<longrightarrow> no_dup (BDocument doc) \<longrightarrow> filter_ok E v \<longrightarrow>
        safe (filterFieldExprAll E doc key suffix fv v cmp)) \<and>
     (\<forall>doc key suffix v. 8 * size v < n \<longrightarrow> no_dup (BDocument doc) \<longrightarrow> filter_ok E v \<longrightarrow>
        safe (filterFieldExprElemMatch E doc key suffix v cmp)) \<and>
     (\<forall>elem key suffix expr. 8 * doc_size expr + 2 < n \<longrightarrow> no_dup (BArray elem) \<longrightarrow> filter_ok E (BDocument expr) \<longrightarrow>
        safe (elemMatchArrayElement E elem key suffix expr cmp))"

lemma group_safeD:
  assumes "group_safe E cmp n"
  shows "8 * doc_size flt < n \<Longrightarrow> no_dup (BDocument doc) \<Longrightarrow> filter_ok E (BDocument flt) \<Longrightarrow> safe (FilterDocumentColl E doc flt cmp)"
    "8 * size v + 5 < n \<Longrightarrow> no_dup (BDocument doc) \<Longrightarrow> filter_ok E v \<Longrightarrow> operand_ok E key v \<Longrightarrow>
      safe (filterDocumentPair E doc key v cmp)"
    "8 * size v + 4 < n \<Longrightarrow> no_dup (BDocument doc) \<Longrightarrow> filter_ok E v \<Longrightarrow> operand_ok E op v \<Longrightarrow>
      safe (filterOperator E doc op v cmp)"
    "8 * doc_size expr + 4 < n \<Longrightarrow> list_all (\<lambda>b. no_dup (BDocument b)) bs \<Longrightarrow> filter_ok E (BDocument expr) \<Longrightarrow>
      safe (filterFieldExprBranches E bs key suffix expr cmp)"
    "8 * doc_size expr + 1 < n \<Longrightarrow> no_dup (BDocument doc) \<Longrightarrow> filter_ok E (BDocument expr) \<Longrightarrow>
      safe (filterFieldExpr E doc key suffix expr cmp)"
    "8 * size v < n \<Longrightarrow> no_dup (BDocument doc) \<Longrightarrow> filter_ok E v \<Longrightarrow> safe (filterFieldExprAll E doc key suffix fv v cmp)"
    "8 * size v < n \<Longrightarrow> no_dup (BDocument doc) \<Longrightarrow> filter_ok E v \<Longrightarrow> safe (filterFieldExprElemMatch E doc key suffix v cmp)"
    "8 * doc_size expr + 2 < n \<Longrightarrow> no_dup (BArray elem) \<Longrightarrow> filter_ok E (BDocument expr) \<Longrightarrow>
      safe (elemMatchArrayElement E elem key suffix expr cmp)"
  using assms by (simp_all add: group_safe_def)

lemma step_FilterDocumentColl:
  assumes "group_safe E cmp n" "8 * doc_size flt < Suc n" "no_dup (BDocument doc)" "filter_ok E (BDocument flt)"
  shows "safe (FilterDocumentColl E doc flt cmp)"
  unfolding FilterDocumentColl.simps
  by (rule safe_for_all) (use assms(2,3) filter_ok_pair [OF assms(4)] pair_value_size [of _ _ flt] in \<open>force intro: group_safeD(2) [OF assms(1)]\<close>)

lemma step_filterOperator:
  assumes "operand_ok E op v" "group_safe E cmp n" "8 * size v + 4 < Suc n" "no_dup (BDocument doc)" "filter_ok E v"
  shows "safe (filterOperator E doc op v cmp)"
proof -
  have sub: "safe (FilterDocumentColl E doc f cmp)" if "v = BArray exprs" "BDocument f \<in> set exprs" for exprs f
  proof (rule group_safeD(1) [OF assms(2) _ assms(4)])
    show "filter_ok E (BDocument f)" using assms(5) that filter_ok_element by blast
    show "8 * doc_size f < n" using array_document_size [OF that(2)] assms(3) that(1) by simp
  qed
  have expr: "safe (filterExprOperator E doc w)" if "op = ''$expr''" "w = v" for w
    using safe_filterExprOperator assms(1) that by blast
  have docs: "\<exists>f. e = BDocument f"
    if "list_all (\<lambda>e. case e of BDocument _ \<Rightarrow> True | _ \<Rightarrow> False) exprs" "e \<in> set exprs" for exprs e
    using that by (cases e) (auto simp: list_all_iff)
  show ?thesis
  proof (cases v)
    case (BArray exprs)
    have each: "safe (case e of BDocument expr \<Rightarrow> FilterDocumentColl E doc expr cmp | _ \<Rightarrow> Panic)"
      "safe (case e of BDocument expr \<Rightarrow> bind_result (FilterDocumentColl E doc expr cmp) (\<lambda>m. Ok (\<not> m)) | _ \<Rightarrow> Panic)"
      if "list_all (\<lambda>e. case e of BDocument _ \<Rightarrow> True | _ \<Rightarrow> False) exprs" "e \<in> set exprs" for e
      using docs [OF that] sub [OF BArray] that(2) by (auto intro!: safe_rules)
    show ?thesis unfolding BArray filterOperator.simps [of E doc op "BArray exprs"] bson.case
      by (intro safe_if safe_rules safe_simps each safe_filterSampleRate expr) (simp_all add: BArray)
  next
    case (BDocument fs)
    show ?thesis unfolding BDocument filterOperator.simps [of E doc op "BDocument fs"] bson.case
      by (intro safe_if safe_simps safe_filterSampleRate expr) (use assms(1) BDocument in \<open>simp_all add: operand_ok_def\<close>)
  qed (unfold filterOperator.simps [of E doc op v], simp_all add: safe_filterSampleRate expr)
qed

lemma step_filterFieldExprAll:
  assumes "group_safe E cmp n" "8 * size v < Suc n" "no_dup (BDocument doc)" "filter_ok E v"
  shows "safe (filterFieldExprAll E doc key suffix fv v cmp)"
proof (cases v)
  case (BArray query)
  have q: "filter_ok E x" if "x \<in> set query" for x using assms(4) BArray that filter_ok_element by blast
  have hem: "safe (has_elem_match query)"
    unfolding has_elem_match_def using q by (auto intro!: safe_rules safe_get_value split: bson.splits)
  have sub: "safe (filterFieldExprElemMatch E doc key suffix m cmp)"
    if "BDocument d \<in> set query" "get_value d ''$elemMatch'' = (Ok (Some m) :: bson option filtered)" for d m
  proof (rule group_safeD(7) [OF assms(1) _ assms(3)])
    show "filter_ok E m" using filter_ok_field [OF q [OF that(1)]] that(2) by (simp add: filter_ok_get [OF q [OF that(1)]])
    show "8 * size m < n" using array_get_size [OF that] assms(2) BArray by simp
  qed
  have "safe (all_member E fv q)" for q by (cases q; cases fv) (simp_all add: all_member_def safe_filterFieldRegex)
  then have plain: "safe (case fv of BDocument _ \<Rightarrow> Ok False | _ \<Rightarrow> for_all (all_member E fv) query)"
    by (cases fv) (simp_all add: safe_for_all)
  have one: "safe (case e of BDocument d \<Rightarrow> bind_result (get_value d ''$elemMatch'') (\<lambda>r. case r of None \<Rightarrow> Ok False
      | Some m \<Rightarrow> filterFieldExprElemMatch E doc key suffix m cmp) | _ \<Rightarrow> Ok False)" if "e \<in> set query" for e
    by (cases e) (use that sub q [OF that] in \<open>auto intro!: safe_rules safe_get_value split: option.splits\<close>)
  show ?thesis unfolding BArray filterFieldExprAll.simps [of E doc key suffix fv "BArray query"] bson.case
    by (intro safe_if safe_rules safe_simps hem plain one)
qed (simp_all add: filterFieldExprAll.simps)

lemma step_filterFieldExprElemMatch:
  assumes "group_safe E cmp n" "8 * size v < Suc n" "no_dup (BDocument doc)" "filter_ok E v"
  shows "safe (filterFieldExprElemMatch E doc key suffix v cmp)"
proof (cases v)
  case (BDocument expr)
  have ok: "filter_ok E (BDocument expr)" and size: "8 * doc_size expr + 2 < n" using assms(2,4) BDocument by simp_all
  have pure: "safe (elem_match_pure expr)" by (simp add: elem_match_pure_def)
  have elems: "no_dup e" if "get_value doc suffix = (Ok (Some (BArray arr)) :: bson option filtered)" "e \<in> set arr" for arr e
    using that no_dup_field [OF assms(3), of suffix] by (auto simp: no_dup_get [OF assms(3)] list_all_iff)
  have one: "safe (if p then (case e of BArray ea \<Rightarrow> elemMatchArrayElement E ea key suffix expr cmp
          | _ \<Rightarrow> filterFieldExpr E [(suffix, e)] key suffix expr cmp)
        else (case e of BDocument ed \<Rightarrow> FilterDocumentColl E ed expr cmp | _ \<Rightarrow> Ok False))" if "no_dup e" for e p
    by (cases e) (use that size ok in \<open>auto simp: no_dup_single intro!: safe_if group_safeD [OF assms(1)] simp del: no_dup.simps(2)\<close>)
  have "safe (for_some (\<lambda>e. if p then (case e of BArray ea \<Rightarrow> elemMatchArrayElement E ea key suffix expr cmp
          | _ \<Rightarrow> filterFieldExpr E [(suffix, e)] key suffix expr cmp)
        else (case e of BDocument ed \<Rightarrow> FilterDocumentColl E ed expr cmp | _ \<Rightarrow> Ok False)) arr)"
    if "get_value doc suffix = (Ok (Some (BArray arr)) :: bson option filtered)" for arr p
    by (rule safe_for_some) (rule one [OF elems [OF that]])
  then show ?thesis unfolding BDocument filterFieldExprElemMatch.simps [of E doc key suffix "BDocument expr"] bson.case
    by (intro safe_rules pure safe_get_value disjI2 assms(3)) (auto split: option.splits bson.splits)
qed (simp_all add: filterFieldExprElemMatch.simps)

lemma step_elemMatchArrayElement:
  assumes "group_safe E cmp n" "8 * doc_size expr + 2 < Suc n" "no_dup (BArray elem)" "filter_ok E (BDocument expr)"
  shows "safe (elemMatchArrayElement E elem key suffix expr cmp)"
proof -
  have elem: "no_dup (BDocument [(suffix, BArray elem)])" using assms(3) by (simp add: no_dup_single)
  have whole: "safe (filterFieldExpr E [(suffix, BArray elem)] key suffix expr cmp)"
    using assms(2,4) elem by (auto intro!: group_safeD(5) [OF assms(1)])
  have inner: "safe (elemMatchArrayElement E elem key suffix e cmp)"
    if "must_get expr op = (Ok (BDocument e) :: bson filtered)" for op e
    using must_get_less [OF that] must_get_filter_ok [OF assms(4) that] assms(2,3) by (auto intro!: group_safeD(8) [OF assms(1)])
  have single: "safe (filterFieldExpr E [(suffix, BArray elem)] key suffix [(op, v)] cmp)"
    if "must_get expr op = (Ok v :: bson filtered)" for op v
    using must_get_less [OF that] must_get_filter_ok [OF assms(4) that] assms(2) elem
    by (intro group_safeD(5) [OF assms(1)]) (auto simp: filter_ok.simps(1))
  show ?thesis unfolding elemMatchArrayElement.simps [of E elem key suffix expr]
    by (intro safe_if safe_rules safe_simps filter_ok_distinct [OF assms(4)] whole single)
      (auto intro!: safe_rules inner split: bson.splits)
qed

lemma step_filterFieldExpr:
  assumes "group_safe E cmp n" "8 * doc_size expr + 1 < Suc n" "no_dup (BDocument doc)" "filter_ok E (BDocument expr)"
  shows "safe (filterFieldExpr E doc key suffix expr cmp)"
proof -
  have get: "safe (get_value doc k :: bson option filtered)" "safe (get_value expr k :: bson option filtered)" for k
    using assms(3,4) by (auto intro: safe_get_value)
  have sub: "safe (checkUndefinedOperand op v)" "safe (filterFieldExprAll E doc key suffix fv v cmp)"
    "safe (filterFieldExprElemMatch E doc key suffix v cmp)" "safe (field_operator E expr op r v cmp)"
    if "must_get expr op = (Ok v :: bson filtered)" for op v fv r
    using must_get_less [OF that] must_get_filter_ok [OF assms(4) that] assms(2,3)
    by (auto intro!: safe_checkUndefinedOperand group_safeD [OF assms(1)] safe_field_operator [OF assms(4)])
  have inner: "safe (filterFieldExpr E doc key suffix e cmp)"
    if "must_get expr op = (Ok (BDocument e) :: bson filtered)" for op e
    using must_get_less [OF that] must_get_filter_ok [OF assms(4) that] assms(2,3) by (auto intro!: group_safeD(5) [OF assms(1)])
  have negation: "safe (case v of
        BDocument inner \<Rightarrow> bind_result (filterFieldExpr E doc key suffix inner cmp) (\<lambda>res. Ok (\<not> res))
      | BRegex p q \<Rightarrow> bind_result (get_value expr ''$options'') (\<lambda>options.
          bind_result (filterFieldExprRegex E r v options) (\<lambda>res. Ok (\<not> res)))
      | _ \<Rightarrow> Err ErrBadValue)" if "must_get expr op = (Ok v :: bson filtered)" for op v r
    by (cases v) (use that inner get in \<open>auto intro!: safe_rules\<close>)
  show ?thesis unfolding filterFieldExpr.simps [of E doc key suffix expr] Let_def
    by (intro safe_if safe_rules safe_simps filter_ok_distinct [OF assms(4)] get sub negation) auto
qed

lemma step_filterFieldExprBranches:
  assumes "group_safe E cmp n" "8 * doc_size expr + 4 < Suc n" "list_all (\<lambda>b. no_dup (BDocument b)) bs" "filter_ok E (BDocument expr)"
  shows "safe (filterFieldExprBranches E bs key suffix expr cmp)"
proof -
  have whole: "safe (filterFieldExpr E b key suffix expr cmp)" if "b \<in> insert [] (set bs)" for b
    using that assms by (auto simp: list_all_iff intro!: group_safeD(5) [OF assms(1)] no_dup_empty)
  have part: "safe (branch_expr expr op v)" "branch_expr expr op v = Ok e \<Longrightarrow> b \<in> insert [] (set bs) \<Longrightarrow> safe (filterFieldExpr E b key suffix e cmp)"
    if "must_get expr op = (Ok v :: bson filtered)" for op v e b
  proof -
    show "safe (branch_expr expr op v)" by (rule branch_expr_ok [OF assms(4) that])
    assume e: "branch_expr expr op v = Ok e" and b: "b \<in> insert [] (set bs)"
    have "doc_size e \<le> doc_size expr" using branch_expr_size [OF e] must_get_less [OF that] by blast
    then show "safe (filterFieldExpr E b key suffix e cmp)"
      using b assms branch_expr_ok(2) [OF assms(4) that e]
      by (auto simp: list_all_iff intro!: group_safeD(5) [OF assms(1)] no_dup_empty)
  qed
  show ?thesis unfolding filterFieldExprBranches.simps [of E bs key suffix expr] Let_def
    by (intro safe_if safe_rules safe_simps filter_ok_distinct [OF assms(4)] whole part) (auto intro: part)
qed

lemma branches_no_dup:
  "list_all no_dup vals \<Longrightarrow> list_all (\<lambda>b. no_dup (BDocument b)) (map (\<lambda>val. [(s, val)]) vals @ (if m then [[]] else []))"
  by (auto simp: list_all_iff no_dup_single no_dup_empty)

lemma list_all_hd: "list_all P xs \<Longrightarrow> length xs = 1 \<Longrightarrow> P (hd xs)"
  by (cases xs) auto

lemma step_filterDocumentPair:
  assumes "group_safe E cmp n" "8 * size v + 5 < Suc n" "no_dup (BDocument doc)" "filter_ok E v" "operand_ok E key v"
  shows "safe (filterDocumentPair E doc key v cmp)"
proof (cases "filter_values doc key")
  case (Ok p)
  obtain suffix vals missing where p: "p = (suffix, vals, missing)" by (cases p) auto
  have op: "safe (filterOperator E doc key v cmp)" using assms by (auto intro!: group_safeD(3) [OF assms(1)])
  have branches: "list_all (\<lambda>b. no_dup (BDocument b)) (map (\<lambda>val. [(suffix, val)]) vals @ (if missing then [[]] else []))"
    using filter_values_safe(2) [OF assms(3)] Ok p by (blast intro: branches_no_dup)
  show ?thesis
  proof (cases v)
    case (BDocument e)
    have expr: "safe (filterFieldExpr E d key suffix e cmp)" if "no_dup (BDocument d)" for d
      using that assms BDocument by (auto intro!: group_safeD(5) [OF assms(1)])
    have many: "safe (filterFieldExprBranches E bs key suffix e cmp)" if "list_all (\<lambda>b. no_dup (BDocument b)) bs" for bs
      using that assms BDocument by (auto intro!: group_safeD(4) [OF assms(1)])
    have rest: "safe (case r of Some res \<Rightarrow> Ok res | None \<Rightarrow>
        if suffix = key then filterFieldExpr E doc key suffix e cmp
        else if length (map (\<lambda>val. [(suffix, val)]) vals @ (if missing then [[]] else [])) = 1
          then filterFieldExpr E (hd (map (\<lambda>val. [(suffix, val)]) vals @ (if missing then [[]] else []))) key suffix e cmp
          else filterFieldExprBranches E (map (\<lambda>val. [(suffix, val)]) vals @ (if missing then [[]] else [])) key suffix e cmp)" for r
      by (cases r) (intro safe_if expr many assms(3) branches list_all_hd [OF branches] | simp only: option.case safe_simps)+
    show ?thesis
      unfolding BDocument filterDocumentPair.simps [of E doc key "BDocument e"] Ok p bind_result.simps prod.case Let_def bson.case
      by (intro safe_if op [unfolded BDocument] safe_rules safe_positional [OF assms(3)] rest)
  qed (unfold filterDocumentPair.simps [of E doc key v] Ok p, use op in \<open>auto intro!: safe_rules\<close>)
qed (use filter_values_safe(1) [OF assms(3), of key] in \<open>simp_all add: filterDocumentPair.simps [of E doc key v]\<close>)

lemma group_is_safe: "group_safe E cmp n"
proof (induction n)
  case (Suc n)
  note IH = Suc.IH
  show ?case unfolding group_safe_def
    using step_FilterDocumentColl [OF IH] step_filterDocumentPair [OF IH] step_filterOperator [OF _ IH]
      step_filterFieldExprBranches [OF IH] step_filterFieldExpr [OF IH] step_filterFieldExprAll [OF IH]
      step_filterFieldExprElemMatch [OF IH] step_elemMatchArrayElement [OF IH] by (intro conjI allI impI)
qed (simp add: group_safe_def)

section \<open>Panics\<close>

lemma expr_panics:
  assumes "no_dup (BDocument doc)" "processExpr E v doc = Ok r" "\<not> expr_truth r"
  shows "FilterDocumentColl E doc [(''$expr'', v)] cmp = Panic"
proof -
  have "filterExprOperator E doc v = Panic"
    using assms(2,3) by (cases r) (simp_all add: filterExprOperator_def expr_truth_def)
  then show ?thesis
    by (simp add: FilterDocumentColl.simps filterDocumentPair.simps filterOperator.simps [of E doc "''$expr''"] filter_values_def
        no_dup_get [OF assms(1)] for_all_def)
qed

text \<open>
  Property C20 (safety). When filters panic and when not. With no duplicate keys in the document and the filter,
  arrays as the \<open>$mod\<close> operands, and \<open>$expr\<close> operands that evaluate to an error or to a value
  that is not a Decimal128, MinKey, MaxKey or undefined, \<open>FilterDocumentColl\<close> returns a result
  or an error, whatever the operators, paths and nesting. Where \<open>$text\<close>, \<open>$jsonSchema\<close> or a
  geometric operator occurs in the filter, its routine is not modelled and must not panic on its
  operand; a filter without them needs no such condition. An \<open>$expr\<close> with a result of one of
  the four types panics.
\<close>

theorem filter_no_panic:
  assumes "no_dup (BDocument doc)"
  shows "(filter_ok E (BDocument flt) \<longrightarrow> FilterDocumentColl E doc flt cmp \<noteq> Panic) \<and>
    (processExpr E v doc = Ok r \<and> \<not> expr_truth r \<longrightarrow> FilterDocumentColl E doc [(''$expr'', v)] cmp = Panic)"
  using group_safeD(1) [OF group_is_safe _ assms, of flt "Suc (8 * doc_size flt)" E cmp] expr_panics [OF assms, of E v r cmp]
  by (auto simp: safe_def)

theorem filter_no_panic_witness:
  "FilterDocumentColl sample_filter_env sample_nested
     [(''a'', BDocument [(''$elemMatch'', BDocument [(''b'', BDocument [(''$mod'', BArray [BInt32 4, BInt32 1])])])]),
      (''$expr'', BInt32 1)] None \<noteq> Panic \<and>
   FilterDocumentColl sample_filter_env sample_nested [(''$expr'', BDecimal128 0 0)] None = Panic"
  using filter_no_panic [of sample_nested sample_filter_env
      "[(''a'', BDocument [(''$elemMatch'', BDocument [(''b'', BDocument [(''$mod'', BArray [BInt32 4, BInt32 1])])])]), (''$expr'', BInt32 1)]"
      None "BDecimal128 0 0" "BDecimal128 0 0"]
  by (simp add: sample_filter_env_def sample_nested_def no_dup.simps(1) filter_ok.simps(1) operand_ok_def expr_truth_def)

text \<open>
  Property C36 (error). The operand of \<open>$mod\<close> is not checked before it is used: any operand that is not an array
  makes the filter panic on every document, an error elsewhere in the language.
\<close>

theorem mod_operand_panics:
  assumes "\<not> is_array v" "CHR ''.'' \<notin> set key" "\<not> HasPrefix key ''$''" "no_dup (BDocument doc)"
  shows "FilterDocumentColl E doc [(key, BDocument [(''$mod'', v)])] cmp = Panic"
proof -
  have "key_count doc key \<le> 1" using assms(4) key_count_distinct by (simp add: no_dup.simps(1))
  moreover have "mod_params C v = Panic" for C using assms(1) by (cases v) (simp_all add: mod_params_def)
  ultimately show ?thesis
    using assms(2,3) by (simp add: plain_operator checkUndefinedOperand.simps field_operator_def filterFieldMod.simps)
qed

theorem mod_operand_panics_witness:
  "FilterDocumentColl sample_filter_env [(''x'', BInt32 7)] [(''x'', BDocument [(''$mod'', BInt32 5)])] None = Panic"
  by (rule mod_operand_panics) (simp_all add: no_dup.simps(1))

end
