(* ===== verification/FilterMatch.thy ===== *)
theory FilterMatch
  imports FilterSafety
begin

text \<open>
  When a field condition matches, on any path: the candidates are the values the path reaches,
  the elements of those that are arrays, and null for a branch that misses it. The planner and
  partial indexes rest on these characterisations.
\<close>

section \<open>Conditions as conjunctions\<close>

text \<open>Operators that read their neighbours or are read by them.\<close>

definition sibling_operators :: "string set" where
  "sibling_operators = {''$options'', ''$geoWithin'', ''$geoIntersects'', ''$near'', ''$nearSphere''}"

definition operator_expr :: "fields \<Rightarrow> bool" where
  "operator_expr expr \<longleftrightarrow> expr \<noteq> [] \<and> distinct (map fst expr) \<and>
     list_all (\<lambda>(op, v). HasPrefix op ''$'' \<and> op \<notin> sibling_operators) expr"

lemma operator_expr_op: "operator_expr expr \<Longrightarrow> (op, v) \<in> set expr \<Longrightarrow> HasPrefix op ''$'' \<and> op \<notin> sibling_operators"
  by (auto simp: operator_expr_def list_all_iff)

lemma must_get_distinct: "distinct (map fst expr) \<Longrightarrow> (k, v) \<in> set expr \<Longrightarrow> must_get expr k = Ok v"
  using field_get_map_of [of expr] key_count_distinct [of expr k] by (simp add: must_get_Ok_iff)

lemma no_options:
  assumes "operator_expr expr"
  shows "get_value expr ''$options'' = (Ok None :: bson option filtered)"
proof -
  have "''$options'' \<notin> fst ` set expr" using operator_expr_op [OF assms] by (force simp: sibling_operators_def)
  then have "field_get expr ''$options'' = None" by (simp add: field_get_map_of map_of_eq_None_iff)
  then show ?thesis using distinct_get [of expr "''$options''"] assms by (simp add: operator_expr_def)
qed

lemma for_each_map: "for_each f (map g xs) r = for_each (\<lambda>x. f (g x)) xs r"
  by (induction xs) auto

lemma field_operator_no_options:
  "op \<notin> sibling_operators \<Longrightarrow> get_value e ''$options'' = (get_value e' ''$options'' :: bson option filtered) \<Longrightarrow> field_operator E e op fv v cmp = field_operator E e' op fv v cmp"
  by (simp add: field_operator_def sibling_operators_def Let_def cong: if_cong)

lemma get_options_single: "op \<noteq> ''$options'' \<Longrightarrow> get_value [(op, v)] ''$options'' = Ok None"
  by (simp add: get_value_def key_count_def)

lemma bind_single: "for_each (\<lambda>(_::'a). bind_result r (\<lambda>res. Ok (if res then None else Some False))) [x] True = r"
  by (cases r) auto

lemma filterFieldExpr_step:
  assumes "HasPrefix op ''$''" "op \<notin> sibling_operators" "must_get expr op = (Ok v :: bson filtered)"
    "get_value expr ''$options'' = (Ok None :: bson option filtered)"
  shows "(if op = ''$options'' then Ok None
        else bind_result (must_get expr op) (\<lambda>exprValue.
          bind_result (checkUndefinedOperand op exprValue) (\<lambda>_.
          bind_result (get_value doc suffix) (\<lambda>found.
            let fieldValue = (if found = None \<and> op \<notin> {''$exists'', ''$not'', ''$elemMatch'', ''$type''}
                              then Some BNull else found) in
            if found = None \<and> op = ''$type'' \<and> exprValue = BString ''null'' then Ok (Some False)
            else if \<not> HasPrefix op ''$'' then
              Ok (Some (case fieldValue of
                  Some (BDocument d) \<Rightarrow> Compare (decimals E) (BDocument d) (BDocument expr) = Equal
                | Some (BArray a) \<Rightarrow> Compare (decimals E) (BArray a) (BDocument expr) = Equal
                | _ \<Rightarrow> False))
            else bind_result
              (if op = ''$not'' then
                 (case exprValue of
                    BDocument inner \<Rightarrow> bind_result (filterFieldExpr E doc key suffix inner cmp) (\<lambda>res. Ok (\<not> res))
                  | BRegex p q \<Rightarrow> bind_result (get_value expr ''$options'') (\<lambda>optionsAny.
                      bind_result (filterFieldExprRegex E fieldValue exprValue optionsAny) (\<lambda>res. Ok (\<not> res)))
                  | _ \<Rightarrow> Err ErrBadValue)
               else if op = ''$elemMatch'' then filterFieldExprElemMatch E doc key suffix exprValue cmp
               else if op = ''$all'' then
                 filterFieldExprAll E doc key suffix (case fieldValue of Some v \<Rightarrow> v | None \<Rightarrow> BNull) exprValue cmp
               else field_operator E expr op fieldValue exprValue cmp)
              (\<lambda>res. Ok (if res then None else Some False))))))
     = bind_result (filterFieldExpr E doc key suffix [(op, v)] cmp) (\<lambda>b. Ok (if b then None else Some False))"
proof -
  have r: "bind_result r (\<lambda>res. Ok (if res then None else Some False)) =
      bind_result (bind_result (bind_result r (\<lambda>res. Ok (if res then None else Some False)))
        (\<lambda>o1. case o1 of None \<Rightarrow> Ok True | Some r \<Rightarrow> Ok r)) (\<lambda>b. Ok (if b then None else Some False))" for r :: "bool filtered"
    by (cases r) auto
  have "op \<noteq> ''$options''" using assms(2) by (auto simp: sibling_operators_def)
  moreover have fo: "field_operator E expr op fv w cmp = field_operator E [(op, v)] op fv w cmp" for fv w
    using assms(2,4) calculation by (intro field_operator_no_options) (simp_all add: get_options_single)
  ultimately show ?thesis
    using assms(1,3)
    unfolding filterFieldExpr.simps [of E doc key suffix "[(op, v)]"] fo assms(4)
    by (cases "checkUndefinedOperand op v"; cases "get_value doc suffix :: bson option filtered")
      (auto simp: Let_def r [symmetric] get_options_single split: bson.splits)
qed

lemma filterFieldExpr_conjunction:
  assumes "operator_expr expr"
  shows "filterFieldExpr E b key suffix expr cmp = for_all (\<lambda>(op, v). filterFieldExpr E b key suffix [(op, v)] cmp) expr"
proof -
  have d: "distinct (map fst expr)" "expr \<noteq> []" using assms by (simp_all add: operator_expr_def)
  have step: "\<lbrakk>(op, v) \<in> set expr\<rbrakk> \<Longrightarrow> HasPrefix op ''$'' \<and> op \<notin> sibling_operators \<and> must_get expr op = (Ok v :: bson filtered)" for op v
    using must_get_distinct [OF d(1)] operator_expr_op [OF assms] by blast
  show ?thesis
    unfolding filterFieldExpr.simps [of E b key suffix expr] if_not_P [OF d(2)] for_each_map for_all_def
    by (rule for_each_cong [OF refl _ refl], clarify, simp only: fst_conv case_prod_conv, rule filterFieldExpr_step)
      (use step no_options [OF assms] in auto)
qed

lemma filterFieldExprBranches_conjunction:
  assumes "operator_expr expr"
  shows "filterFieldExprBranches E bs key suffix expr cmp =
    for_all (\<lambda>(op, v). filterFieldExprBranches E bs key suffix [(op, v)] cmp) expr"
proof -
  have d: "distinct (map fst expr)" "expr \<noteq> []" "HasPrefix (fst (hd expr)) ''$''"
    using assms operator_expr_op [OF assms, of "fst (hd expr)" "snd (hd expr)"] by (auto simp: operator_expr_def)
  have ops: "HasPrefix op ''$''" "op \<noteq> ''$options''" "must_get expr op = (Ok v :: bson filtered)" if "(op, v) \<in> set expr" for op v
    using that must_get_distinct [OF d(1)] operator_expr_op [OF assms] by (auto simp: sibling_operators_def)
  have step: "(if op = ''$options'' then Ok None
        else bind_result (must_get expr op) (\<lambda>opValue. bind_result (branch_expr expr op opValue) (\<lambda>opExpr.
          bind_result (filterFieldExpr E [] key suffix opExpr cmp) (\<lambda>_.
            let negated = isNegatedFieldOperator op opValue in
            bind_result (for_each (\<lambda>branch.
                bind_result (filterFieldExpr E branch key suffix opExpr cmp) (\<lambda>ok.
                  Ok (if ok \<noteq> negated then Some ok else None))) bs negated) (\<lambda>matched.
              Ok (if \<not> matched then Some False else None))))))
      = bind_result (filterFieldExprBranches E bs key suffix [(op, v)] cmp) (\<lambda>b. Ok (if b then None else Some False))"
    if "(op, v) \<in> set expr" for op v
  proof -
    have swap: "(\<lambda>m. Ok (if \<not> m then Some False else None)) = (\<lambda>m. Ok (if m then None else Some False))" by auto
    have "branch_expr expr op v = Ok [(op, v)]" using no_options [OF assms] by (simp add: branch_expr_def)
    then show ?thesis
      unfolding filterFieldExprBranches_single [OF ops(1,2) [OF that]] using ops [OF that]
      by (cases "filterFieldExpr E [] key suffix [(op, v)] cmp")
        (simp_all add: branches_loop_def Let_def swap)
  qed
  show ?thesis
    unfolding filterFieldExprBranches.simps [of E bs key suffix expr] for_each_map for_all_def using d(2,3)
    by simp (rule for_each_cong [OF refl _ refl], clarify, simp only: fst_conv case_prod_conv, rule step)
qed

lemma expected_documents_many: "length expr \<noteq> 1 \<Longrightarrow> operator_expr expr \<Longrightarrow> expected_documents expr = None"
  by (cases expr; cases "tl expr") (auto simp: expected_documents_def isOperatorDocument_def operator_expr_def split: prod.splits)

lemma filterDocumentPair_conjunction:
  assumes "operator_expr expr" "\<not> HasPrefix key ''$''" "\<forall>(op, v)\<in>set expr. expected_documents [(op, v)] = None"
  shows "filterDocumentPair E doc key (BDocument expr) cmp =
    for_all (\<lambda>(op, v). filterDocumentPair E doc key (BDocument [(op, v)]) cmp) expr"
proof -
  have none: "expected_documents expr = None"
    using assms(1,3) expected_documents_many [OF _ assms(1)] by (cases expr; cases "tl expr") auto
  have pos: "positionalDocumentEquality (decimals E) doc key vals expr = positionalDocumentEquality (decimals E) doc key vals [(op, v)]"
    if "(op, v) \<in> set expr" for op v vals
    using none assms(3) that by (auto simp: positionalDocumentEquality_def split: result.splits)
  have nopos: "positionalDocumentEquality (decimals E) doc key vals expr \<in> {Ok None, Panic}" for vals
    using none by (auto simp: positionalDocumentEquality_def split: result.splits)
  obtain op0 v0 rest where e: "expr = (op0, v0) # rest" using assms(1) by (cases expr) (auto simp: operator_expr_def)
  show ?thesis
  proof (cases "filter_values doc key")
    case (Ok r)
    obtain suffix vals missing where r: "r = (suffix, vals, missing)" by (cases r)
    show ?thesis
    proof (cases "positionalDocumentEquality (decimals E) doc key vals expr = Ok None")
      case True
      have cong: "for_all (\<lambda>(op, v). filterDocumentPair E doc key (BDocument [(op, v)]) cmp) expr =
        for_all (\<lambda>(op, v). f [(op, v)]) expr" if "\<And>op v. (op, v) \<in> set expr \<Longrightarrow> filterDocumentPair E doc key (BDocument [(op, v)]) cmp = f [(op, v)]" for f
        by (rule for_all_cong) (use that in auto)
      show ?thesis
        using assms(2) Ok r True pos
        by (subst cong [of "\<lambda>e. if suffix = key then filterFieldExpr E doc key suffix e cmp
              else (let branches = map (\<lambda>val. [(suffix, val)]) vals @ (if missing then [[]] else []) in
                if length branches = 1 then filterFieldExpr E (hd branches) key suffix e cmp
                else filterFieldExprBranches E branches key suffix e cmp)"])
          (auto simp: filterDocumentPair.simps Let_def filterFieldExpr_conjunction [OF assms(1)]
            filterFieldExprBranches_conjunction [OF assms(1)])
    next
      case False
      then show ?thesis using assms(2) Ok r nopos [of vals] pos [of op0 v0 vals] e by (simp add: filterDocumentPair.simps)
    qed
  qed (simp_all add: e filterDocumentPair.simps)
qed

section \<open>One operator on the values of a path\<close>

text \<open>The values a filter key reaches, null for a branch without it.\<close>

definition reached :: "bson list \<Rightarrow> bool \<Rightarrow> bson list" where
  "reached vals missing = vals @ (if missing then [BNull] else [])"

lemma suffix_dotted:
  assumes "filter_values doc key = Ok (suffix, vals, missing)"
  shows "suffix = key \<longleftrightarrow> CHR ''.'' \<notin> set key"
proof -
  have "last (split_dot key) \<noteq> key" if "CHR ''.'' \<in> set key"
    using that split_dot_no_dot [of "last (split_dot key)" key] by auto
  then show ?thesis
    using assms by (auto simp: filter_values_def NewPathFromString_def newPath_def split: result.splits if_splits option.splits)
qed

lemma branches_loop_Ok:
  "(\<And>b. b \<in> set bs \<Longrightarrow> f b = Ok (p b)) \<Longrightarrow> branches_loop False f bs = Ok (list_ex p bs)"
  by (induction bs) (auto simp: branches_loop_def)

lemma length_one: "length xs = 1 \<Longrightarrow> list_ex p xs = p (hd xs)" "length xs = 1 \<Longrightarrow> hd xs \<in> set xs"
  "length xs = 1 \<Longrightarrow> list_all p xs = p (hd xs)"
  by (cases xs; auto)+

text \<open>An operator that is decided by each value alone, with null for a missing one.\<close>

lemma single_operator:
  assumes "filter_values doc key = Ok (suffix, vals, missing)" "no_dup (BDocument doc)" "\<not> HasPrefix key ''$''"
    and ops: "HasPrefix op ''$''" "op \<notin> {''$options'', ''$exists'', ''$not'', ''$elemMatch'', ''$type'', ''$all''}"
    and op: "\<not> isNegatedFieldOperator op v" "checkUndefinedOperand op v = Ok ()" "expected_documents [(op, v)] = None"
    and p: "\<And>w. field_operator E [(op, v)] op (Some w) v cmp = Ok (p w)"
  shows "filterDocumentPair E doc key (BDocument [(op, v)]) cmp = Ok (list_ex p (reached vals missing))"
proof -
  have expr: "filterFieldExpr E b key suffix [(op, v)] cmp = Ok (p (case field_get b suffix of None \<Rightarrow> BNull | Some w \<Rightarrow> w))"
    if "no_dup (BDocument b)" for b
    unfolding filterFieldExpr_single [OF ops] using op(2) p by (simp add: no_dup_get [OF that] split: option.splits)
  let ?bs = "map (\<lambda>val. [(suffix, val)]) vals @ (if missing then [[]] else [])"
  have nd: "\<forall>b\<in>set ?bs. no_dup (BDocument b)"
    using filter_values_safe(2) [OF assms(2,1)] by (auto simp: no_dup_single no_dup_empty list_all_iff)
  have pos: "positionalDocumentEquality (decimals E) doc key vals [(op, v)] = Ok None"
    using safe_positional [OF assms(2)] op(3)
    by (fastforce simp: positionalDocumentEquality_def safe_def split: result.splits if_splits)
  show ?thesis
  proof (cases "suffix = key")
    case True
    then have "reached vals missing = [case field_get doc key of None \<Rightarrow> BNull | Some w \<Rightarrow> w]"
      using assms(1) suffix_dotted [OF assms(1)]
      by (auto simp: filter_values_def reached_def no_dup_get [OF assms(2)] split: option.splits)
    then show ?thesis using assms(1,3) True pos expr [OF assms(2)] by (simp add: filterDocumentPair.simps)
  next
    case False
    have ex: "list_ex (\<lambda>b. p (case field_get b suffix of None \<Rightarrow> BNull | Some w \<Rightarrow> w)) ?bs = list_ex p (reached vals missing)"
      by (cases missing) (simp_all add: reached_def list_ex_iff bex_Un)
    have "filterFieldExprBranches E bs key suffix [(op, v)] cmp =
        Ok (list_ex (\<lambda>b. p (case field_get b suffix of None \<Rightarrow> BNull | Some w \<Rightarrow> w)) bs)"
      if "\<forall>b\<in>set bs. no_dup (BDocument b)" for bs
      using that ops op(1) expr no_dup_empty
      by (simp add: filterFieldExprBranches_single [OF ops(1)] branches_loop_Ok)
    from this [OF nd] have "filterFieldExprBranches E ?bs key suffix [(op, v)] cmp = Ok (list_ex p (reached vals missing))"
      unfolding ex .
    moreover have "filterFieldExpr E (hd ?bs) key suffix [(op, v)] cmp = Ok (list_ex p (reached vals missing))" if "length ?bs = 1"
      unfolding ex [symmetric] length_one(1) [OF that] by (rule expr) (use nd length_one(2) [OF that] in blast)
    ultimately show ?thesis using False assms(1,3) pos by (simp add: filterDocumentPair.simps Let_def)
  qed
qed

section \<open>Comparison conditions\<close>

text \<open>The values the operators look at: elements of the arrays a path reaches, other values themselves.\<close>

definition key_candidates :: "fields \<Rightarrow> string \<Rightarrow> bson list" where
  "key_candidates doc key =
     (case filter_values doc key of
        Ok (suffix, vals, missing) \<Rightarrow> concat (map (\<lambda>v. candidates (Some v)) (reached vals missing))
      | _ \<Rightarrow> [])"

text \<open>Operands with a type bracket of their own; a pattern and an array mean something else.\<close>

fun plain_operand :: "bson \<Rightarrow> bool" where
  "plain_operand (BDocument _) = False"
| "plain_operand (BArray _) = False"
| "plain_operand (BRegex _ _) = False"
| "plain_operand BUndefined = False"
| "plain_operand _ = True"

lemma plain_operandD: "plain_operand v \<Longrightarrow> \<not> is_array v \<and> \<not> is_regex v \<and> v \<noteq> BUndefined"
  by (cases v) auto

definition op_matches :: "bigint_fun \<Rightarrow> bson list \<Rightarrow> string \<times> bson \<Rightarrow> bool" where
  "op_matches D xs = (\<lambda>(op, v). \<exists>accepted. (op, accepted) \<in> set comparison_operators \<and>
     (\<exists>x\<in>set xs. same_type D x v \<and> order_cmp D x v \<in> accepted))"

definition comparison_expr :: "fields \<Rightarrow> bool" where
  "comparison_expr expr \<longleftrightarrow> expr \<noteq> [] \<and> distinct (map fst expr) \<and>
     list_all (\<lambda>(op, v). op \<in> fst ` set comparison_operators \<and> plain_operand v) expr"

lemma comparison_ops:
  assumes "op \<in> fst ` set comparison_operators"
  shows "HasPrefix op ''$''" "op \<notin> {''$options'', ''$exists'', ''$not'', ''$elemMatch'', ''$type'', ''$all''}"
    "op \<notin> sibling_operators" "\<not> isNegatedFieldOperator op v"
    "v \<noteq> BUndefined \<Longrightarrow> checkUndefinedOperand op v = Ok ()"
    "plain_operand v \<Longrightarrow> expected_documents [(op, v)] = None"
proof -
  have op: "op \<in> {''$eq'', ''$gt'', ''$gte'', ''$lt'', ''$lte''}" using assms by (auto simp: comparison_operators_def)
  show "HasPrefix op ''$''" "op \<notin> {''$options'', ''$exists'', ''$not'', ''$elemMatch'', ''$type'', ''$all''}"
    "op \<notin> sibling_operators" "\<not> isNegatedFieldOperator op v"
    using op by (auto simp: isNegatedFieldOperator_def sibling_operators_def)
  show "checkUndefinedOperand op v = Ok ()" if "v \<noteq> BUndefined"
    using op that by (elim insertE emptyE) (simp_all add: checkUndefinedOperand.simps)
  show "expected_documents [(op, v)] = None" if "plain_operand v"
    using op that by (elim insertE emptyE; cases v) (simp_all add: expected_documents_def isOperatorDocument_def)
qed

lemma comparison_accepted:
  "(op, a) \<in> set comparison_operators \<Longrightarrow> (op, b) \<in> set comparison_operators \<Longrightarrow> a = b"
  by (auto simp: comparison_operators_def)

lemma field_operator_op_matches:
  assumes "op \<in> fst ` set comparison_operators" "bigint_total (decimals E)" "plain_operand v"
  shows "field_operator E e op (Some w) v None = Ok (op_matches (decimals E) (candidates (Some w)) (op, v))"
proof -
  obtain a where a: "(op, a) \<in> set comparison_operators" using assms(1) by auto
  then have "op_matches (decimals E) xs (op, v) \<longleftrightarrow> (\<exists>x\<in>set xs. same_type (decimals E) x v \<and> order_cmp (decimals E) x v \<in> a)" for xs
    using comparison_accepted by (auto simp: op_matches_def)
  then show ?thesis using field_operator_candidates [OF a assms(2)] plain_operandD [OF assms(3)] by simp
qed

lemma op_matches_concat: "list_ex (\<lambda>w. op_matches D (f w) opv) xs = op_matches D (concat (map f xs)) opv"
  by (auto simp: op_matches_def list_ex_iff split: prod.splits)

lemma comparison_pair:
  assumes "filter_values doc key = Ok (suffix, vals, missing)" "no_dup (BDocument doc)" "\<not> HasPrefix key ''$''"
    and "op \<in> fst ` set comparison_operators" "bigint_total (decimals E)" "plain_operand v"
  shows "filterDocumentPair E doc key (BDocument [(op, v)]) None = Ok (op_matches (decimals E) (key_candidates doc key) (op, v))"
proof -
  have u: "checkUndefinedOperand op v = Ok ()" "expected_documents [(op, v)] = None"
    using plain_operandD [OF assms(6)] comparison_ops(5,6) [OF assms(4)] assms(6) by blast+
  show ?thesis
    unfolding single_operator [OF assms(1-3) comparison_ops(1,2,4) [OF assms(4)] u field_operator_op_matches [OF assms(4-6)]]
      op_matches_concat
    using assms(1) by (simp add: key_candidates_def)
qed

lemma comparison_condition:
  assumes "filter_values doc key = Ok r" "no_dup (BDocument doc)" "\<not> HasPrefix key ''$''"
    and "comparison_expr expr" "bigint_total (decimals E)"
  shows "filterDocumentPair E doc key (BDocument expr) None = Ok (list_all (op_matches (decimals E) (key_candidates doc key)) expr)"
proof -
  have ops: "op \<in> fst ` set comparison_operators \<and> plain_operand v" if "(op, v) \<in> set expr" for op v
    using assms(4) that by (auto simp: comparison_expr_def list_all_iff)
  have e: "operator_expr expr"
    using assms(4) ops comparison_ops(1,3) unfolding operator_expr_def comparison_expr_def list_all_iff by fast
  have "filterDocumentPair E doc key (BDocument expr) None =
      for_all (\<lambda>(op, v). filterDocumentPair E doc key (BDocument [(op, v)]) None) expr"
    by (rule filterDocumentPair_conjunction [OF e assms(3)]) (clarify, rule comparison_ops(6), (simp only: ops)+)
  also have "\<dots> = for_all (\<lambda>f. Ok (op_matches (decimals E) (key_candidates doc key) f)) expr"
    using comparison_pair [OF _ assms(2,3) _ assms(5)] ops assms(1)
    by (intro for_all_cong [OF refl]) (clarify, simp only: case_prod_conv, cases r, simp)
  also have "\<dots> = Ok (list_all (op_matches (decimals E) (key_candidates doc key)) expr)"
    by (induction expr) auto
  finally show ?thesis .
qed

section \<open>Other conditions\<close>

lemma null_type: "same_type D BNull v \<longleftrightarrow> v = BNull"
  by (cases v) (auto simp: same_type_def dataType_defs)

lemma key_candidates_reached:
  "filter_values doc key = Ok (suffix, vals, missing) \<Longrightarrow>
    set (key_candidates doc key) = (\<Union>v\<in>set vals. set (candidates (Some v))) \<union> (if missing then {BNull} else {})"
  by (auto simp: key_candidates_def reached_def)

lemma op_matches_eq: "op_matches D xs (''$eq'', v) \<longleftrightarrow> (\<exists>x\<in>set xs. order_cmp D x v = Equal)"
  by (auto simp: op_matches_def comparison_operators_def dest: order_cmp_Equal_same_type)

lemma order_cmp_null: "bigint_total D \<Longrightarrow> order_cmp D BNull v = Equal \<longleftrightarrow> v = BNull"
  using order_cmp_Equal_same_type [of D BNull v Ascending] three_way.cmp_refl [OF three_way_CompareOrder, of D BNull]
  by (auto simp: null_type)

text \<open>A value as a condition means equality.\<close>

lemma bare_condition:
  assumes "filter_values doc key = Ok (suffix, vals, missing)" "\<not> HasPrefix key ''$''"
    and "bigint_total (decimals E)" "plain_operand v"
  shows "filterDocumentPair E doc key v None = Ok (op_matches (decimals E) (key_candidates doc key) (''$eq'', v))"
proof (cases "v = BNull")
  case True
  have "collCompare (decimals E) w BNull None = Equal \<longleftrightarrow> (\<exists>x\<in>set (candidates (Some w)). order_cmp (decimals E) x BNull = Equal)" for w
    using equalsOrHasElement_candidates [OF _ assms(3), of BNull w] by (cases w) (simp_all add: equalsOrHasElement_def split: if_splits)
  then show ?thesis
    using assms(1,2) True key_candidates_reached [OF assms(1)]
    by (auto simp: filterDocumentPair.simps op_matches_eq list_ex_iff order_cmp_null [OF assms(3)])
next
  case False
  have "filterDocumentPair E doc key v None = Ok (list_ex (\<lambda>val. equalsOrHasElement (decimals E) val v None) vals)"
    using assms(1,2,4) False by (cases v) (simp_all add: filterDocumentPair.simps)
  then show ?thesis
    using equalsOrHasElement_candidates [OF _ assms(3), of v] plain_operandD [OF assms(4)] key_candidates_reached [OF assms(1)] False
    by (auto simp: op_matches_eq list_ex_iff order_cmp_null [OF assms(3)])
qed

text \<open>Membership in a list of values means equality to one of them.\<close>

lemma in_condition:
  assumes "filter_values doc key = Ok (suffix, vals, missing)" "no_dup (BDocument doc)" "\<not> HasPrefix key ''$''"
    and "bigint_total (decimals E)" "list_all plain_operand vs"
  shows "filterDocumentPair E doc key (BDocument [(''$in'', BArray vs)]) None =
    Ok (list_ex (\<lambda>v. op_matches (decimals E) (key_candidates doc key) (''$eq'', v)) vs)"
proof -
  have member: "in_member E w None v = Ok (op_matches (decimals E) (candidates (Some w)) (''$eq'', v))" if "v \<in> set vs" for w v
    using assms(5) that equalsOrHasElement_candidates [OF _ assms(4), of v w]
    by (cases v) (auto simp: in_member_def op_matches_eq list_all_iff)
  have "in_operator E w (BArray vs) None = Ok (list_ex (\<lambda>v. op_matches (decimals E) (candidates (Some w)) (''$eq'', v)) vs)" for w
    using member by (simp add: in_operator_def) (induction vs; auto)
  then have f: "field_operator E [(''$in'', BArray vs)] ''$in'' (Some w) (BArray vs) None =
      Ok (list_ex (\<lambda>v. op_matches (decimals E) (candidates (Some w)) (''$eq'', v)) vs)" for w
    by (simp add: field_operator_def)
  have "vs = [] \<or> \<not> list_all (\<lambda>m. case m of BDocument _ \<Rightarrow> True | _ \<Rightarrow> False) vs"
    using assms(5) by (cases vs; cases "hd vs") auto
  then have x: "expected_documents [(''$in'', BArray vs)] = None" by (auto simp: expected_documents_def isOperatorDocument_def)
  have u: "checkUndefinedOperand ''$in'' (BArray vs) = Ok ()"
    using assms(5) by (auto simp: checkUndefinedOperand.simps arrayHasUndefined_def list_ex_iff list_all_iff)
  have o: "HasPrefix ''$in'' ''$''" "''$in'' \<notin> {''$options'', ''$exists'', ''$not'', ''$elemMatch'', ''$type'', ''$all''}"
    "\<not> isNegatedFieldOperator ''$in'' (BArray vs)" by (simp_all add: isNegatedFieldOperator_def)
  show ?thesis
    unfolding single_operator [OF assms(1-3) o u x f] using assms(1)
    by (auto simp: key_candidates_def list_ex_iff op_matches_eq)
qed

lemma exists_expr:
  assumes "existsOperandTrue e" "no_dup (BDocument b)"
  shows "filterFieldExpr E b key suffix [(''$exists'', e)] cmp = Ok (field_get b suffix \<noteq> None)"
  using assms(1)
  by (simp add: filterFieldExpr.simps checkUndefinedOperand.simps no_dup_get [OF assms(2)] field_operator_def
      filterFieldExprExists_def)

lemma exists_condition:
  assumes "filter_values doc key = Ok (suffix, vals, missing)" "no_dup (BDocument doc)" "\<not> HasPrefix key ''$''" "existsOperandTrue e"
  shows "filterDocumentPair E doc key (BDocument [(''$exists'', e)]) cmp = Ok (vals \<noteq> [])"
proof -
  let ?bs = "map (\<lambda>val. [(suffix, val)]) vals @ (if missing then [[]] else [])"
  have nd: "\<forall>b\<in>set ?bs. no_dup (BDocument b)"
    using filter_values_safe(2) [OF assms(2,1)] by (auto simp: no_dup_single no_dup_empty list_all_iff)
  have pos: "positionalDocumentEquality (decimals E) doc key vals [(''$exists'', e)] = Ok None"
    using safe_positional [OF assms(2), of "decimals E" key vals "[(''$exists'', e)]"]
    by (auto simp: positionalDocumentEquality_def safe_def expected_documents_def isOperatorDocument_def
        split: result.splits if_splits)
  note expr = exists_expr [OF assms(4)]
  show ?thesis
  proof (cases "suffix = key")
    case True
    then have "vals \<noteq> [] \<longleftrightarrow> field_get doc key \<noteq> None"
      using assms(1) suffix_dotted [OF assms(1)] by (auto simp: filter_values_def no_dup_get [OF assms(2)] split: option.splits)
    then show ?thesis using assms(1,3) True pos expr [OF assms(2)] by (simp add: filterDocumentPair.simps)
  next
    case False
    have ex: "list_ex (\<lambda>b. field_get b suffix \<noteq> None) ?bs \<longleftrightarrow> vals \<noteq> []"
      by (cases missing; cases vals) simp_all
    have "filterFieldExprBranches E bs key suffix [(''$exists'', e)] cmp = Ok (list_ex (\<lambda>b. field_get b suffix \<noteq> None) bs)"
      if "\<forall>b\<in>set bs. no_dup (BDocument b)" for bs
      using that expr no_dup_empty assms(4)
      by (simp add: filterFieldExprBranches_single branches_loop_Ok isNegatedFieldOperator_def filterFieldExprExists_def)
    from this [OF nd] have "filterFieldExprBranches E ?bs key suffix [(''$exists'', e)] cmp = Ok (vals \<noteq> [])"
      unfolding ex .
    moreover have "filterFieldExpr E (hd ?bs) key suffix [(''$exists'', e)] cmp = Ok (vals \<noteq> [])" if "length ?bs = 1"
      unfolding ex [symmetric] length_one(1) [OF that] by (rule expr) (use nd length_one(2) [OF that] in blast)
    ultimately show ?thesis using False assms(1,3) pos by (simp add: filterDocumentPair.simps Let_def)
  qed
qed

section \<open>A negation of a negation\<close>

lemma equality_expr:
  assumes "no_dup (BDocument b)" "v \<noteq> BUndefined"
  shows "filterFieldExpr E b key suffix [(''$eq'', v)] cmp =
    Ok (equalsOrHasElement (decimals E) (case field_get b suffix of None \<Rightarrow> BNull | Some w \<Rightarrow> w) v cmp)"
  using assms(2) by (simp add: filterFieldExpr_single checkUndefinedOperand.simps no_dup_get [OF assms(1)] field_operator_def
      split: option.splits)

lemma not_ne_expr:
  assumes "no_dup (BDocument b)" "v \<noteq> BUndefined" "\<not> is_regex v"
  shows "filterFieldExpr E b key suffix [(''$not'', BDocument [(''$ne'', v)])] cmp =
    Ok (equalsOrHasElement (decimals E) (case field_get b suffix of None \<Rightarrow> BNull | Some w \<Rightarrow> w) v cmp)"
proof -
  have ne: "filterFieldExpr E b key suffix [(''$ne'', v)] cmp =
      Ok (\<not> equalsOrHasElement (decimals E) (case field_get b suffix of None \<Rightarrow> BNull | Some w \<Rightarrow> w) v cmp)"
    using filterFieldExpr_complement [of "''$eq''" "''$ne''" v E b key suffix cmp] assms
    by (simp add: equality_expr complements_def)
  have "checkUndefinedOperand ''$not'' (BDocument [(''$ne'', v)]) = Ok ()"
    using assms(2) by (simp add: checkUndefinedOperand.simps)
  then show ?thesis
    by (simp add: filterFieldExpr.simps [of E b key suffix "[(''$not'', BDocument [(''$ne'', v)])]"] ne no_dup_get [OF assms(1)] Let_def)
qed

lemma branches_loop_all:
  "(\<And>b. b \<in> set bs \<Longrightarrow> f b = Ok (p b)) \<Longrightarrow> branches_loop True f bs = Ok (list_all p bs)"
  by (induction bs) (auto simp: branches_loop_def)

lemma not_ne_condition:
  assumes "filter_values doc key = Ok (suffix, vals, missing)" "no_dup (BDocument doc)" "\<not> HasPrefix key ''$''"
    and v: "v \<noteq> BUndefined" "\<not> is_regex v"
  shows "filterDocumentPair E doc key (BDocument [(''$not'', BDocument [(''$ne'', v)])]) cmp =
    Ok (list_all (\<lambda>w. equalsOrHasElement (decimals E) w v cmp) (reached vals missing))"
proof -
  let ?e = "[(''$not'', BDocument [(''$ne'', v)])]" and ?p = "\<lambda>w. equalsOrHasElement (decimals E) w v cmp"
  let ?bs = "map (\<lambda>val. [(suffix, val)]) vals @ (if missing then [[]] else [])"
  let ?q = "\<lambda>b. ?p (case field_get b suffix of None \<Rightarrow> BNull | Some w \<Rightarrow> w)"
  have nd: "\<forall>b\<in>set ?bs. no_dup (BDocument b)"
    using filter_values_safe(2) [OF assms(2,1)] by (auto simp: no_dup_single no_dup_empty list_all_iff)
  have pos: "positionalDocumentEquality (decimals E) doc key vals ?e = Ok None"
    using safe_positional [OF assms(2), of "decimals E" key vals ?e]
    by (auto simp: positionalDocumentEquality_def safe_def expected_documents_def isOperatorDocument_def
        split: result.splits if_splits)
  have all: "list_all ?q ?bs = list_all ?p (reached vals missing)"
    by (cases missing) (simp_all add: reached_def list_all_iff)
  note expr = not_ne_expr [OF _ v]
  show ?thesis
  proof (cases "suffix = key")
    case True
    then have "reached vals missing = [case field_get doc key of None \<Rightarrow> BNull | Some w \<Rightarrow> w]"
      using assms(1) suffix_dotted [OF assms(1)]
      by (auto simp: filter_values_def reached_def no_dup_get [OF assms(2)] split: option.splits)
    then show ?thesis using assms(1,3) True pos expr [OF assms(2)] by (simp add: filterDocumentPair.simps)
  next
    case False
    have "filterFieldExprBranches E bs key suffix ?e cmp = Ok (list_all ?q bs)" if "\<forall>b\<in>set bs. no_dup (BDocument b)" for bs
      using that expr no_dup_empty by (simp add: filterFieldExprBranches_single branches_loop_all isNegatedFieldOperator_def)
    from this [OF nd] have "filterFieldExprBranches E ?bs key suffix ?e cmp = Ok (list_all ?p (reached vals missing))"
      unfolding all .
    moreover have "filterFieldExpr E (hd ?bs) key suffix ?e cmp = Ok (list_all ?p (reached vals missing))" if l: "length ?bs = 1"
      unfolding all [symmetric] length_one(3) [OF l] by (rule expr) (use nd length_one(2) [OF l] in blast)
    ultimately show ?thesis using False assms(1,3) pos by (simp add: filterDocumentPair.simps Let_def)
  qed
qed

section \<open>Matching conditions\<close>

text \<open>
  Conditions of the shapes the planner reads: values, and operator documents whose comparisons
  are with plain operands.
\<close>

definition plain_op :: "string \<times> bson \<Rightarrow> bool" where
  "plain_op = (\<lambda>(op, v). expected_documents [(op, v)] = None \<and>
     (op \<in> fst ` set comparison_operators \<longrightarrow> plain_operand v) \<and>
     (op = ''$in'' \<longrightarrow> (case v of BArray vs \<Rightarrow> list_all plain_operand vs | _ \<Rightarrow> True)))"

fun plain_condition :: "bson \<Rightarrow> bool" where
  "plain_condition (BDocument expr) \<longleftrightarrow> operator_expr expr \<and> list_all plain_op expr"
| "plain_condition v \<longleftrightarrow> plain_operand v \<or> is_array v \<or> is_regex v"

lemma for_all_True: "for_all f xs = Ok True \<longleftrightarrow> (\<forall>x\<in>set xs. f x = Ok True)"
  by (induction xs) (auto simp: bind_result_Ok_iff split: if_splits)

lemma filter_pair_True: "FilterDocumentColl E doc flt cmp = Ok True \<longleftrightarrow> (\<forall>(k, v)\<in>set flt. filterDocumentPair E doc k v cmp = Ok True)"
  by (auto simp: FilterDocumentColl.simps for_all_True)

lemma pair_operator_True:
  assumes "filterDocumentPair E doc key (BDocument expr) cmp = Ok True" "plain_condition (BDocument expr)"
    and "\<not> HasPrefix key ''$''" "(op, v) \<in> set expr"
  shows "filterDocumentPair E doc key (BDocument [(op, v)]) cmp = Ok True"
proof -
  have "filterDocumentPair E doc key (BDocument expr) cmp =
      for_all (\<lambda>(op, v). filterDocumentPair E doc key (BDocument [(op, v)]) cmp) expr"
    by (rule filterDocumentPair_conjunction) (use assms(2,3) in \<open>auto simp: plain_op_def list_all_iff\<close>)
  then have "for_all (\<lambda>(op, v). filterDocumentPair E doc key (BDocument [(op, v)]) cmp) expr = Ok True"
    using assms(1) by simp
  then show ?thesis using assms(4) unfolding for_all_True by fast
qed

lemma pair_values:
  assumes "filterDocumentPair E doc key v cmp = Ok b"
  obtains suffix vals missing where "filter_values doc key = Ok (suffix, vals, missing)"
  using assms by (auto simp: filterDocumentPair.simps bind_result_Ok_iff)

section \<open>Properties\<close>

text \<open>
  Property C21 (functional). The comparison operators look for one value, on every path: a condition with \<open>$eq\<close>,
  \<open>$gt\<close>, \<open>$gte\<close>, \<open>$lt\<close> and \<open>$lte\<close> matches exactly when for each of them some
  candidate (a value the path reaches, an element of an array it reaches, null for a branch
  without it) has the type of the operand and the required order to it. Different operators
  may be met by different candidates. The operands are not documents, arrays, regexes or undefined,
  the operators are distinct, and there is no collation.
\<close>

theorem comparison_conditions:
  assumes "comparison_expr expr" "bigint_total (decimals E)" "no_dup (BDocument doc)"
    and "\<not> HasPrefix key ''$''" "filter_values doc key = Ok r"
  shows "FilterDocumentColl E doc [(key, BDocument expr)] None =
    Ok (list_all (op_matches (decimals E) (key_candidates doc key)) expr)"
  unfolding FilterDocumentColl_single by (rule comparison_condition [OF assms(5,3,4,1,2)])

definition sample_branches :: fields where
  "sample_branches = [(''a'', BArray [BDocument [(''b'', BInt32 1)], BDocument [(''b'', BArray [BInt32 7, BString ''x''])], BDocument []])]"

theorem comparison_conditions_witness:
  "FilterDocumentColl sample_filter_env sample_branches
     [(''a.b'', BDocument [(''$gt'', BInt32 5), (''$lt'', BInt32 2)])] None =
   Ok (list_all (op_matches sample_bigint [BInt32 1, BInt32 7, BString ''x'', BNull]) [(''$gt'', BInt32 5), (''$lt'', BInt32 2)])"
proof -
  have v: "filter_values sample_branches ''a.b'' = Ok (''b'', [BInt32 1, BArray [BInt32 7, BString ''x'']], True)"
    by code_simp
  then have "key_candidates sample_branches ''a.b'' = [BInt32 1, BInt32 7, BString ''x'', BNull]"
    by (simp add: key_candidates_def reached_def)
  with comparison_conditions [of "[(''$gt'', BInt32 5), (''$lt'', BInt32 2)]" sample_filter_env sample_branches "''a.b''", OF _ _ _ _ v]
  show ?thesis
    by (simp add: comparison_expr_def comparison_operators_def sample_filter_env_def sample_bigint_total
        sample_branches_def no_dup.simps(1))
qed

text \<open>
  Property C22 (equivalence). The operators of a field condition are conditions of their own: the condition is the
  \<open>$and\<close> of one condition for each operator, errors included, on single values and on paths
  with many branches. The operators are distinct. Exempt are \<open>$options\<close> and the geometric
  operators, which read their neighbours (so \<open>$regex\<close> is covered without \<open>$options\<close>), and
  \<open>$eq\<close>, \<open>$ne\<close>, \<open>$in\<close> and \<open>$nin\<close> with whole documents, whose meaning on a path that
  ends in an array index is another when they stand alone.
\<close>

theorem operators_conjunction:
  assumes "operator_expr expr" "\<not> HasPrefix key ''$''" "\<forall>(op, v)\<in>set expr. expected_documents [(op, v)] = None"
    and "no_dup (BDocument doc)"
  shows "FilterDocumentColl E doc [(key, BDocument expr)] cmp =
    FilterDocumentColl E doc [(''$and'', BArray (map (\<lambda>(op, v). BDocument [(key, BDocument [(op, v)])]) expr))] cmp"
proof -
  have "for_all g (map f xs) = for_all (\<lambda>x. g (f x)) xs" for g :: "bson \<Rightarrow> bool filtered" and f and xs :: fields
    by (simp add: for_all_def for_each_map)
  moreover have "expr \<noteq> []" using assms(1) by (simp add: operator_expr_def)
  ultimately show ?thesis
    unfolding FilterDocumentColl_single filterDocumentPair_conjunction [OF assms(1-3)]
    by (simp add: filterDocumentPair.simps [of E doc "''$and''"] filter_values_def no_dup_get [OF assms(4)] filterOperator.simps
        list_all_iff case_prod_unfold FilterDocumentColl_single image_iff)
qed

theorem operators_conjunction_witness:
  "FilterDocumentColl sample_filter_env sample_branches
     [(''a.b'', BDocument [(''$ne'', BInt32 5), (''$lt'', BInt32 2)])] None =
   FilterDocumentColl sample_filter_env sample_branches
     [(''$and'', BArray [BDocument [(''a.b'', BDocument [(''$ne'', BInt32 5)])],
                         BDocument [(''a.b'', BDocument [(''$lt'', BInt32 2)])]])] None"
  using operators_conjunction [of "[(''$ne'', BInt32 5), (''$lt'', BInt32 2)]" "''a.b''" sample_branches sample_filter_env None]
  by (simp add: operator_expr_def sibling_operators_def expected_documents_def isOperatorDocument_def sample_branches_def
      no_dup.simps(1))

text \<open>
  Property C35 (error). Negating twice is not the identity on a path with several branches. For an operand that is not
  a document, a regular expression or undefined, \<open>$ne\<close> matches when no value the path reaches
  equals it (null standing for a branch without the field), and \<open>$not: {$ne: v}\<close>, the
  opposite of that, only when every one of them does: where some do and others do not, the
  document matches neither.
\<close>

theorem double_negation_on_branches:
  assumes "filter_values doc key = Ok (suffix, vals, missing)" "no_dup (BDocument doc)" "\<not> HasPrefix key ''$''"
    and "v \<noteq> BUndefined" "\<not> is_regex v" "expected_documents [(''$eq'', v)] = None"
  shows "FilterDocumentColl E doc [(key, BDocument [(''$ne'', v)])] cmp =
      Ok (\<forall>w\<in>set (reached vals missing). \<not> equalsOrHasElement (decimals E) w v cmp) \<and>
    FilterDocumentColl E doc [(key, BDocument [(''$not'', BDocument [(''$ne'', v)])])] cmp =
      Ok (\<forall>w\<in>set (reached vals missing). equalsOrHasElement (decimals E) w v cmp)"
proof -
  have "filterDocumentPair E doc key (BDocument [(''$eq'', v)]) cmp =
      Ok (list_ex (\<lambda>w. equalsOrHasElement (decimals E) w v cmp) (reached vals missing))"
    by (rule single_operator [OF assms(1-3)])
      (use assms(4-6) in \<open>simp_all add: isNegatedFieldOperator_def checkUndefinedOperand.simps field_operator_def\<close>)
  then show ?thesis
    using filterDocumentPair_complement [of "''$eq''" "''$ne''" v key E doc cmp] assms(3,5) not_ne_condition [OF assms(1-5), of E cmp]
    by (simp add: FilterDocumentColl_single complements_def list_ex_iff list_all_iff)
qed

theorem double_negation_on_branches_witness:
  "FilterDocumentColl sample_filter_env sample_nested [(''a.b'', BDocument [(''$ne'', BInt32 5)])] None = Ok False \<and>
   FilterDocumentColl sample_filter_env sample_nested
     [(''a.b'', BDocument [(''$not'', BDocument [(''$ne'', BInt32 5)])])] None = Ok False"
proof -
  have v: "filter_values sample_nested ''a.b'' = Ok (''b'', [BInt32 5, BInt32 6], False)" by code_simp
  have "equalsOrHasElement (decimals sample_filter_env) (BInt32 5) (BInt32 5) None"
    "\<not> equalsOrHasElement (decimals sample_filter_env) (BInt32 6) (BInt32 5) None" by code_simp+
  with double_negation_on_branches [OF v, of "BInt32 5" sample_filter_env None] show ?thesis
    by (simp add: sample_nested_def no_dup.simps(1) expected_documents_def isOperatorDocument_def reached_def)
qed

end
