(* ===== verification/IndexMaintenance.thy ===== *)
theory IndexMaintenance
  imports Index FilterMatch "HOL-Library.AList"
begin

text \<open>
  Which entries a document has in a secondary index, and how writes keep the indexes of a
  collection in step (\<open>internal/backends/dolt\<close>: \<open>collection.go\<close>, \<open>index_resolve.go\<close>),
  for indexes with the simple collation. The primary key bytes of a document are those of
  \<open>hashID\<close>, a parameter: a digest of its \<open>_id\<close>.
\<close>

section \<open>Indexes\<close>

record IndexKeyPair =
  kp_field :: string
  kp_descending :: bool
  kp_text :: bool
  kp_geo2DSphere :: bool
  kp_geo2D :: bool
  kp_hashed :: bool

text \<open>
  The marks of text, geometric and hashed fields are kept but no modelled operation reads them.
  \<open>idx_collation\<close> is the identity of the collation, empty for the simple one; the sort keys
  that replace the strings of a row under another collation are not modelled.
  \<open>idx_partial\<close> the partial filter expression, which \<open>FilterDocument\<close> evaluates.
\<close>

record IndexInfo =
  idx_name :: string
  idx_key :: "IndexKeyPair list"
  idx_unique :: bool
  idx_sparse :: bool
  idx_partial :: "fields option"
  idx_collation :: string
  idx_lossy :: bool
  idx_multikey :: bool

section \<open>Entries of a document\<close>

definition indexFieldPresent :: "fields \<Rightarrow> string \<Rightarrow> (unit, bool) result" where
  "indexFieldPresent doc field =
     (if CHR ''.'' \<notin> set field then bind_result (get_value doc field) (\<lambda>r. Ok (r \<noteq> None))
      else case NewPathFromString field of
        Panic \<Rightarrow> Panic
      | Err _ \<Rightarrow> Ok False
      | Ok path \<Rightarrow>
          (case FindValues doc path find_both of
             Panic \<Rightarrow> Panic
           | Err (_ :: filter_error) \<Rightarrow> Ok False
           | Ok vals \<Rightarrow> Ok (vals \<noteq> [])))"

definition flatten_values :: "bson list \<Rightarrow> bson list" where
  "flatten_values vals = concat (map (\<lambda>v. case v of BArray arr \<Rightarrow> arr | _ \<Rightarrow> [v]) vals)"

definition indexFieldValue :: "fields \<Rightarrow> string \<Rightarrow> (unit, bson) result" where
  "indexFieldValue doc field =
     (if CHR ''.'' \<notin> set field then
        bind_result (get_value doc field) (\<lambda>r. Ok (case r of None \<Rightarrow> BNull | Some v \<Rightarrow> v))
      else case NewPathFromString field of
        Panic \<Rightarrow> Panic
      | Err _ \<Rightarrow> Ok BNull
      | Ok path \<Rightarrow>
          (case FindValues doc path find_both of
             Panic \<Rightarrow> Panic
           | Err (_ :: filter_error) \<Rightarrow> Ok BNull
           | Ok [] \<Rightarrow> Ok BNull
           | Ok [v] \<Rightarrow> Ok v
           | Ok vals \<Rightarrow> Ok (BArray (flatten_values vals))))"

fun extract_loop :: "fields \<Rightarrow> IndexKeyPair list \<Rightarrow> (unit, bson list) result" where
  "extract_loop doc [] = Ok []"
| "extract_loop doc (kp # kps) =
     bind_result (indexFieldValue doc (kp_field kp)) (\<lambda>v. bind_result (extract_loop doc kps) (\<lambda>vs. Ok (v # vs)))"

definition extractIndexFieldValues :: "fields \<Rightarrow> IndexInfo \<Rightarrow> (unit, bson list) result" where
  "extractIndexFieldValues doc idx = extract_loop doc (idx_key idx)"

definition sparseExcludes :: "fields \<Rightarrow> IndexInfo \<Rightarrow> (unit, bool) result" where
  "sparseExcludes doc idx =
     (if \<not> idx_sparse idx then Ok False
      else for_all (\<lambda>kp. bind_result (indexFieldPresent doc (kp_field kp)) (\<lambda>b. Ok (\<not> b))) (idx_key idx))"

text \<open>The rows of the first array field, one for each element; an empty array counts as undefined.\<close>

fun expand_at :: "bson list \<Rightarrow> bson list \<Rightarrow> bson list list" where
  "expand_at before [] = [before]"
| "expand_at before (BArray arr # vs) =
     (if arr = [] then [before @ BUndefined # vs] else map (\<lambda>elem. before @ elem # vs) arr)"
| "expand_at before (v # vs) = expand_at (before @ [v]) vs"

definition expandMultiKeyValues :: "bson list \<Rightarrow> bson list list" where
  "expandMultiKeyValues fieldVals = expand_at [] fieldVals"

definition MatchesPartialFilter :: "filter_env \<Rightarrow> IndexInfo \<Rightarrow> fields \<Rightarrow> (unit, bool) result" where
  "MatchesPartialFilter E idx doc =
     (case idx_partial idx of
        None \<Rightarrow> Ok True
      | Some pfe \<Rightarrow>
          (case FilterDocumentColl E doc pfe None of Panic \<Rightarrow> Panic | Err _ \<Rightarrow> Ok False | Ok b \<Rightarrow> Ok b))"

definition indexEntriesForDoc :: "filter_env \<Rightarrow> fields \<Rightarrow> IndexInfo \<Rightarrow> (unit, bson list list \<times> bool \<times> bool) result" where
  "indexEntriesForDoc E doc idx =
     bind_result (MatchesPartialFilter E idx doc) (\<lambda>member.
       if \<not> member then Ok ([], False, False)
       else bind_result (sparseExcludes doc idx) (\<lambda>excluded.
         if excluded then Ok ([], False, False)
         else bind_result (extractIndexFieldValues doc idx) (\<lambda>fieldVals.
           let rows = expandMultiKeyValues fieldVals in
           Ok (rows, list_ex is_array fieldVals, list_ex (list_ex ValueLossy) rows))))"

section \<open>Writes\<close>

text \<open>A loop that threads a state and may fail.\<close>

fun fold_result :: "('s \<Rightarrow> 'a \<Rightarrow> ('e, 's) result) \<Rightarrow> 's \<Rightarrow> 'a list \<Rightarrow> ('e, 's) result" where
  "fold_result f s [] = Ok s"
| "fold_result f s (x # xs) = bind_result (f s x) (\<lambda>s'. fold_result f s' xs)"

type_synonym 'm index_maps = "string \<Rightarrow> 'm option"
type_synonym id_hash = "bson \<Rightarrow> (unit, bytes) result"

definition document_id :: "id_hash \<Rightarrow> fields \<Rightarrow> (unit, bytes) result" where
  "document_id hashID doc =
     bind_result (get_value doc ''_id'') (\<lambda>r. case r of None \<Rightarrow> Err () | Some docID \<Rightarrow> hashID docID)"

definition add_flags :: "IndexInfo \<Rightarrow> bool \<Rightarrow> bool \<Rightarrow> IndexInfo" where
  "add_flags info multikey lossy =
     info\<lparr>idx_multikey := idx_multikey info \<or> multikey, idx_lossy := idx_lossy info \<or> lossy\<rparr>"

definition insert_document ::
  "filter_env \<Rightarrow> ('m, 'k) prolly \<Rightarrow> conversions \<Rightarrow> id_hash \<Rightarrow> 'm \<times> IndexInfo \<Rightarrow> fields \<Rightarrow> (unit, 'm \<times> IndexInfo) result" where
  "insert_document E P C hashID s doc =
     bind_result (document_id hashID doc) (\<lambda>idBytes.
       bind_result (indexEntriesForDoc E doc (snd s)) (\<lambda>(rows, multikey, lossy).
         bind_result (fold_result (\<lambda>m fv. InsertEntry P C m fv idBytes) (fst s) rows) (\<lambda>mut.
           Ok (mut, add_flags (snd s) multikey lossy))))"

definition applyInsertsToIndexes ::
  "filter_env \<Rightarrow> ('m, 'k) prolly \<Rightarrow> conversions \<Rightarrow> id_hash \<Rightarrow> IndexInfo list \<Rightarrow> 'm index_maps \<Rightarrow> fields list \<Rightarrow>
   (unit, IndexInfo list \<times> 'm index_maps) result" where
  "applyInsertsToIndexes E P C hashID infos maps docs =
     fold_result (\<lambda>(outInfos, out) info.
       case out (idx_name info) of
         None \<Rightarrow> Err ()
       | Some idxMap \<Rightarrow>
           bind_result (fold_result (insert_document E P C hashID) (idxMap, info) docs) (\<lambda>(updated, info').
             Ok (outInfos @ [info'], out(idx_name info \<mapsto> updated)))) ([], maps) infos"

text \<open>A Go map from keys to rows; a later row of the same key replaces the earlier one.\<close>

definition entryKeysForRows :: "conversions \<Rightarrow> bson list list \<Rightarrow> bytes \<Rightarrow> (bytes \<times> bson list) list" where
  "entryKeysForRows C rows idBytes =
     fold (\<lambda>row out. AList.update (BuildSecondaryKey C row idBytes) row out) rows []"

definition delete_missing ::
  "('m, 'k) prolly \<Rightarrow> conversions \<Rightarrow> bytes \<Rightarrow> (bytes \<times> bson list) list \<Rightarrow> 'm \<times> bool \<Rightarrow> bytes \<times> bson list \<Rightarrow> (unit, 'm \<times> bool) result" where
  "delete_missing P C idBytes newKeys s entry =
     (if fst entry \<in> fst ` set newKeys then Ok s
      else bind_result (DeleteEntry P C (fst s) (snd entry) idBytes) (\<lambda>mut. Ok (mut, True)))"

definition insert_missing ::
  "('m, 'k) prolly \<Rightarrow> conversions \<Rightarrow> bytes \<Rightarrow> (bytes \<times> bson list) list \<Rightarrow> 'm \<times> bool \<Rightarrow> bytes \<times> bson list \<Rightarrow> (unit, 'm \<times> bool) result" where
  "insert_missing P C idBytes oldKeys s entry =
     (if fst entry \<in> fst ` set oldKeys then Ok s
      else bind_result (InsertEntry P C (fst s) (snd entry) idBytes) (\<lambda>mut. Ok (mut, True)))"

definition update_document ::
  "filter_env \<Rightarrow> ('m, 'k) prolly \<Rightarrow> conversions \<Rightarrow> id_hash \<Rightarrow> ('m \<times> bool) \<times> IndexInfo \<Rightarrow> fields \<times> fields \<Rightarrow>
   (unit, ('m \<times> bool) \<times> IndexInfo) result" where
  "update_document E P C hashID s docs =
     bind_result (document_id hashID (snd docs)) (\<lambda>idBytes.
       bind_result (indexEntriesForDoc E (fst docs) (snd s)) (\<lambda>(oldRows, _, _).
         bind_result (indexEntriesForDoc E (snd docs) (snd s)) (\<lambda>(newRows, multikey, lossy).
           let oldKeys = entryKeysForRows C oldRows idBytes; newKeys = entryKeysForRows C newRows idBytes in
           bind_result (fold_result (delete_missing P C idBytes newKeys) (fst s) oldKeys) (\<lambda>s1.
             bind_result (fold_result (insert_missing P C idBytes oldKeys) s1 newKeys) (\<lambda>s2.
               Ok (s2, add_flags (snd s) multikey lossy))))))"

definition applyUpdatesToIndexes ::
  "filter_env \<Rightarrow> ('m, 'k) prolly \<Rightarrow> conversions \<Rightarrow> id_hash \<Rightarrow> IndexInfo list \<Rightarrow> 'm index_maps \<Rightarrow> fields list \<Rightarrow> fields list \<Rightarrow>
   (unit, IndexInfo list \<times> 'm index_maps) result" where
  "applyUpdatesToIndexes E P C hashID infos maps oldDocs newDocs =
     (if infos = [] \<or> oldDocs = [] then Ok (infos, maps)
      else if length oldDocs \<noteq> length newDocs then Err ()
      else fold_result (\<lambda>(outInfos, out) info.
        case out (idx_name info) of
          None \<Rightarrow> Err ()
        | Some idxMap \<Rightarrow>
            bind_result (fold_result (update_document E P C hashID) ((idxMap, False), info) (zip oldDocs newDocs))
              (\<lambda>((updated, edited), info').
                Ok (outInfos @ [info'], if edited then out(idx_name info \<mapsto> updated) else out))) ([], maps) infos)"

definition delete_document ::
  "filter_env \<Rightarrow> ('m, 'k) prolly \<Rightarrow> conversions \<Rightarrow> id_hash \<Rightarrow> IndexInfo \<Rightarrow> 'm \<times> bool \<Rightarrow> fields \<Rightarrow> (unit, 'm \<times> bool) result" where
  "delete_document E P C hashID info s doc =
     bind_result (document_id hashID doc) (\<lambda>idBytes.
       bind_result (indexEntriesForDoc E doc info) (\<lambda>(rows, _, _).
         fold_result (\<lambda>s row. bind_result (DeleteEntry P C (fst s) row idBytes) (\<lambda>mut. Ok (mut, True))) s rows))"

definition applyDeletesToIndexes ::
  "filter_env \<Rightarrow> ('m, 'k) prolly \<Rightarrow> conversions \<Rightarrow> id_hash \<Rightarrow> IndexInfo list \<Rightarrow> 'm index_maps \<Rightarrow> fields list \<Rightarrow>
   (unit, 'm index_maps) result" where
  "applyDeletesToIndexes E P C hashID infos maps oldDocs =
     (if infos = [] \<or> oldDocs = [] then Ok maps
      else fold_result (\<lambda>out info.
        case out (idx_name info) of
          None \<Rightarrow> Err ()
        | Some idxMap \<Rightarrow>
            bind_result (fold_result (delete_document E P C hashID info) (idxMap, False) oldDocs) (\<lambda>(updated, edited).
              Ok (if edited then out(idx_name info \<mapsto> updated) else out))) maps infos)"

section \<open>Entries always exist\<close>

text \<open>Indexes whose partial filter cannot panic, and documents with an id.\<close>

definition index_ok :: "filter_env \<Rightarrow> IndexInfo \<Rightarrow> bool" where
  "index_ok E info \<longleftrightarrow> (case idx_partial info of None \<Rightarrow> True | Some pfe \<Rightarrow> filter_ok E (BDocument pfe))"

definition storable :: "id_hash \<Rightarrow> fields \<Rightarrow> bool" where
  "storable hashID doc \<longleftrightarrow> no_dup (BDocument doc) \<and> (\<exists>pid. document_id hashID doc = Ok pid \<and> length pid = primaryIDLen)"

lemma filter_safe:
  "no_dup (BDocument doc) \<Longrightarrow> filter_ok E (BDocument flt) \<Longrightarrow> safe (FilterDocumentColl E doc flt cmp)"
  by (rule group_safeD(1) [OF group_is_safe [of E _ "Suc (8 * doc_size flt)"]]) simp_all

lemma FindValues_Ok: "no_dup (BDocument doc) \<Longrightarrow> \<exists>vals. FindValues doc p find_both = (Ok vals :: ('e, bson list) result)"
  using FindValues_no_dup by blast

lemma FindValues_not_Panic: "no_dup (BDocument doc) \<Longrightarrow> FindValues doc p find_both \<noteq> Panic"
  using FindValues_Ok by (metis result.distinct(3))

lemma NewPath_not_Panic: "NewPathFromString s \<noteq> Panic"
  by (simp add: NewPathFromString_def newPath_def split: option.splits)

lemma indexFieldPresent_Ok: "no_dup (BDocument doc) \<Longrightarrow> \<exists>b. indexFieldPresent doc field = Ok b"
  by (auto simp: indexFieldPresent_def no_dup_get NewPath_not_Panic FindValues_not_Panic split: result.splits)

lemma indexFieldValue_Ok: "no_dup (BDocument doc) \<Longrightarrow> \<exists>v. indexFieldValue doc field = Ok v"
  by (auto simp: indexFieldValue_def no_dup_get NewPath_not_Panic FindValues_not_Panic split: result.splits list.splits)

lemma extract_Ok: "no_dup (BDocument doc) \<Longrightarrow> \<exists>vs. extract_loop doc kps = Ok vs"
proof (induction kps)
  case (Cons kp kps)
  then show ?case using indexFieldValue_Ok [of doc "kp_field kp"] by auto
qed simp

lemma sparseExcludes_Ok: "no_dup (BDocument doc) \<Longrightarrow> \<exists>b. sparseExcludes doc idx = Ok b"
proof -
  assume doc: "no_dup (BDocument doc)"
  have "\<exists>b. for_all (\<lambda>kp. bind_result (indexFieldPresent doc (kp_field kp)) (\<lambda>b. Ok (\<not> b))) kps = Ok b" for kps
  proof (induction kps)
    case (Cons kp kps)
    obtain b where "indexFieldPresent doc (kp_field kp) = Ok b" using indexFieldPresent_Ok [OF doc] by blast
    with Cons show ?case by (cases b) auto
  qed auto
  then show ?thesis by (auto simp: sparseExcludes_def)
qed

lemma indexEntries_Ok:
  assumes "no_dup (BDocument doc)" "index_ok E info"
  shows "\<exists>rows multikey lossy. indexEntriesForDoc E doc info = Ok (rows, multikey, lossy)"
proof -
  have "MatchesPartialFilter E info doc \<noteq> Panic"
    using filter_safe [OF assms(1)] assms(2) by (fastforce simp: MatchesPartialFilter_def index_ok_def safe_def split: option.splits result.splits)
  then obtain b where "MatchesPartialFilter E info doc = Ok b"
    by (auto simp: MatchesPartialFilter_def split: option.splits result.splits)
  moreover obtain x vs where "sparseExcludes doc info = Ok x" "extract_loop doc (idx_key info) = Ok vs"
    using sparseExcludes_Ok [OF assms(1)] extract_Ok [OF assms(1)] by blast
  ultimately show ?thesis
    by (cases b; cases x) (auto simp add: indexEntriesForDoc_def extractIndexFieldValues_def Let_def simp del: bind_result_Ok_iff)
qed

section \<open>Entries and flags\<close>

definition rows_of :: "filter_env \<Rightarrow> IndexInfo \<Rightarrow> fields \<Rightarrow> bson list list" where
  "rows_of E info doc = (case indexEntriesForDoc E doc info of Ok (rows, _, _) \<Rightarrow> rows | _ \<Rightarrow> [])"

definition multikey_in :: "filter_env \<Rightarrow> IndexInfo \<Rightarrow> fields \<Rightarrow> bool" where
  "multikey_in E info doc = (case indexEntriesForDoc E doc info of Ok (_, multikey, _) \<Rightarrow> multikey | _ \<Rightarrow> False)"

definition lossy_in :: "filter_env \<Rightarrow> IndexInfo \<Rightarrow> fields \<Rightarrow> bool" where
  "lossy_in E info doc = (case indexEntriesForDoc E doc info of Ok (_, _, lossy) \<Rightarrow> lossy | _ \<Rightarrow> False)"

text \<open>The entries a document owns.\<close>

definition entries_of :: "filter_env \<Rightarrow> conversions \<Rightarrow> id_hash \<Rightarrow> IndexInfo \<Rightarrow> fields \<Rightarrow> bytes set" where
  "entries_of E C hashID info doc =
     (case document_id hashID doc of
        Ok pid \<Rightarrow> (\<lambda>row. BuildSecondaryKey C row pid) ` set (rows_of E info doc) | _ \<Rightarrow> {})"

lemma same_index [simp]: "indexEntriesForDoc E doc (add_flags info a b) = indexEntriesForDoc E doc info"
  by (simp add: indexEntriesForDoc_def add_flags_def MatchesPartialFilter_def sparseExcludes_def
      extractIndexFieldValues_def cong: if_cong)

lemma same_index_flags [simp]:
  "rows_of E (add_flags info a b) = rows_of E info" "multikey_in E (add_flags info a b) = multikey_in E info"
  "lossy_in E (add_flags info a b) = lossy_in E info" "entries_of E C hashID (add_flags info a b) = entries_of E C hashID info"
  "idx_name (add_flags info a b) = idx_name info" "index_ok E (add_flags info a b) = index_ok E info"
proof -
  show rows: "rows_of E (add_flags info a b) = rows_of E info" by (simp add: fun_eq_iff rows_of_def)
  show "entries_of E C hashID (add_flags info a b) = entries_of E C hashID info"
    unfolding entries_of_def [abs_def] rows ..
qed (simp_all add: fun_eq_iff multikey_in_def lossy_in_def, simp_all add: add_flags_def index_ok_def)

lemma add_flags_simps [simp]:
  "add_flags (add_flags info a b) c d = add_flags info (a \<or> c) (b \<or> d)"
  "idx_multikey (add_flags info a b) \<longleftrightarrow> idx_multikey info \<or> a" "idx_lossy (add_flags info a b) \<longleftrightarrow> idx_lossy info \<or> b"
  "add_flags info False False = info"
  by (simp_all add: add_flags_def)

lemma entries_suffix: "length pid = primaryIDLen \<Longrightarrow> drop (length (BuildSecondaryKey C row pid) - primaryIDLen) (BuildSecondaryKey C row pid) = pid"
  by (simp add: BuildSecondaryKey_def)

lemma entries_disjoint:
  assumes "storable hashID doc" "storable hashID doc'" "document_id hashID doc \<noteq> document_id hashID doc'"
  shows "entries_of E C hashID info doc \<inter> entries_of E C hashID info doc' = {}"
  using assms entries_suffix [of _ C] unfolding storable_def entries_of_def by (auto 0 3) metis

section \<open>Changes of the map\<close>

lemma InsertEntry_set:
  assumes "prolly_ok P entries"
  shows "\<exists>m'. InsertEntry P C m row pid = Ok m' \<and> set (entries m') = insert (BuildSecondaryKey C row pid) (set (entries m))"
proof -
  obtain k where "pr_key P (BuildSecondaryKey C row pid) = Ok k" "pr_bytes P k = Some (BuildSecondaryKey C row pid)"
    using prolly_key [OF assms] by blast
  then show ?thesis using prolly_put [OF assms] by (fastforce simp: InsertEntry_def BuildIndexEntry_def)
qed

lemma DeleteEntry_set:
  assumes "prolly_ok P entries"
  shows "\<exists>m'. DeleteEntry P C m row pid = Ok m' \<and> set (entries m') = set (entries m) - {BuildSecondaryKey C row pid}"
proof -
  obtain k where "pr_key P (BuildSecondaryKey C row pid) = Ok k" "pr_bytes P k = Some (BuildSecondaryKey C row pid)"
    using prolly_key [OF assms] by blast
  then show ?thesis using prolly_delete [OF assms] by (fastforce simp: DeleteEntry_def BuildIndexEntry_def)
qed

lemma insert_rows:
  assumes "prolly_ok P entries"
  shows "\<exists>m'. fold_result (\<lambda>m fv. InsertEntry P C m fv pid) m rows = Ok m' \<and>
    set (entries m') = set (entries m) \<union> (\<lambda>row. BuildSecondaryKey C row pid) ` set rows"
proof (induction rows arbitrary: m)
  case (Cons row rows)
  obtain m1 where m1: "InsertEntry P C m row pid = Ok m1" "set (entries m1) = insert (BuildSecondaryKey C row pid) (set (entries m))"
    using InsertEntry_set [OF assms] by blast
  then show ?case using Cons.IH [of m1] by auto
qed simp

text \<open>A map that no step edited is the one the loop began with.\<close>

lemma delete_rows:
  assumes "prolly_ok P entries"
  shows "\<exists>s'. fold_result (\<lambda>s row. bind_result (DeleteEntry P C (fst s) row pid) (\<lambda>mut. Ok (mut, True))) s rows = Ok s' \<and>
    set (entries (fst s')) = set (entries (fst s)) - (\<lambda>row. BuildSecondaryKey C row pid) ` set rows \<and> (snd s' \<or> s' = s)"
proof (induction rows arbitrary: s)
  case (Cons row rows)
  obtain m1 where m1: "DeleteEntry P C (fst s) row pid = Ok m1"
    "set (entries m1) = set (entries (fst s)) - {BuildSecondaryKey C row pid}"
    using DeleteEntry_set [OF assms] by blast
  obtain s' where s': "fold_result (\<lambda>s row. bind_result (DeleteEntry P C (fst s) row pid) (\<lambda>mut. Ok (mut, True))) (m1, True) rows = Ok s'"
    "set (entries (fst s')) = set (entries m1) - (\<lambda>row. BuildSecondaryKey C row pid) ` set rows" "snd s' \<or> s' = (m1, True)"
    using Cons.IH [of "(m1, True)"] unfolding fst_conv by (elim exE conjE)
  moreover have "snd s'" using s'(3) by auto
  ultimately show ?case using m1 by (intro exI [of _ s']) (simp add: Diff_insert2 [symmetric])
qed simp

lemma diff_step: "(if x \<in> N then A else A - {x}) - (B - N) = A - (insert x B - N)"
  by auto

lemma union_step: "(if x \<in> N then A else insert x A) \<union> (B - N) = A \<union> (insert x B - N)"
  by auto

lemma delete_missing:
  assumes "prolly_ok P entries" "\<forall>(k, row)\<in>set olds. k = BuildSecondaryKey C row pid"
  shows "\<exists>s'. fold_result (delete_missing P C pid news) s olds = Ok s' \<and>
    set (entries (fst s')) = set (entries (fst s)) - (fst ` set olds - fst ` set news) \<and> (snd s' \<or> s' = s)"
  using assms(2)
proof (induction olds arbitrary: s)
  case (Cons e olds)
  obtain m1 where m1: "DeleteEntry P C (fst s) (snd e) pid = Ok m1" "set (entries m1) = set (entries (fst s)) - {fst e}"
    using DeleteEntry_set [OF assms(1), of C "fst s" "snd e" pid] Cons.prems by (cases e) auto
  define t where "t = (if fst e \<in> fst ` set news then s else (m1, True))"
  have step: "delete_missing P C pid news s e = Ok t" using m1(1) by (simp add: delete_missing_def t_def)
  from Cons.prems have "\<forall>(k, row)\<in>set olds. k = BuildSecondaryKey C row pid" by simp
  from Cons.IH [OF this, of t] obtain s' where s': "fold_result (delete_missing P C pid news) t olds = Ok s'"
    "set (entries (fst s')) = set (entries (fst t)) - (fst ` set olds - fst ` set news)" "snd s' \<or> s' = t"
    by blast
  have t_set: "set (entries (fst t)) = (if fst e \<in> fst ` set news then set (entries (fst s)) else set (entries (fst s)) - {fst e})"
    using m1(2) by (simp add: t_def)
  have "set (entries (fst s')) = set (entries (fst s)) - (fst ` set (e # olds) - fst ` set news)"
    unfolding s'(2) t_set diff_step by simp
  moreover have "snd s' \<or> s' = s" using s'(3) by (auto simp: t_def split: if_splits)
  ultimately show ?case using step s'(1) by (intro exI [of _ s']) simp
qed simp

lemma insert_missing:
  assumes "prolly_ok P entries" "\<forall>(k, row)\<in>set news. k = BuildSecondaryKey C row pid"
  shows "\<exists>s'. fold_result (insert_missing P C pid olds) s news = Ok s' \<and>
    set (entries (fst s')) = set (entries (fst s)) \<union> (fst ` set news - fst ` set olds) \<and> (snd s' \<or> s' = s)"
  using assms(2)
proof (induction news arbitrary: s)
  case (Cons e news)
  obtain m1 where m1: "InsertEntry P C (fst s) (snd e) pid = Ok m1" "set (entries m1) = insert (fst e) (set (entries (fst s)))"
    using InsertEntry_set [OF assms(1), of C "fst s" "snd e" pid] Cons.prems by (cases e) auto
  define t where "t = (if fst e \<in> fst ` set olds then s else (m1, True))"
  have step: "insert_missing P C pid olds s e = Ok t" using m1(1) by (simp add: insert_missing_def t_def)
  from Cons.prems have "\<forall>(k, row)\<in>set news. k = BuildSecondaryKey C row pid" by simp
  from Cons.IH [OF this, of t] obtain s' where s': "fold_result (insert_missing P C pid olds) t news = Ok s'"
    "set (entries (fst s')) = set (entries (fst t)) \<union> (fst ` set news - fst ` set olds)" "snd s' \<or> s' = t"
    by blast
  have t_set: "set (entries (fst t)) = (if fst e \<in> fst ` set olds then set (entries (fst s)) else insert (fst e) (set (entries (fst s))))"
    using m1(2) by (simp add: t_def)
  have "set (entries (fst s')) = set (entries (fst s)) \<union> (fst ` set (e # news) - fst ` set olds)"
    unfolding s'(2) t_set union_step by simp
  moreover have "snd s' \<or> s' = s" using s'(3) by (auto simp: t_def split: if_splits)
  ultimately show ?case using step s'(1) by (intro exI [of _ s']) simp
qed simp

lemma entryKeys:
  "\<forall>(k, row)\<in>set (entryKeysForRows C rows pid). k = BuildSecondaryKey C row pid"
  "fst ` set (entryKeysForRows C rows pid) = (\<lambda>row. BuildSecondaryKey C row pid) ` set rows"
proof -
  have upd: "set (AList.update k r al) \<subseteq> insert (k, r) (set al)" for k r and al :: "(bytes \<times> bson list) list"
    by (induction al) auto
  have "\<forall>(k, row)\<in>set (fold (\<lambda>row. AList.update (BuildSecondaryKey C row pid) row) rows al). k = BuildSecondaryKey C row pid"
    if "\<forall>(k, row)\<in>set al. k = BuildSecondaryKey C row pid" for al
    using that
  proof (induction rows arbitrary: al)
    case (Cons row rows)
    show ?case using Cons.IH [of "AList.update (BuildSecondaryKey C row pid) row al"] Cons.prems
        upd [of "BuildSecondaryKey C row pid" row al] by fastforce
  qed simp
  from this [of "[]"] show "\<forall>(k, row)\<in>set (entryKeysForRows C rows pid). k = BuildSecondaryKey C row pid"
    unfolding entryKeysForRows_def by simp
  have "fst ` set (fold (\<lambda>row. AList.update (BuildSecondaryKey C row pid) row) rows al) =
      fst ` set al \<union> (\<lambda>row. BuildSecondaryKey C row pid) ` set rows" for al
    by (induction rows arbitrary: al) (auto simp: dom_update)
  then show "fst ` set (entryKeysForRows C rows pid) = (\<lambda>row. BuildSecondaryKey C row pid) ` set rows"
    by (simp add: entryKeysForRows_def)
qed

section \<open>One index\<close>

text \<open>The map of an index holds the entries of the documents and nothing else; its flags are true to them.\<close>

definition holds ::
  "filter_env \<Rightarrow> conversions \<Rightarrow> id_hash \<Rightarrow> ('m \<Rightarrow> bytes list) \<Rightarrow> IndexInfo \<Rightarrow> 'm \<Rightarrow> fields set \<Rightarrow> bool" where
  "holds E C hashID entries info m S \<longleftrightarrow>
     set (entries m) = (\<Union>doc\<in>S. entries_of E C hashID info doc) \<and>
     (\<forall>doc\<in>S. (multikey_in E info doc \<longrightarrow> idx_multikey info) \<and> (lossy_in E info doc \<longrightarrow> idx_lossy info))"

lemma insert_documents:
  assumes "prolly_ok P entries" "index_ok E info" "\<forall>doc\<in>set docs. storable hashID doc"
    and "holds E C hashID entries info m S"
  shows "\<exists>m' a b. fold_result (insert_document E P C hashID) (m, info) docs = Ok (m', add_flags info a b) \<and>
    holds E C hashID entries (add_flags info a b) m' (S \<union> set docs)"
  using assms(2-)
proof (induction docs arbitrary: m info S)
  case Nil
  then show ?case by (intro exI [of _ m] exI [of _ False]) simp
next
  case (Cons doc docs)
  obtain pid where pid: "document_id hashID doc = Ok pid" "no_dup (BDocument doc)" using Cons.prems(2) by (auto simp: storable_def)
  obtain rows mk ly where ies: "indexEntriesForDoc E doc info = Ok (rows, mk, ly)"
    using indexEntries_Ok [OF pid(2) Cons.prems(1)] by blast
  obtain m1 where m1: "fold_result (\<lambda>m fv. InsertEntry P C m fv pid) m rows = Ok m1"
    "set (entries m1) = set (entries m) \<union> (\<lambda>row. BuildSecondaryKey C row pid) ` set rows"
    using insert_rows [OF assms(1)] by blast
  have "holds E C hashID entries (add_flags info mk ly) m1 (insert doc S)"
    using Cons.prems(3) m1(2) pid(1) ies unfolding holds_def
    by (auto simp: entries_of_def rows_of_def multikey_in_def lossy_in_def)
  from Cons.IH [OF _ _ this] obtain m' a b where
    "fold_result (insert_document E P C hashID) (m1, add_flags info mk ly) docs = Ok (m', add_flags info a b)"
    "holds E C hashID entries (add_flags info a b) m' (insert doc S \<union> set docs)"
    using Cons.prems(1,2) by auto
  moreover have "insert_document E P C hashID (m, info) doc = Ok (m1, add_flags info mk ly)"
    using pid(1) ies m1(1) by (simp add: insert_document_def)
  ultimately show ?case by auto
qed

text \<open>One update swaps the entries of the old document for those of the new one.\<close>

lemma update_one:
  assumes "prolly_ok P entries" "index_ok E info" "holds E C hashID entries info (fst s) S"
    and "\<forall>doc\<in>S. storable hashID doc" "inj_on (document_id hashID) S" "old \<in> S"
    and "storable hashID new" "document_id hashID new = document_id hashID old"
  shows "\<exists>s' a b. update_document E P C hashID (s, info) (old, new) = Ok (s', add_flags info a b) \<and>
    holds E C hashID entries (add_flags info a b) (fst s') (insert new (S - {old})) \<and> (snd s' \<or> s' = s)"
proof -
  obtain pid where pid: "document_id hashID new = Ok pid" "document_id hashID old = Ok pid"
    and nd: "no_dup (BDocument new)" "no_dup (BDocument old)" using assms(4,6-8) by (auto simp: storable_def)
  obtain rows mk ly rows0 mk0 ly0 where
    ies: "indexEntriesForDoc E new info = Ok (rows, mk, ly)" "indexEntriesForDoc E old info = Ok (rows0, mk0, ly0)"
    using indexEntries_Ok [OF _ assms(2)] nd by blast
  let ?old = "entryKeysForRows C rows0 pid" and ?new = "entryKeysForRows C rows pid"
  have keys: "fst ` set ?old = entries_of E C hashID info old" "fst ` set ?new = entries_of E C hashID info new"
    by (simp_all add: entryKeys entries_of_def rows_of_def pid ies)
  obtain s1 where s1: "fold_result (delete_missing P C pid ?new) s ?old = Ok s1"
    "set (entries (fst s1)) = set (entries (fst s)) - (fst ` set ?old - fst ` set ?new)" "snd s1 \<or> s1 = s"
    using delete_missing [OF assms(1) entryKeys(1)] by blast
  obtain s2 where s2: "fold_result (insert_missing P C pid ?old) s1 ?new = Ok s2"
    "set (entries (fst s2)) = set (entries (fst s1)) \<union> (fst ` set ?new - fst ` set ?old)" "snd s2 \<or> s2 = s1"
    using insert_missing [OF assms(1) entryKeys(1)] by blast
  have "entries_of E C hashID info doc \<inter> entries_of E C hashID info old = {}" if "doc \<in> S" "doc \<noteq> old" for doc
    using that assms(4-6) by (intro entries_disjoint) (auto dest: inj_onD)
  moreover have "set (entries (fst s)) = (\<Union>doc\<in>S. entries_of E C hashID info doc)" using assms(3) by (simp add: holds_def)
  ultimately have "set (entries (fst s2)) = entries_of E C hashID info new \<union> (\<Union>doc\<in>S - {old}. entries_of E C hashID info doc)"
    unfolding s2(2) s1(2) keys using assms(6) by blast
  then have "holds E C hashID entries (add_flags info mk ly) (fst s2) (insert new (S - {old}))"
    using assms(3) ies(1) unfolding holds_def by (auto simp: multikey_in_def lossy_in_def)
  moreover have "update_document E P C hashID (s, info) (old, new) = Ok (s2, add_flags info mk ly)"
    using pid ies s1(1) s2(1) by (simp add: update_document_def Let_def)
  ultimately show ?thesis using s1(3) s2(3) by blast
qed

text \<open>The documents after a batch of updates.\<close>

fun updated :: "(fields \<times> fields) list \<Rightarrow> fields set \<Rightarrow> fields set" where
  "updated [] S = S"
| "updated ((old, new) # pairs) S = updated pairs (insert new (S - {old}))"

definition update_ok :: "id_hash \<Rightarrow> (fields \<times> fields) list \<Rightarrow> fields set \<Rightarrow> bool" where
  "update_ok hashID pairs S \<longleftrightarrow> distinct (map fst pairs) \<and> fst ` set pairs \<subseteq> S \<and>
     (\<forall>(old, new)\<in>set pairs. storable hashID new \<and> document_id hashID new = document_id hashID old)"

lemma swap_inj:
  assumes "inj_on f S" "old \<in> S" "f new = f old"
  shows "inj_on f (insert new (S - {old}))"
  using assms unfolding inj_on_def by auto

lemma update_documents:
  assumes "prolly_ok P entries" "index_ok E info" "holds E C hashID entries info (fst s) S"
    and "\<forall>doc\<in>S. storable hashID doc" "inj_on (document_id hashID) S" "update_ok hashID pairs S"
  shows "\<exists>s' a b. fold_result (update_document E P C hashID) (s, info) pairs = Ok (s', add_flags info a b) \<and>
    holds E C hashID entries (add_flags info a b) (fst s') (updated pairs S) \<and> (snd s' \<or> s' = s)"
  using assms(2-)
proof (induction pairs arbitrary: s info S)
  case Nil
  then show ?case by (intro exI [of _ s] exI [of _ False]) simp
next
  case (Cons pair pairs)
  obtain old new where p: "pair = (old, new)" by (cases pair)
  have ok: "old \<in> S" "storable hashID new" "document_id hashID new = document_id hashID old"
    using Cons.prems(5) by (auto simp: update_ok_def p)
  obtain s1 a b where s1: "update_document E P C hashID (s, info) (old, new) = Ok (s1, add_flags info a b)"
    "holds E C hashID entries (add_flags info a b) (fst s1) (insert new (S - {old}))" "snd s1 \<or> s1 = s"
    using update_one [OF assms(1) Cons.prems(1-4) ok] by blast
  have S: "\<forall>doc\<in>insert new (S - {old}). storable hashID doc" "inj_on (document_id hashID) (insert new (S - {old}))"
    "update_ok hashID pairs (insert new (S - {old}))"
    using Cons.prems(3,5) ok(2) swap_inj [OF Cons.prems(4) ok(1,3)] by (auto simp: update_ok_def p)
  obtain s' a' b' where "fold_result (update_document E P C hashID) (s1, add_flags info a b) pairs = Ok (s', add_flags info a' b')"
    "holds E C hashID entries (add_flags info a' b') (fst s') (updated pairs (insert new (S - {old})))" "snd s' \<or> s' = s1"
    using Cons.IH [OF _ s1(2) S] Cons.prems(1) by auto
  then show ?case using s1(1,3) p by (intro exI [of _ s'] exI [of _ a'] exI [of _ b']) auto
qed

lemma delete_documents:
  assumes "prolly_ok P entries" "index_ok E info" "holds E C hashID entries info (fst s) S"
    and "\<forall>doc\<in>S. storable hashID doc" "inj_on (document_id hashID) S" "set docs \<subseteq> S" "distinct docs"
  shows "\<exists>s'. fold_result (delete_document E P C hashID info) s docs = Ok s' \<and>
    holds E C hashID entries info (fst s') (S - set docs) \<and> (snd s' \<or> s' = s)"
  using assms(3-)
proof (induction docs arbitrary: s S)
  case (Cons doc docs)
  obtain pid where pid: "document_id hashID doc = Ok pid" "no_dup (BDocument doc)" using Cons.prems(2,4) by (auto simp: storable_def)
  obtain rows mk ly where ies: "indexEntriesForDoc E doc info = Ok (rows, mk, ly)"
    using indexEntries_Ok [OF pid(2) assms(2)] by blast
  obtain s1 where d: "fold_result (\<lambda>s row. bind_result (DeleteEntry P C (fst s) row pid) (\<lambda>mut. Ok (mut, True))) s rows = Ok s1"
    "set (entries (fst s1)) = set (entries (fst s)) - (\<lambda>row. BuildSecondaryKey C row pid) ` set rows" "snd s1 \<or> s1 = s"
    using delete_rows [OF assms(1)] by blast
  have s1: "delete_document E P C hashID info s doc = Ok s1"
    "set (entries (fst s1)) = set (entries (fst s)) - entries_of E C hashID info doc"
    using d(1,2) pid(1) ies by (simp_all add: delete_document_def entries_of_def rows_of_def)
  have "entries_of E C hashID info d \<inter> entries_of E C hashID info doc = {}" if "d \<in> S" "d \<noteq> doc" for d
    using that Cons.prems(2,3,4) by (intro entries_disjoint) (auto dest: inj_onD)
  moreover have "set (entries (fst s)) = (\<Union>doc\<in>S. entries_of E C hashID info doc)" using Cons.prems(1) by (simp add: holds_def)
  ultimately have "set (entries (fst s1)) = (\<Union>doc\<in>S - {doc}. entries_of E C hashID info doc)"
    unfolding s1(2) using Cons.prems(4) by auto
  then have "holds E C hashID entries info (fst s1) (S - {doc})" using Cons.prems(1) by (auto simp: holds_def)
  moreover have "\<forall>d\<in>S - {doc}. storable hashID d" "inj_on (document_id hashID) (S - {doc})" "set docs \<subseteq> S - {doc}" "distinct docs"
    using Cons.prems(2-5) by (auto intro: inj_on_diff)
  ultimately obtain s' where "fold_result (delete_document E P C hashID info) s1 docs = Ok s'"
    "holds E C hashID entries info (fst s') (S - {doc} - set docs)" "snd s' \<or> s' = s1"
    using Cons.IH by blast
  then show ?case using s1(1) d(3) by (intro exI [of _ s']) (auto simp: Diff_insert2 [symmetric])
qed simp

section \<open>All indexes of a collection\<close>

definition in_step ::
  "filter_env \<Rightarrow> conversions \<Rightarrow> id_hash \<Rightarrow> ('m \<Rightarrow> bytes list) \<Rightarrow> IndexInfo list \<Rightarrow> 'm index_maps \<Rightarrow> fields set \<Rightarrow> bool" where
  "in_step E C hashID entries infos maps S \<longleftrightarrow> distinct (map idx_name infos) \<and>
     (\<forall>info\<in>set infos. index_ok E info \<and> (\<exists>m. maps (idx_name info) = Some m \<and> holds E C hashID entries info m S))"

lemma in_step_other:
  assumes "in_step E C hashID entries infos maps S" "n \<notin> idx_name ` set infos"
  shows "in_step E C hashID entries infos (maps(n \<mapsto> m)) S"
proof -
  have "(maps(n \<mapsto> m)) (idx_name info) = maps (idx_name info)" if "info \<in> set infos" for info using assms(2) that by auto
  then show ?thesis using assms(1) unfolding in_step_def by simp
qed

lemma in_step_Cons:
  "in_step E C hashID entries (info # infos) maps S \<longleftrightarrow> idx_name info \<notin> idx_name ` set infos \<and> index_ok E info \<and>
     (\<exists>m. maps (idx_name info) = Some m \<and> holds E C hashID entries info m S) \<and> in_step E C hashID entries infos maps S"
  by (auto simp: in_step_def)

lemma in_step_snoc:
  "in_step E C hashID entries (infos @ [info]) maps S \<longleftrightarrow> in_step E C hashID entries (info # infos) maps S"
  by (auto simp: in_step_def)

lemma index_loop:
  assumes "\<And>acc out info m. info \<in> set infos \<Longrightarrow> out (idx_name info) = Some m \<Longrightarrow> holds E C hashID entries info m S \<Longrightarrow>
      \<exists>a b m'. f (acc, out) info = Ok (acc @ [add_flags info a b], out(idx_name info \<mapsto> m')) \<and>
        holds E C hashID entries (add_flags info a b) m' S'"
    and "in_step E C hashID entries infos maps S" "in_step E C hashID entries acc maps S'"
    and "idx_name ` set acc \<inter> idx_name ` set infos = {}"
  shows "\<exists>infos' maps'. fold_result f (acc, maps) infos = Ok (infos', maps') \<and> in_step E C hashID entries infos' maps' S'"
  using assms
proof (induction infos arbitrary: acc maps)
  case (Cons info infos)
  obtain m where m: "maps (idx_name info) = Some m" "holds E C hashID entries info m S" "index_ok E info"
    using Cons.prems(2) by (auto simp: in_step_def)
  have "info \<in> set (info # infos)" by simp
  from Cons.prems(1) [where info = info and out = maps and m = m and acc = acc, OF this m(1,2)]
  obtain a b m' where step: "f (acc, maps) info = Ok (acc @ [add_flags info a b], maps(idx_name info \<mapsto> m'))"
    "holds E C hashID entries (add_flags info a b) m' S'" by (elim exE conjE)
  have 1: "in_step E C hashID entries infos (maps(idx_name info \<mapsto> m')) S"
    using Cons.prems(2) by (simp add: in_step_Cons in_step_other)
  have 2: "in_step E C hashID entries (acc @ [add_flags info a b]) (maps(idx_name info \<mapsto> m')) S'"
    using in_step_other [OF Cons.prems(3), of "idx_name info"] Cons.prems(4) step(2) m(3)
    by (simp add: in_step_snoc in_step_Cons image_iff)
  have 3: "idx_name ` set (acc @ [add_flags info a b]) \<inter> idx_name ` set infos = {}"
    using Cons.prems(2,4) by (auto simp: in_step_def)
  have "\<exists>infos' maps'. fold_result f (acc @ [add_flags info a b], maps(idx_name info \<mapsto> m')) infos = Ok (infos', maps') \<and>
      in_step E C hashID entries infos' maps' S'"
    by (rule Cons.IH [OF _ 1 2 3], rule Cons.prems(1) [OF list.set_intros(2)])
  then show ?case using step(1) by simp
qed auto

lemma in_step_Nil: "in_step E C hashID entries [] maps S"
  by (simp add: in_step_def)

lemma in_step_ok: "in_step E C hashID entries infos maps S \<Longrightarrow> info \<in> set infos \<Longrightarrow> index_ok E info"
  by (simp add: in_step_def)

lemma applyInserts_in_step:
  assumes "prolly_ok P entries" "in_step E C hashID entries infos maps S" "\<forall>doc\<in>set docs. storable hashID doc"
  shows "\<exists>infos' maps'. applyInsertsToIndexes E P C hashID infos maps docs = Ok (infos', maps') \<and>
    in_step E C hashID entries infos' maps' (S \<union> set docs)"
  unfolding applyInsertsToIndexes_def
proof (rule index_loop [OF _ assms(2) in_step_Nil])
  fix acc out info m
  assume i: "info \<in> set infos" "out (idx_name info) = Some m" "holds E C hashID entries info m S"
  from insert_documents [OF assms(1) in_step_ok [OF assms(2) i(1)] assms(3) i(3)]
  show "\<exists>a b m'. (\<lambda>(outInfos, out) info. case out (idx_name info) of None \<Rightarrow> Err ()
        | Some idxMap \<Rightarrow> bind_result (fold_result (insert_document E P C hashID) (idxMap, info) docs)
            (\<lambda>(updated, info'). Ok (outInfos @ [info'], out(idx_name info \<mapsto> updated)))) (acc, out) info =
        Ok (acc @ [add_flags info a b], out(idx_name info \<mapsto> m')) \<and>
      holds E C hashID entries (add_flags info a b) m' (S \<union> set docs)"
    using i(2) by fastforce
qed simp

lemma applyUpdates_in_step:
  assumes "prolly_ok P entries" "in_step E C hashID entries infos maps S"
    and "\<forall>doc\<in>S. storable hashID doc" "inj_on (document_id hashID) S" "length olds = length news" "update_ok hashID (zip olds news) S"
  shows "\<exists>infos' maps'. applyUpdatesToIndexes E P C hashID infos maps olds news = Ok (infos', maps') \<and>
    in_step E C hashID entries infos' maps' (updated (zip olds news) S)"
proof (cases "infos = [] \<or> olds = []")
  case True
  then show ?thesis using assms(2) by (auto simp: applyUpdatesToIndexes_def in_step_Nil)
next
  case False
  have "\<exists>infos' maps'. fold_result (\<lambda>(outInfos, out) info. case out (idx_name info) of None \<Rightarrow> Err ()
        | Some idxMap \<Rightarrow> bind_result (fold_result (update_document E P C hashID) ((idxMap, False), info) (zip olds news))
            (\<lambda>((updated, edited), info'). Ok (outInfos @ [info'], if edited then out(idx_name info \<mapsto> updated) else out)))
      ([], maps) infos = Ok (infos', maps') \<and> in_step E C hashID entries infos' maps' (updated (zip olds news) S)"
  proof (rule index_loop [OF _ assms(2) in_step_Nil])
    fix acc out info m
    assume i: "info \<in> set infos" "out (idx_name info) = Some m" "holds E C hashID entries info m S"
    from i(3) have "holds E C hashID entries info (fst (m, False)) S" by simp
    from update_documents [OF assms(1) in_step_ok [OF assms(2) i(1)] this assms(3,4,6)]
    obtain s' a b where s': "fold_result (update_document E P C hashID) ((m, False), info) (zip olds news) = Ok (s', add_flags info a b)"
      "holds E C hashID entries (add_flags info a b) (fst s') (updated (zip olds news) S)" "snd s' \<or> s' = (m, False)" by (elim exE conjE)
    moreover have "(if snd s' then out(idx_name info \<mapsto> fst s') else out) = out(idx_name info \<mapsto> fst s')"
      using s'(3) i(2) by (auto simp: fun_eq_iff)
    ultimately show "\<exists>a b m'. (\<lambda>(outInfos, out) info. case out (idx_name info) of None \<Rightarrow> Err ()
          | Some idxMap \<Rightarrow> bind_result (fold_result (update_document E P C hashID) ((idxMap, False), info) (zip olds news))
              (\<lambda>((updated, edited), info'). Ok (outInfos @ [info'], if edited then out(idx_name info \<mapsto> updated) else out)))
          (acc, out) info = Ok (acc @ [add_flags info a b], out(idx_name info \<mapsto> m')) \<and>
        holds E C hashID entries (add_flags info a b) m' (updated (zip olds news) S)"
      using i(2) by - (rule exI [of _ a], rule exI [of _ b], rule exI [of _ "fst s'"], cases s', auto split: if_splits)
  qed simp
  then show ?thesis using False assms(5) by (simp add: applyUpdatesToIndexes_def)
qed

lemma fold_result_trace:
  "fold_result (\<lambda>(acc, out) x. bind_result (f out x) (\<lambda>out'. Ok (acc @ [x], out'))) (acc, out) xs =
    bind_result (fold_result f out xs) (\<lambda>out'. Ok (acc @ xs, out'))"
proof (induction xs arbitrary: acc out)
  case (Cons x xs)
  then show ?case by (cases "f out x") auto
qed simp

lemma applyDeletes_in_step:
  assumes "prolly_ok P entries" "in_step E C hashID entries infos maps S"
    and "\<forall>doc\<in>S. storable hashID doc" "inj_on (document_id hashID) S" "set docs \<subseteq> S" "distinct docs"
  shows "\<exists>maps'. applyDeletesToIndexes E P C hashID infos maps docs = Ok maps' \<and>
    in_step E C hashID entries infos maps' (S - set docs)"
proof (cases "infos = [] \<or> docs = []")
  case True
  then show ?thesis using assms(2) by (auto simp: applyDeletesToIndexes_def in_step_Nil)
next
  case False
  let ?f = "\<lambda>out info. case out (idx_name info) of None \<Rightarrow> Err ()
      | Some idxMap \<Rightarrow> bind_result (fold_result (delete_document E P C hashID info) (idxMap, False) docs)
          (\<lambda>(updated, edited). Ok (if edited then out(idx_name info \<mapsto> updated) else out))"
  have "\<exists>infos' maps'. fold_result (\<lambda>(acc, out) info. bind_result (?f out info) (\<lambda>out'. Ok (acc @ [info], out'))) ([], maps) infos =
      Ok (infos', maps') \<and> in_step E C hashID entries infos' maps' (S - set docs)"
  proof (rule index_loop [OF _ assms(2) in_step_Nil])
    fix acc out info m
    assume i: "info \<in> set infos" "out (idx_name info) = Some m" "holds E C hashID entries info m S"
    from i(3) have "holds E C hashID entries info (fst (m, False)) S" by simp
    from delete_documents [OF assms(1) in_step_ok [OF assms(2) i(1)] this assms(3-6)]
    obtain s' where s': "fold_result (delete_document E P C hashID info) (m, False) docs = Ok s'"
      "holds E C hashID entries info (fst s') (S - set docs)" "snd s' \<or> s' = (m, False)" by (elim exE conjE)
    moreover have "(if snd s' then out(idx_name info \<mapsto> fst s') else out) = out(idx_name info \<mapsto> fst s')"
      using s'(3) i(2) by (auto simp: fun_eq_iff)
    ultimately show "\<exists>a b m'. (\<lambda>(acc, out) info. bind_result (?f out info) (\<lambda>out'. Ok (acc @ [info], out'))) (acc, out) info =
        Ok (acc @ [add_flags info a b], out(idx_name info \<mapsto> m')) \<and> holds E C hashID entries (add_flags info a b) m' (S - set docs)"
      using i(2) by (intro exI [of _ False] exI [of _ "fst s'"]) (cases s', auto split: if_splits)
  qed simp
  then show ?thesis using False unfolding fold_result_trace by (auto simp: applyDeletesToIndexes_def)
qed

section \<open>Histories\<close>

text \<open>
  The states of a collection: documents, indexes and their maps. It begins without documents
  and changes by batches that give every document its own id.
\<close>

inductive history ::
  "filter_env \<Rightarrow> ('m, 'k) prolly \<Rightarrow> conversions \<Rightarrow> id_hash \<Rightarrow> IndexInfo list \<Rightarrow> 'm index_maps \<Rightarrow>
   fields set \<Rightarrow> IndexInfo list \<Rightarrow> 'm index_maps \<Rightarrow> bool"
  for E P C hashID infos0 maps0 where
  start: "history E P C hashID infos0 maps0 {} infos0 maps0"
| inserts: "history E P C hashID infos0 maps0 S infos maps \<Longrightarrow> \<forall>doc\<in>set docs. storable hashID doc \<Longrightarrow>
    inj_on (document_id hashID) (S \<union> set docs) \<Longrightarrow> applyInsertsToIndexes E P C hashID infos maps docs = Ok (infos', maps') \<Longrightarrow>
    history E P C hashID infos0 maps0 (S \<union> set docs) infos' maps'"
| updates: "history E P C hashID infos0 maps0 S infos maps \<Longrightarrow> length olds = length news \<Longrightarrow> update_ok hashID (zip olds news) S \<Longrightarrow>
    applyUpdatesToIndexes E P C hashID infos maps olds news = Ok (infos', maps') \<Longrightarrow>
    history E P C hashID infos0 maps0 (updated (zip olds news) S) infos' maps'"
| deletes: "history E P C hashID infos0 maps0 S infos maps \<Longrightarrow> set docs \<subseteq> S \<Longrightarrow> distinct docs \<Longrightarrow>
    applyDeletesToIndexes E P C hashID infos maps docs = Ok maps' \<Longrightarrow>
    history E P C hashID infos0 maps0 (S - set docs) infos maps'"

text \<open>A collection whose indexes are empty, with names of their own.\<close>

definition fresh :: "filter_env \<Rightarrow> ('m \<Rightarrow> bytes list) \<Rightarrow> IndexInfo list \<Rightarrow> 'm index_maps \<Rightarrow> bool" where
  "fresh E entries infos maps \<longleftrightarrow> distinct (map idx_name infos) \<and>
     (\<forall>info\<in>set infos. index_ok E info \<and> (\<exists>m. maps (idx_name info) = Some m \<and> entries m = []))"

lemma updated_ok:
  assumes "\<forall>doc\<in>S. storable hashID doc" "inj_on (document_id hashID) S" "update_ok hashID pairs S"
  shows "(\<forall>doc\<in>updated pairs S. storable hashID doc) \<and> inj_on (document_id hashID) (updated pairs S)"
  using assms
proof (induction pairs arbitrary: S)
  case (Cons pair pairs)
  obtain old new where p: "pair = (old, new)" by (cases pair)
  have ok: "old \<in> S" "storable hashID new" "document_id hashID new = document_id hashID old"
    using Cons.prems(3) by (auto simp: update_ok_def p)
  show ?case unfolding p updated.simps
    by (rule Cons.IH) (use Cons.prems ok swap_inj [OF Cons.prems(2) ok(1,3)] in \<open>auto simp: update_ok_def p\<close>)
qed simp

lemma history_in_step:
  assumes "history E P C hashID infos0 maps0 S infos maps" "prolly_ok P entries" "fresh E entries infos0 maps0"
  shows "in_step E C hashID entries infos maps S \<and> (\<forall>doc\<in>S. storable hashID doc) \<and> inj_on (document_id hashID) S"
  using assms(1)
proof induction
  case start
  then show ?case using assms(3) by (fastforce simp: fresh_def in_step_def holds_def)
next
  case (inserts S infos maps docs infos' maps')
  then show ?case using applyInserts_in_step [OF assms(2), of E C hashID infos maps S docs] by auto
next
  case (updates S infos maps olds news infos' maps')
  then show ?case
    using applyUpdates_in_step [OF assms(2), of E C hashID infos maps S olds news] updated_ok [of S hashID "zip olds news"] by auto
next
  case (deletes S infos maps docs maps')
  then show ?case using applyDeletes_in_step [OF assms(2), of E C hashID infos maps S docs] by (auto intro: inj_on_diff)
qed

text \<open>
  Property C6 (invariant). The indexes of a collection follow its documents: after any sequence of inserts, updates and
  deletes, the map of every index holds exactly the entries of the documents present, partial
  and sparse membership and the elements of arrays included, and an index with an entry from an
  array or with a value its keys cannot represent carries the flag for it. The indexes are those
  with the simple collation, whose rows are the values themselves, and a partial filter is one
  that cannot panic (\<open>filter_ok\<close>).
\<close>

theorem indexes_follow_documents:
  assumes "history E P C hashID infos0 maps0 S infos maps" "prolly_ok P entries" "fresh E entries infos0 maps0"
    and "info \<in> set infos"
  shows "\<exists>m. maps (idx_name info) = Some m \<and> set (entries m) = (\<Union>doc\<in>S. entries_of E C hashID info doc) \<and>
    (\<forall>doc\<in>S. (multikey_in E info doc \<longrightarrow> idx_multikey info) \<and> (lossy_in E info doc \<longrightarrow> idx_lossy info))"
  using history_in_step [OF assms(1-3)] assms(4) by (auto simp: in_step_def holds_def)

definition sample_hash :: id_hash where
  "sample_hash v = (case v of BInt32 i \<Rightarrow> Ok (sample_id (ucast i)) | _ \<Rightarrow> Err ())"

definition sample_info :: IndexInfo where
  "sample_info = \<lparr>idx_name = ''v_1'', idx_key = [\<lparr>kp_field = ''v'', kp_descending = False, kp_text = False, kp_geo2DSphere = False,
     kp_geo2D = False, kp_hashed = False\<rparr>], idx_unique = False,
     idx_sparse = False, idx_partial = None, idx_collation = [], idx_lossy = False, idx_multikey = False\<rparr>"

definition sample_doc :: fields where
  "sample_doc = [(''_id'', BInt32 1), (''v'', BArray [BInt32 5, BInt32 7])]"

definition sample_maps :: "bytes list index_maps" where
  "sample_maps = [''v_1'' \<mapsto> []]"

lemma sample_insert:
  "case applyInsertsToIndexes sample_filter_env sample_prolly sample_conversions sample_hash [sample_info] sample_maps [sample_doc] of
     Ok (infos, maps) \<Rightarrow> infos = [add_flags sample_info True False] | _ \<Rightarrow> False"
  by code_simp

lemma sample_history:
  obtains maps where "history sample_filter_env sample_prolly sample_conversions sample_hash [sample_info] sample_maps {sample_doc}
    [add_flags sample_info True False] maps"
proof -
  obtain maps where m: "applyInsertsToIndexes sample_filter_env sample_prolly sample_conversions sample_hash [sample_info] sample_maps
      [sample_doc] = Ok ([add_flags sample_info True False], maps)"
    using sample_insert by (auto split: result.splits)
  have "document_id sample_hash sample_doc = Ok (sample_id 1)" by code_simp
  then have "storable sample_hash sample_doc"
    by (simp add: storable_def sample_doc_def no_dup.simps(1) sample_id_def primaryIDLen_def)
  with history.inserts [OF history.start _ _ m] show thesis by (intro that) simp
qed

theorem indexes_follow_documents_witness:
  "\<exists>infos maps m. history sample_filter_env sample_prolly sample_conversions sample_hash [sample_info] sample_maps {sample_doc} infos maps \<and>
     maps ''v_1'' = Some m \<and>
     set (sample_entries m) = {BuildSecondaryKey sample_conversions [BInt32 5] (sample_id 1),
       BuildSecondaryKey sample_conversions [BInt32 7] (sample_id 1)}"
proof -
  obtain maps where h: "history sample_filter_env sample_prolly sample_conversions sample_hash [sample_info] sample_maps {sample_doc}
    [add_flags sample_info True False] maps" by (rule sample_history)
  have "fresh sample_filter_env sample_entries [sample_info] sample_maps"
    by (simp add: fresh_def sample_maps_def sample_info_def index_ok_def) (simp add: sample_entries_def)
  then obtain m where "maps ''v_1'' = Some m"
    "set (sample_entries m) = entries_of sample_filter_env sample_conversions sample_hash sample_info sample_doc"
    using indexes_follow_documents [OF h sample_prolly_ok, of "add_flags sample_info True False"] by (auto simp: sample_info_def)
  moreover have "rows_of sample_filter_env sample_info sample_doc = [[BInt32 5], [BInt32 7]]" by code_simp
  moreover have "document_id sample_hash sample_doc = Ok (sample_id 1)" by code_simp
  ultimately show ?thesis using h by (auto simp: entries_of_def)
qed

end
