(* ===== verification/IndexPlan.thy ===== *)
theory IndexPlan
  imports IndexMaintenance Validation
begin

text \<open>
  The query planner of \<open>internal/backends/dolt/collection.go\<close>: bounds for the condition on a
  field, implication of partial filters, the choice of an index and the scan of its ranges, for
  queries with the simple collation. Its functions return no errors of their own except those of
  the ordered map; they panic where a document has a duplicate key.
\<close>

section \<open>Comparison of operands\<close>

text \<open>\<open>compareScalars\<close> of the planner; its operands are no collation keys here.\<close>

definition compare_operands :: "bigint_fun \<Rightarrow> bson \<Rightarrow> bson \<Rightarrow> int" where
  "compare_operands D a b = (case Compare D a b of Less \<Rightarrow> -1 | Greater \<Rightarrow> 1 | Equal \<Rightarrow> 0)"

definition has_key :: "fields \<Rightarrow> string \<Rightarrow> bool" where
  "has_key fs k \<longleftrightarrow> k \<in> fst ` set fs"

section \<open>Bounds\<close>

fun no_index_value :: "bson \<Rightarrow> bool" where
  "no_index_value BNull = True"
| "no_index_value (BArray _) = True"
| "no_index_value (BRegex _ _) = True"
| "no_index_value (BDecimal128 _ _) = True"
| "no_index_value _ = False"

definition no_index_operand :: "bson \<Rightarrow> bool" where
  "no_index_operand v \<longleftrightarrow> no_index_value v \<or> (case v of BDocument _ \<Rightarrow> True | _ \<Rightarrow> False)"

definition value_ranges :: "conversions \<Rightarrow> bson list \<Rightarrow> (bytes \<times> bytes) list option" where
  "value_ranges C vs =
     (if list_ex no_index_operand vs then None
      else Some (map (\<lambda>v. (LowerBoundInclusive C v, UpperBoundInclusive C v)) vs))"

definition indexPointRangesForIn :: "conversions \<Rightarrow> bson \<Rightarrow> (bytes \<times> bytes) list option" where
  "indexPointRangesForIn C v =
     (case v of
        BDocument [(op, operand)] \<Rightarrow>
          if op \<noteq> ''$in'' then None
          else (case operand of BArray vs \<Rightarrow> value_ranges C vs | _ \<Rightarrow> None)
      | _ \<Rightarrow> None)"

text \<open>A lower or upper bound under construction: its operand and whether it is inclusive.\<close>

type_synonym bound = "(bson \<times> bool) option"

definition set_lower :: "bigint_fun \<Rightarrow> bson \<Rightarrow> bool \<Rightarrow> bound \<Rightarrow> bound" where
  "set_lower D v inclusive lower =
     (case lower of
        None \<Rightarrow> Some (v, inclusive)
      | Some (w, _) \<Rightarrow>
          if (if inclusive then compare_operands D v w > 0 else compare_operands D v w \<ge> 0)
          then Some (v, inclusive) else lower)"

definition set_upper :: "bigint_fun \<Rightarrow> bson \<Rightarrow> bool \<Rightarrow> bound \<Rightarrow> bound" where
  "set_upper D v inclusive upper =
     (case upper of
        None \<Rightarrow> Some (v, inclusive)
      | Some (w, _) \<Rightarrow>
          if (if inclusive then compare_operands D v w < 0 else compare_operands D v w \<le> 0)
          then Some (v, inclusive) else upper)"

fun bounds_loop :: "bigint_fun \<Rightarrow> fields \<Rightarrow> string list \<Rightarrow> bound \<times> bound \<times> bson option \<Rightarrow>
    (unit, (bound \<times> bound \<times> bson option) option) result" where
  "bounds_loop D opDoc [] s = Ok (Some s)"
| "bounds_loop D opDoc (opKey # ks) (lower, upper, eq) =
     bind_result (get_value opDoc opKey) (\<lambda>r.
       case r of
         None \<Rightarrow> Ok None
       | Some opVal \<Rightarrow>
           if no_index_operand opVal then Ok None
           else if (case opVal of BDouble f \<Rightarrow> IsNaN f \<and> opKey \<noteq> ''$eq'' | _ \<Rightarrow> False) then Ok None
           else if opKey = ''$eq'' then bounds_loop D opDoc ks (lower, upper, Some opVal)
           else if opKey = ''$gte'' then bounds_loop D opDoc ks (set_lower D opVal True lower, upper, eq)
           else if opKey = ''$gt'' then bounds_loop D opDoc ks (set_lower D opVal False lower, upper, eq)
           else if opKey = ''$lte'' then bounds_loop D opDoc ks (lower, set_upper D opVal True upper, eq)
           else if opKey = ''$lt'' then bounds_loop D opDoc ks (lower, set_upper D opVal False upper, eq)
           else Ok None)"

definition lower_key :: "conversions \<Rightarrow> bson \<times> bool \<Rightarrow> bytes" where
  "lower_key C b = (if snd b then LowerBoundInclusive C (fst b) else LowerBoundExclusive C (fst b))"

definition upper_key :: "conversions \<Rightarrow> bson \<times> bool \<Rightarrow> bytes" where
  "upper_key C b = (if snd b then UpperBoundInclusive C (fst b) else UpperBoundExclusive C (fst b))"

text \<open>A side without a bound is clamped to the type bracket of the other one.\<close>

definition range_bounds :: "conversions \<Rightarrow> bound \<Rightarrow> bound \<Rightarrow> (bytes \<times> bytes) option" where
  "range_bounds C lower upper =
     (case (lower, upper) of
        (None, None) \<Rightarrow> None
      | (Some lo, None) \<Rightarrow> map_option (\<lambda>(s, e). (lower_key C lo, e)) (BracketRange (fst lo))
      | (None, Some hi) \<Rightarrow> map_option (\<lambda>(s, e). (s, upper_key C hi)) (BracketRange (fst hi))
      | (Some lo, Some hi) \<Rightarrow>
          (case (BracketRange (fst lo), BracketRange (fst hi)) of
             (Some (s, _), Some (s', _)) \<Rightarrow> if hd s \<noteq> hd s' then None else Some (lower_key C lo, upper_key C hi)
           | _ \<Rightarrow> None))"

definition indexBoundsForFilterValue :: "bigint_fun \<Rightarrow> conversions \<Rightarrow> bson \<Rightarrow> (unit, (bytes \<times> bytes) option) result" where
  "indexBoundsForFilterValue D C v =
     (case v of
        BDocument opDoc \<Rightarrow>
          bind_result (bounds_loop D opDoc (map fst opDoc) (None, None, None)) (\<lambda>r.
            Ok (case r of
              None \<Rightarrow> None
            | Some (_, _, Some eqVal) \<Rightarrow> Some (LowerBoundInclusive C eqVal, UpperBoundInclusive C eqVal)
            | Some (lower, upper, None) \<Rightarrow> range_bounds C lower upper))
      | _ \<Rightarrow> Ok (if no_index_value v then None else Some (LowerBoundInclusive C v, UpperBoundInclusive C v)))"

text \<open>The lower operators of a condition; \<open>Get\<close> panics on a duplicate key.\<close>

fun lower_operators :: "fields \<Rightarrow> string list \<Rightarrow> (unit, fields) result" where
  "lower_operators opDoc [] = Ok []"
| "lower_operators opDoc (op # ks) =
     (if op \<in> {''$gt'', ''$gte''} then
        bind_result (must_get opDoc op) (\<lambda>v. bind_result (lower_operators opDoc ks) (\<lambda>fs. Ok ((op, v) # fs)))
      else lower_operators opDoc ks)"

definition multikeyScanBound :: "bson \<Rightarrow> (unit, bson) result" where
  "multikeyScanBound v =
     (case v of
        BDocument opDoc \<Rightarrow>
          if has_key opDoc ''$eq'' \<or> \<not> (has_key opDoc ''$gt'' \<or> has_key opDoc ''$gte'') \<or>
             \<not> (has_key opDoc ''$lt'' \<or> has_key opDoc ''$lte'') then Ok v
          else bind_result (lower_operators opDoc (map fst opDoc)) (\<lambda>fs. Ok (BDocument fs))
      | _ \<Rightarrow> Ok v)"

section \<open>Prefixes of regular expressions\<close>

text \<open>The runes of a string, each as its bytes; an invalid byte reads as U+FFFD.\<close>

function runes :: "string \<Rightarrow> string list" where
  "runes s = (if s = [] then []
     else case utf8_step (map of_char s) of
       Some n \<Rightarrow> take (max 1 n) s # runes (drop (max 1 n) s)
     | None \<Rightarrow> [CHR 0xEF, CHR 0xBF, CHR 0xBD] # runes (tl s))"
  by pat_completeness auto
termination by (relation "measure length") auto

text \<open>The literal runes at the head and the special one that ends them, if any.\<close>

fun literal_runes :: "string list \<Rightarrow> string list \<times> string" where
  "literal_runes [] = ([], [])"
| "literal_runes (c # cs) =
     (if c = [CHR 0x5C] then
        (case cs of
           d # ds \<Rightarrow>
             if d \<in> set (map (\<lambda>x. [x]) (''.^$|?*+()[]{}'' @ [CHR 0x5C] @ ''/-''))
             then (let (lit, stop) = literal_runes ds in (d # lit, stop)) else ([], [])
         | [] \<Rightarrow> ([], []))
      else if c \<in> set (map (\<lambda>x. [x]) ''.^$?*+()[]{}'') then ([], c)
      else (let (lit, stop) = literal_runes cs in (c # lit, stop)))"

definition regexLiteralPrefix :: "string \<Rightarrow> string option" where
  "regexLiteralPrefix pattern =
     (if \<not> HasPrefix pattern ''^'' \<or> CHR ''|'' \<in> set pattern then None
      else let (lit, stop) = literal_runes (runes (tl pattern));
               lit = (if stop \<in> {''?'', ''*'', ''{''} \<and> lit \<noteq> [] then butlast lit else lit) in
           if lit = [] then None else Some (concat lit))"

definition bracketSuffix :: "bytes \<Rightarrow> bytes" where
  "bracketSuffix b =
     (if b = [] then b
      else if last b = 0x04 then butlast b @ [0x00]
      else if last b = 0x05 then butlast b @ [0xFF]
      else b)"

text \<open>The pattern and options of a condition that is a regular expression.\<close>

definition regex_condition :: "bson \<Rightarrow> (unit, (string \<times> string) option) result" where
  "regex_condition v =
     (case v of
        BRegex p q \<Rightarrow> Ok (Some (p, q))
      | BDocument t \<Rightarrow>
          bind_result (get_value t ''$regex'') (\<lambda>raw.
            case raw of
              None \<Rightarrow> Ok None
            | Some r \<Rightarrow>
                if \<not> list_all (\<lambda>(k, _). k = ''$regex'' \<or> k = ''$options'') t then Ok None
                else (case (case r of BString s \<Rightarrow> Some (s, []) | BRegex p q \<Rightarrow> Some (p, q) | _ \<Rightarrow> None) of
                    None \<Rightarrow> Ok None
                  | Some (p, q) \<Rightarrow>
                      bind_result (get_value t ''$options'') (\<lambda>opts.
                        Ok (case opts of
                            None \<Rightarrow> Some (p, q)
                          | Some (BString str) \<Rightarrow> if q \<noteq> [] \<and> str \<noteq> [] then None else Some (p, q @ str)
                          | Some _ \<Rightarrow> None))))
      | _ \<Rightarrow> Ok None)"

definition regexPrefixRanges :: "filter_env \<Rightarrow> conversions \<Rightarrow> bson \<Rightarrow> (unit, (bytes \<times> bytes) list option) result" where
  "regexPrefixRanges E C v =
     bind_result (regex_condition v) (\<lambda>r.
       Ok (case r of
           None \<Rightarrow> None
         | Some (p, q) \<Rightarrow>
             if \<not> list_all (\<lambda>c. c = CHR ''s'') q \<or> Regex_Compile E p q = None then None
             else (case regexLiteralPrefix p of
                 None \<Rightarrow> None
               | Some prefix \<Rightarrow>
                   let strStart = butlast (EncodeValue C (BString prefix)) in
                   Some [(strStart, strStart @ [0xFF]),
                     (bracketSuffix (LowerBoundInclusive C (BRegex p q)), bracketSuffix (UpperBoundInclusive C (BRegex p q)))])))"

section \<open>Null equality and existence\<close>

definition isNullEquality :: "bson \<Rightarrow> bool" where
  "isNullEquality v =
     (case v of BDocument [(op, w)] \<Rightarrow> op = ''$eq'' \<and> w = BNull | BDocument _ \<Rightarrow> False | _ \<Rightarrow> v = BNull)"

definition leading_field :: "IndexInfo \<Rightarrow> string" where
  "leading_field idx = kp_field (hd (idx_key idx))"

definition nullEqualityIndexable :: "IndexInfo \<Rightarrow> bool" where
  "nullEqualityIndexable idx \<longleftrightarrow> \<not> idx_sparse idx \<and> \<not> idx_multikey idx \<and> CHR ''.'' \<notin> set (leading_field idx)"

fun existsTruthy :: "bson \<Rightarrow> bool" where
  "existsTruthy (BBool b) = b"
| "existsTruthy (BInt32 i) = (i \<noteq> 0)"
| "existsTruthy (BInt64 i) = (i \<noteq> 0)"
| "existsTruthy (BDouble f) = (\<not> f64_eq f 0)"
| "existsTruthy _ = False"

definition isExistsTrue :: "bson \<Rightarrow> bool" where
  "isExistsTrue v = (case v of BDocument [(op, e)] \<Rightarrow> op = ''$exists'' \<and> existsTruthy e | _ \<Rightarrow> False)"

definition existsIndexable :: "IndexInfo \<Rightarrow> bool" where
  "existsIndexable idx \<longleftrightarrow> idx_sparse idx \<and> length (idx_key idx) = 1 \<and> CHR ''.'' \<notin> set (leading_field idx)"

section \<open>Partial indexes\<close>

definition partialFilterScalar :: "bson \<Rightarrow> bson option" where
  "partialFilterScalar v =
     (case (case v of BDocument [(op, w)] \<Rightarrow> if op = ''$eq'' then Some w else None | BDocument _ \<Rightarrow> None | _ \<Rightarrow> Some v) of
        None \<Rightarrow> None
      | Some w \<Rightarrow> (case w of BNull \<Rightarrow> None | BArray _ \<Rightarrow> None | BDocument _ \<Rightarrow> None | BRegex _ _ \<Rightarrow> None | _ \<Rightarrow> Some w))"

record scalarRange =
  sr_lo :: bound
  sr_hi :: bound

definition hasString :: "scalarRange \<Rightarrow> bool" where
  "hasString r \<longleftrightarrow> (case sr_lo r of Some (BString _, _) \<Rightarrow> True | _ \<Rightarrow> False) \<or>
     (case sr_hi r of Some (BString _, _) \<Rightarrow> True | _ \<Rightarrow> False)"

fun rangeComparable :: "bson \<Rightarrow> bool" where
  "rangeComparable (BInt32 _) = True"
| "rangeComparable (BInt64 _) = True"
| "rangeComparable (BString _) = True"
| "rangeComparable (BDouble f) = (\<not> IsNaN f)"
| "rangeComparable _ = False"

fun is_string :: "bson \<Rightarrow> bool" where
  "is_string (BString _) = True"
| "is_string _ = False"

definition sameRangeBracket :: "bson \<Rightarrow> bson \<Rightarrow> bool" where
  "sameRangeBracket a b \<longleftrightarrow> is_string a = is_string b"

definition setLo :: "bigint_fun \<Rightarrow> bson \<Rightarrow> bool \<Rightarrow> scalarRange \<Rightarrow> scalarRange" where
  "setLo D v inclusive r =
     (case sr_lo r of
        Some (lo, _) \<Rightarrow>
          let c = compare_operands D v lo in
          if c < 0 \<or> c = 0 \<and> inclusive then r else r\<lparr>sr_lo := Some (v, inclusive)\<rparr>
      | None \<Rightarrow> r\<lparr>sr_lo := Some (v, inclusive)\<rparr>)"

definition setHi :: "bigint_fun \<Rightarrow> bson \<Rightarrow> bool \<Rightarrow> scalarRange \<Rightarrow> scalarRange" where
  "setHi D v inclusive r =
     (case sr_hi r of
        Some (hi, _) \<Rightarrow>
          let c = compare_operands D v hi in
          if c > 0 \<or> c = 0 \<and> inclusive then r else r\<lparr>sr_hi := Some (v, inclusive)\<rparr>
      | None \<Rightarrow> r\<lparr>sr_hi := Some (v, inclusive)\<rparr>)"

fun range_loop :: "bigint_fun \<Rightarrow> fields \<Rightarrow> bson \<Rightarrow> string list \<Rightarrow> scalarRange \<Rightarrow> (unit, scalarRange option) result" where
  "range_loop D doc first [] r = Ok (Some r)"
| "range_loop D doc first (op # ops) r =
     bind_result (must_get doc op) (\<lambda>ov.
       if \<not> rangeComparable ov \<or> \<not> sameRangeBracket ov first then Ok None
       else if op = ''$eq'' then range_loop D doc first ops (setHi D ov True (setLo D ov True r))
       else if op = ''$gt'' then range_loop D doc first ops (setLo D ov False r)
       else if op = ''$gte'' then range_loop D doc first ops (setLo D ov True r)
       else if op = ''$lt'' then range_loop D doc first ops (setHi D ov False r)
       else if op = ''$lte'' then range_loop D doc first ops (setHi D ov True r)
       else Ok None)"

definition parseScalarRange :: "bigint_fun \<Rightarrow> bson \<Rightarrow> (unit, scalarRange option) result" where
  "parseScalarRange D v =
     (let r = \<lparr>sr_lo = None, sr_hi = None\<rparr> in
      if \<not> rangeComparable v then
        (case v of
           BDocument doc \<Rightarrow>
             if doc = [] then Ok None
             else bind_result (must_get doc (fst (hd doc))) (\<lambda>first. range_loop D doc first (map fst doc) r)
         | _ \<Rightarrow> Ok None)
      else Ok (Some (setHi D v True (setLo D v True r))))"

definition scalarRange_within :: "bigint_fun \<Rightarrow> scalarRange \<Rightarrow> scalarRange \<Rightarrow> bool" where
  "scalarRange_within D r outer \<longleftrightarrow>
     (case sr_lo outer of
        None \<Rightarrow> True
      | Some (olo, oincl) \<Rightarrow>
          (case sr_lo r of
             None \<Rightarrow> False
           | Some (lo, incl) \<Rightarrow>
               sameRangeBracket lo olo \<and>
               (let c = compare_operands D lo olo in \<not> (c < 0 \<or> c = 0 \<and> incl \<and> \<not> oincl)))) \<and>
     (case sr_hi outer of
        None \<Rightarrow> True
      | Some (ohi, oincl) \<Rightarrow>
          (case sr_hi r of
             None \<Rightarrow> False
           | Some (hi, incl) \<Rightarrow>
               sameRangeBracket hi ohi \<and>
               (let c = compare_operands D hi ohi in \<not> (c > 0 \<or> c = 0 \<and> incl \<and> \<not> oincl))))"

definition array_Contains :: "bigint_fun \<Rightarrow> bson list \<Rightarrow> bson \<Rightarrow> bool" where
  "array_Contains D vs v =
     (if \<not> isScalar v then Compare D (BArray vs) v = Equal \<or> list_ex (\<lambda>elem. Compare D elem v = Equal) vs
      else list_ex (\<lambda>elem. isScalar elem \<and> compareScalars D elem v = Equal) vs)"

definition excludes_missing_op :: "bigint_fun \<Rightarrow> string \<times> bson \<Rightarrow> bool" where
  "excludes_missing_op D = (\<lambda>(op, v).
     if op \<in> {''$eq'', ''$gt'', ''$gte'', ''$lt'', ''$lte''} then partialFilterScalar v \<noteq> None
     else if op = ''$exists'' then existsTruthy v
     else if op = ''$in'' then (case v of BArray vs \<Rightarrow> vs \<noteq> [] \<and> \<not> array_Contains D vs BNull | _ \<Rightarrow> False)
     else False)"

fun excludes_loop :: "bigint_fun \<Rightarrow> fields \<Rightarrow> string list \<Rightarrow> (unit, bool) result" where
  "excludes_loop D ops [] = Ok False"
| "excludes_loop D ops (op # ks) =
     bind_result (must_get ops op) (\<lambda>v. if excludes_missing_op D (op, v) then Ok True else excludes_loop D ops ks)"

definition conditionExcludesMissing :: "bigint_fun \<Rightarrow> bson \<Rightarrow> (unit, bool) result" where
  "conditionExcludesMissing D fv =
     (if partialFilterScalar fv \<noteq> None then Ok True
      else case fv of BDocument ops \<Rightarrow> excludes_loop D ops (map fst ops) | _ \<Rightarrow> Ok False)"

definition implies_condition :: "bigint_fun \<Rightarrow> bool \<Rightarrow> bson \<Rightarrow> bson \<Rightarrow> (unit, bool) result" where
  "implies_condition D stringRanges pv fv =
     (case partialFilterScalar pv of
        Some ps \<Rightarrow> Ok (case partialFilterScalar fv of None \<Rightarrow> False | Some fs \<Rightarrow> compare_operands D ps fs = 0)
      | None \<Rightarrow>
          if isExistsTrue pv then conditionExcludesMissing D fv
          else bind_result (parseScalarRange D pv) (\<lambda>pr.
            case pr of
              None \<Rightarrow> Ok False
            | Some pr \<Rightarrow>
                if \<not> stringRanges \<and> hasString pr then Ok False
                else bind_result (parseScalarRange D fv) (\<lambda>fr.
                  Ok (case fr of None \<Rightarrow> False | Some fr \<Rightarrow> scalarRange_within D fr pr))))"

definition filterImpliesPartial :: "bigint_fun \<Rightarrow> fields \<Rightarrow> fields \<Rightarrow> bool \<Rightarrow> (unit, bool) result" where
  "filterImpliesPartial D flt pfe stringRanges =
     for_all (\<lambda>(pk, _). bind_result (get_value pfe pk) (\<lambda>pv. case pv of
         None \<Rightarrow> Ok False
       | Some pv \<Rightarrow> bind_result (get_value flt pk) (\<lambda>fv. case fv of
           None \<Rightarrow> Ok False
         | Some fv \<Rightarrow> implies_condition D stringRanges pv fv))) pfe"

section \<open>Hints\<close>

definition hintDirectionDescending :: "bson \<Rightarrow> bool option" where
  "hintDirectionDescending v =
     (case v of
        BInt32 n \<Rightarrow> if n = 1 \<or> n = -1 then Some (sint n < 0) else None
      | BInt64 n \<Rightarrow> if n = 1 \<or> n = -1 then Some (sint n < 0) else None
      | BDouble f \<Rightarrow> if f64_eq f (f64_of_int 1) \<or> f64_eq f (f64_of_int (-1)) then Some (f64_lt f 0) else None
      | _ \<Rightarrow> None)"

definition HintIsNatural :: "bson \<Rightarrow> bool" where
  "HintIsNatural hint = (case hint of BDocument [(k, _)] \<Rightarrow> k = ''$natural'' | _ \<Rightarrow> False)"

definition HintRequiresExistingIndex :: "bson option \<Rightarrow> bool" where
  "HintRequiresExistingIndex hint =
     (case hint of
        Some (BString h) \<Rightarrow> h \<noteq> []
      | Some (BDocument h) \<Rightarrow> h \<noteq> [] \<and> \<not> HintIsNatural (BDocument h)
      | _ \<Rightarrow> False)"

definition key_matches_hint :: "fields \<Rightarrow> IndexInfo \<Rightarrow> (unit, bool) result" where
  "key_matches_hint h idx =
     (if length (idx_key idx) \<noteq> length h then Ok False
      else for_all (\<lambda>(kp, k, _). if kp_field kp \<noteq> k then Ok False
        else bind_result (get_value h k) (\<lambda>hv. Ok (case hv of
            None \<Rightarrow> True
          | Some hv \<Rightarrow> (case hintDirectionDescending hv of Some desc \<Rightarrow> desc = kp_descending kp | None \<Rightarrow> True))))
        (zip (idx_key idx) h))"

fun first_hinted :: "fields \<Rightarrow> IndexInfo list \<Rightarrow> (unit, string) result" where
  "first_hinted h [] = Ok []"
| "first_hinted h (idx # idxs) =
     bind_result (key_matches_hint h idx) (\<lambda>b. if b then Ok (idx_name idx) else first_hinted h idxs)"

definition MatchHintedIndex :: "bson option \<Rightarrow> IndexInfo list \<Rightarrow> (unit, string) result" where
  "MatchHintedIndex hint idxInfos =
     (case hint of
        Some (BString h) \<Rightarrow> Ok (if list_ex (\<lambda>idx. idx_name idx = h) idxInfos then h else [])
      | Some (BDocument h) \<Rightarrow> if h = [] then Ok [] else first_hinted h idxInfos
      | _ \<Rightarrow> Ok [])"

section \<open>The choice of an index\<close>

definition indexRank :: "bool \<Rightarrow> bool \<Rightarrow> nat" where
  "indexRank compound partial = (if compound then 2 else 0) + (if partial then 1 else 0)"

record indexedFieldEntry =
  fe_mapIdx :: nat
  fe_compound :: bool
  fe_rank :: nat

type_synonym indexed_fields = "string \<Rightarrow> indexedFieldEntry option"

definition usable_index :: "bigint_fun \<Rightarrow> fields \<Rightarrow> string \<Rightarrow> IndexInfo \<Rightarrow> (unit, bool) result" where
  "usable_index D flt hintedName idx =
     (if hintedName \<noteq> [] \<and> idx_name idx \<noteq> hintedName then Ok False
      else if idx_lossy idx \<or> idx_key idx = [] \<or> leading_field idx = [] then Ok False
      else if idx_collation idx \<noteq> [] then Ok False
      else case idx_partial idx of
        None \<Rightarrow> Ok True
      | Some pfe \<Rightarrow> filterImpliesPartial D flt pfe (idx_collation idx = []))"

fun index_entries :: "bigint_fun \<Rightarrow> fields \<Rightarrow> string \<Rightarrow> nat \<Rightarrow> IndexInfo list \<Rightarrow> indexed_fields \<Rightarrow> (unit, indexed_fields) result" where
  "index_entries D flt hintedName i [] indexedField = Ok indexedField"
| "index_entries D flt hintedName i (idx # idxs) indexedField =
     bind_result (usable_index D flt hintedName idx) (\<lambda>usable.
       if \<not> usable then index_entries D flt hintedName (Suc i) idxs indexedField
       else let leading = leading_field idx;
                isCompound = (length (idx_key idx) > 1);
                rank = indexRank isCompound (idx_partial idx \<noteq> None);
                entry = \<lparr>fe_mapIdx = i, fe_compound = isCompound, fe_rank = rank\<rparr>;
                better = (case indexedField leading of None \<Rightarrow> True | Some cur \<Rightarrow> rank < fe_rank cur) in
            index_entries D flt hintedName (Suc i) idxs (if better then indexedField(leading \<mapsto> entry) else indexedField))"

record indexRangeChoice =
  ch_mapIdx :: nat
  ch_start :: bytes
  ch_stop :: bytes
  ch_points :: "(bytes \<times> bytes) list option"

definition choice_ranges :: "indexRangeChoice \<Rightarrow> (bytes \<times> bytes) list" where
  "choice_ranges choice = (case ch_points choice of Some rs \<Rightarrow> rs | None \<Rightarrow> [(ch_start choice, ch_stop choice)])"

definition compoundLeadingBounds :: "bytes \<times> bytes \<Rightarrow> bytes \<times> bytes" where
  "compoundLeadingBounds r = (bracketSuffix (fst r), bracketSuffix (snd r))"

definition indexEqualityValue :: "bson \<Rightarrow> bson option" where
  "indexEqualityValue v =
     (case v of
        BDocument [(op, ev)] \<Rightarrow> if op \<noteq> ''$eq'' \<or> no_index_value ev then None else Some ev
      | BDocument _ \<Rightarrow> None
      | _ \<Rightarrow> if no_index_value v then None else Some v)"

definition bracketPrefix :: "bytes \<Rightarrow> bytes \<times> bytes" where
  "bracketPrefix prefix = (prefix @ [0x00], prefix @ [0xFF])"

fun compound_loop :: "bigint_fun \<Rightarrow> conversions \<Rightarrow> bool \<Rightarrow> fields \<Rightarrow> bool \<Rightarrow> bytes \<Rightarrow> IndexKeyPair list \<Rightarrow> (unit, (bytes \<times> bytes) option) result" where
  "compound_loop D C multikey flt first prefix [] = Ok None"
| "compound_loop D C multikey flt first prefix (kp # kps) =
     (let stop = (if first then None else Some (bracketPrefix prefix)); isLast = (kps = []) in
      if kp_descending kp then Ok stop
      else bind_result (get_value flt (kp_field kp)) (\<lambda>raw.
        case raw of
          None \<Rightarrow> Ok stop
        | Some v \<Rightarrow>
            if indexEqualityValue v \<noteq> None \<and> \<not> isLast then
              compound_loop D C multikey flt False (prefix @ EncodeValue C (the (indexEqualityValue v))) kps
            else bind_result (if multikey then multikeyScanBound v else Ok v) (\<lambda>v.
              bind_result (indexBoundsForFilterValue D C v) (\<lambda>b.
                Ok (case b of
                    None \<Rightarrow> stop
                  | Some (s, e) \<Rightarrow>
                      Some (if isLast then (prefix @ s, prefix @ e) else compoundLeadingBounds (prefix @ s, prefix @ e)))))))"

definition compoundIndexBounds :: "bigint_fun \<Rightarrow> conversions \<Rightarrow> IndexInfo \<Rightarrow> fields \<Rightarrow> (unit, (bytes \<times> bytes) option) result" where
  "compoundIndexBounds D C idx flt = compound_loop D C (idx_multikey idx) flt True [] (idx_key idx)"

fun insert_range :: "bytes \<times> bytes \<Rightarrow> (bytes \<times> bytes) list \<Rightarrow> (bytes \<times> bytes) list" where
  "insert_range r [] = [r]"
| "insert_range r (r' # rs) = (if bytes_compare (fst r) (fst r') = Greater then r' # insert_range r rs else r # r' # rs)"

definition sort_ranges :: "(bytes \<times> bytes) list \<Rightarrow> (bytes \<times> bytes) list" where
  "sort_ranges rs = foldr insert_range rs []"

text \<open>The ranges for the condition on the leading field of an index, if it has any.\<close>

definition field_bounds :: "bigint_fun \<Rightarrow> conversions \<Rightarrow> IndexInfo \<Rightarrow> bson \<Rightarrow> (unit, (bytes \<times> bytes) option) result" where
  "field_bounds D C idx v =
     bind_result (indexBoundsForFilterValue D C v) (\<lambda>b.
       Ok (if b = None \<and> isNullEquality v \<and> nullEqualityIndexable idx
             then Some (LowerBoundInclusive C BNull, UpperBoundInclusive C BNull)
           else if b = None \<and> isExistsTrue v \<and> existsIndexable idx then Some ([], [])
           else b))"

definition condition_choice ::
  "filter_env \<Rightarrow> conversions \<Rightarrow> IndexInfo list \<Rightarrow> fields \<Rightarrow> indexedFieldEntry \<Rightarrow> bson \<Rightarrow> (unit, indexRangeChoice option) result" where
  "condition_choice E C idxInfos flt entry v =
     (let D = decimals E; i = fe_mapIdx entry; idx = idxInfos ! i;
          points = (\<lambda>rs. Some \<lparr>ch_mapIdx = i, ch_start = [], ch_stop = [], ch_points = Some rs\<rparr>) in
      case indexPointRangesForIn C v of
        Some ranges \<Rightarrow> Ok (points (sort_ranges (if fe_compound entry then map compoundLeadingBounds ranges else ranges)))
      | None \<Rightarrow>
          bind_result (regexPrefixRanges E C v) (\<lambda>re.
            case re of
              Some ranges \<Rightarrow> Ok (points ranges)
            | None \<Rightarrow>
                bind_result (if idx_multikey idx then multikeyScanBound v else Ok v) (\<lambda>v.
                  bind_result (field_bounds D C idx v) (\<lambda>b.
                    case b of
                      None \<Rightarrow> Ok None
                    | Some r \<Rightarrow>
                        bind_result (if fe_compound entry
                            then bind_result (compoundIndexBounds D C idx flt) (\<lambda>c. Ok (case c of Some cr \<Rightarrow> cr | None \<Rightarrow> compoundLeadingBounds r))
                            else Ok r) (\<lambda>(s, e).
                          Ok (Some \<lparr>ch_mapIdx = i, ch_start = s, ch_stop = e, ch_points = None\<rparr>))))))"

fun choose_loop ::
  "filter_env \<Rightarrow> conversions \<Rightarrow> IndexInfo list \<Rightarrow> indexed_fields \<Rightarrow> fields \<Rightarrow> string list \<Rightarrow> (unit, indexRangeChoice option) result" where
  "choose_loop E C idxInfos indexedField flt [] = Ok None"
| "choose_loop E C idxInfos indexedField flt (k # ks) =
     (if HasPrefix k ''$'' then Ok None
      else case indexedField k of
        None \<Rightarrow> choose_loop E C idxInfos indexedField flt ks
      | Some entry \<Rightarrow>
          bind_result (get_value flt k) (\<lambda>r. case r of
              None \<Rightarrow> choose_loop E C idxInfos indexedField flt ks
            | Some v \<Rightarrow>
                bind_result (condition_choice E C idxInfos flt entry v) (\<lambda>c. case c of
                    Some choice \<Rightarrow> Ok (Some choice)
                  | None \<Rightarrow> choose_loop E C idxInfos indexedField flt ks)))"

definition chooseIndexRange ::
  "filter_env \<Rightarrow> conversions \<Rightarrow> IndexInfo list \<Rightarrow> fields \<Rightarrow> bson option \<Rightarrow> (unit, indexRangeChoice option) result" where
  "chooseIndexRange E C idxInfos flt hint =
     bind_result (MatchHintedIndex hint idxInfos) (\<lambda>hintedName.
       bind_result (index_entries (decimals E) flt hintedName 0 idxInfos Map.empty) (\<lambda>indexedField.
         choose_loop E C idxInfos indexedField flt (map fst flt)))"

section \<open>The scan\<close>

record indexLookupPlan =
  plan_index :: string
  plan_union :: bool
  plan_keys :: nat
  plan_ids :: "bytes list"
  plan_values :: "bytes list"

text \<open>The first entry of every id, in order.\<close>

fun dedup_ids :: "bool \<Rightarrow> bytes list \<Rightarrow> bytes list \<Rightarrow> bytes list \<Rightarrow> bytes list \<times> bytes list" where
  "dedup_ids keep seen (i # ids) vals =
     (let (is', vs') = dedup_ids keep (if i \<in> set seen then seen else i # seen) ids (tl vals) in
      if i \<in> set seen then (is', vs') else (i # is', if keep then hd vals # vs' else vs'))"
| "dedup_ids keep seen [] vals = ([], [])"

fun scan_ranges :: "('m, 'k) prolly \<Rightarrow> 'm \<Rightarrow> bool \<Rightarrow> int \<Rightarrow> (bytes \<times> bytes) list \<Rightarrow> bytes list \<times> bytes list \<Rightarrow>
    (unit, (bytes list \<times> bytes list) option) result" where
  "scan_ranges P m keepValues maxEntries [] acc = Ok (Some acc)"
| "scan_ranges P m keepValues maxEntries ((s, e) # rs) (idsAcc, valsAcc) =
     (let remaining = (if maxEntries \<ge> 0 then maxEntries - int (length idsAcc) else -1) in
      bind_result (if keepValues then RangeEntriesCapped P m s e remaining
          else bind_result (RangeLookupCapped P m s e remaining) (\<lambda>(ids, exceeded). Ok (ids, [], exceeded)))
        (\<lambda>(ids, vals, exceeded).
          if exceeded then Ok None
          else scan_ranges P m keepValues maxEntries rs (idsAcc @ ids, valsAcc @ vals)))"

definition scanIndexChoice ::
  "('m, 'k) prolly \<Rightarrow> IndexInfo list \<Rightarrow> 'm list \<Rightarrow> indexRangeChoice \<Rightarrow> bool \<Rightarrow> int \<Rightarrow> (unit, indexLookupPlan option) result" where
  "scanIndexChoice P idxInfos idxMaps choice keepValues maxEntries =
     (if ch_mapIdx choice \<ge> length idxMaps then Panic
      else bind_result (scan_ranges P (idxMaps ! ch_mapIdx choice) keepValues maxEntries (choice_ranges choice) ([], [])) (\<lambda>r.
        Ok (case r of
          None \<Rightarrow> None
        | Some (ids, vals) \<Rightarrow>
            let (distinctIds, distinctVals) = dedup_ids keepValues [] ids vals in
            Some \<lparr>plan_index = idx_name (idxInfos ! ch_mapIdx choice), plan_union = False, plan_keys = length ids,
              plan_ids = distinctIds, plan_values = distinctVals\<rparr>)))"

definition narrowRangeEntries :: nat where "narrowRangeEntries = 128"

text \<open>\<open>reads n\<close> is the plan of at most \<open>n\<close> entries, \<open>None\<close> when there are more.\<close>

definition indexRangesWithinHalf ::
  "(unit, nat) result \<Rightarrow> (int \<Rightarrow> (unit, 'p option) result) \<Rightarrow> (unit, nat) result \<Rightarrow> (unit, bool \<times> 'p option) result" where
  "indexRangesWithinHalf primary_count reads countEntries =
     bind_result primary_count (\<lambda>docs.
       let half = docs div 2; probe = min narrowRangeEntries half in
       bind_result (reads (int probe)) (\<lambda>plan.
         if plan \<noteq> None then Ok (True, plan)
         else if probe = half then Ok (False, None)
         else bind_result countEntries (\<lambda>n. Ok (n \<le> half, None))))"

text \<open>\<open>cardinality\<close> is \<open>GetKeyRangeCardinality\<close> of the ordered map.\<close>

type_synonym ('m, 'k) cardinality = "'m \<Rightarrow> 'k option \<Rightarrow> 'k option \<Rightarrow> (unit, nat) result"

definition RangeCardinality :: "('m, 'k) prolly \<Rightarrow> ('m, 'k) cardinality \<Rightarrow> 'm \<Rightarrow> bytes \<Rightarrow> bytes \<Rightarrow> (unit, nat) result" where
  "RangeCardinality P cardinality m startKey stopKey =
     bind_result (boundTuple P startKey) (\<lambda>startTup. bind_result (boundTuple P stopKey) (\<lambda>stopTup. cardinality m startTup stopTup))"

definition indexRangeEntries ::
  "('m, 'k) prolly \<Rightarrow> ('m, 'k) cardinality \<Rightarrow> 'm list \<Rightarrow> indexRangeChoice list \<Rightarrow> (unit, nat) result" where
  "indexRangeEntries P cardinality idxMaps choices =
     fold_result (\<lambda>total choice. fold_result (\<lambda>total (s, e).
         if ch_mapIdx choice \<ge> length idxMaps then Panic
         else bind_result (RangeCardinality P cardinality (idxMaps ! ch_mapIdx choice) s e) (\<lambda>n. Ok (total + n)))
       total (choice_ranges choice)) 0 choices"

definition isLoneOr :: "fields \<Rightarrow> bool" where
  "isLoneOr flt = (case flt of [(k, _)] \<Rightarrow> k = ''$or'' | _ \<Rightarrow> False)"

function flattenOrBranches :: "bson \<Rightarrow> fields list option"
  and flatten_list :: "bson list \<Rightarrow> fields list option" where
  "flattenOrBranches v = (case v of BArray arr \<Rightarrow> if arr = [] then None else flatten_list arr | _ \<Rightarrow> None)"
| "flatten_list [] = Some []"
| "flatten_list (b # bs) =
     (case b of
        BDocument branch \<Rightarrow>
          (case (if isLoneOr branch then flattenOrBranches (snd (hd branch)) else Some [branch]) of
             None \<Rightarrow> None
           | Some flat \<Rightarrow> map_option (\<lambda>rest. flat @ rest) (flatten_list bs))
      | _ \<Rightarrow> None)"
  by pat_completeness auto
termination
  by (relation "measure (\<lambda>x. case x of Inl v \<Rightarrow> 2 * size v | Inr vs \<Rightarrow> 2 * size_list size vs + 1)")
    (auto simp: isLoneOr_def split: list.splits)

fun union_loop ::
  "('m, 'k) prolly \<Rightarrow> IndexInfo list \<Rightarrow> 'm list \<Rightarrow> int \<Rightarrow> indexRangeChoice list \<Rightarrow> nat \<times> bytes list \<Rightarrow> (unit, indexLookupPlan option) result" where
  "union_loop P idxInfos idxMaps maxEntries [] (keys, ids) =
     Ok (Some \<lparr>plan_index = [], plan_union = True, plan_keys = keys, plan_ids = ids, plan_values = []\<rparr>)"
| "union_loop P idxInfos idxMaps maxEntries (choice # choices) (keys, ids) =
     (let remaining = (if maxEntries \<ge> 0 then maxEntries - int keys else -1) in
      bind_result (scanIndexChoice P idxInfos idxMaps choice False remaining) (\<lambda>r. case r of
          None \<Rightarrow> Ok None
        | Some plan \<Rightarrow> union_loop P idxInfos idxMaps maxEntries choices
            (keys + plan_keys plan, ids @ filter (\<lambda>i. i \<notin> set ids) (plan_ids plan))))"

definition unionIndexChoices ::
  "('m, 'k) prolly \<Rightarrow> IndexInfo list \<Rightarrow> 'm list \<Rightarrow> indexRangeChoice list \<Rightarrow> int \<Rightarrow> (unit, indexLookupPlan option) result" where
  "unionIndexChoices P idxInfos idxMaps choices maxEntries = union_loop P idxInfos idxMaps maxEntries choices (0, [])"

fun branch_choices ::
  "filter_env \<Rightarrow> conversions \<Rightarrow> IndexInfo list \<Rightarrow> fields list \<Rightarrow> (unit, indexRangeChoice list option) result" where
  "branch_choices E C idxInfos [] = Ok (Some [])"
| "branch_choices E C idxInfos (branch # flat) =
     bind_result (chooseIndexRange E C idxInfos branch None) (\<lambda>c. case c of
         None \<Rightarrow> Ok None
       | Some choice \<Rightarrow> bind_result (branch_choices E C idxInfos flat) (\<lambda>r. Ok (map_option (\<lambda>cs. choice # cs) r)))"

definition planOrUnion ::
  "filter_env \<Rightarrow> conversions \<Rightarrow> ('m, 'k) prolly \<Rightarrow> ('m, 'k) cardinality \<Rightarrow> (unit, nat) result \<Rightarrow> IndexInfo list \<Rightarrow> 'm list \<Rightarrow> bson \<Rightarrow>
   (unit, indexLookupPlan option) result" where
  "planOrUnion E C P cardinality primary_count idxInfos idxMaps branches =
     (case flattenOrBranches branches of
        None \<Rightarrow> Ok None
      | Some flat \<Rightarrow>
          bind_result (branch_choices E C idxInfos flat) (\<lambda>r. case r of
              None \<Rightarrow> Ok None
            | Some choices \<Rightarrow>
                bind_result (indexRangesWithinHalf primary_count (unionIndexChoices P idxInfos idxMaps choices)
                    (indexRangeEntries P cardinality idxMaps choices)) (\<lambda>(inHalf, union).
                  if \<not> inHalf \<or> union \<noteq> None then Ok union
                  else unionIndexChoices P idxInfos idxMaps choices (-1))))"

definition readIndexLookup ::
  "filter_env \<Rightarrow> conversions \<Rightarrow> ('m, 'k) prolly \<Rightarrow> ('m, 'k) cardinality \<Rightarrow> (unit, nat) result \<Rightarrow> IndexInfo list \<Rightarrow> 'm list \<Rightarrow>
   fields \<Rightarrow> bson option \<Rightarrow> bool \<Rightarrow> (unit, indexLookupPlan option) result" where
  "readIndexLookup E C P cardinality primary_count idxInfos idxMaps flt hint keepValues =
     (if flt = [] \<or> idxInfos = [] then Ok None
      else if isLoneOr flt then
        (if hint \<noteq> None then Ok None
         else planOrUnion E C P cardinality primary_count idxInfos idxMaps (snd (hd flt)))
      else bind_result (chooseIndexRange E C idxInfos flt hint) (\<lambda>c. case c of
          None \<Rightarrow> Ok None
        | Some choice \<Rightarrow>
            if hint \<noteq> None then scanIndexChoice P idxInfos idxMaps choice keepValues (-1)
            else bind_result (indexRangesWithinHalf primary_count (scanIndexChoice P idxInfos idxMaps choice keepValues)
                (indexRangeEntries P cardinality idxMaps [choice])) (\<lambda>(inHalf, plan).
              if \<not> inHalf \<or> plan \<noteq> None then Ok plan
              else scanIndexChoice P idxInfos idxMaps choice keepValues (-1))))"

section \<open>The index explain reports\<close>

fun best_index :: "bigint_fun \<Rightarrow> fields \<Rightarrow> string \<Rightarrow> bool \<Rightarrow> bool \<Rightarrow> IndexInfo list \<Rightarrow> (nat \<times> IndexInfo) option \<Rightarrow>
    (unit, (nat \<times> IndexInfo) option) result" where
  "best_index D flt k nullEq exists [] best = Ok best"
| "best_index D flt k nullEq exists (idx # idxs) best =
     (if idx_lossy idx \<or> idx_key idx = [] \<or> leading_field idx \<noteq> k \<or>
         nullEq \<and> \<not> nullEqualityIndexable idx \<or> exists \<and> \<not> existsIndexable idx \<or> idx_collation idx \<noteq> []
      then best_index D flt k nullEq exists idxs best
      else bind_result (case idx_partial idx of None \<Rightarrow> Ok True | Some pfe \<Rightarrow> filterImpliesPartial D flt pfe True) (\<lambda>implied.
        let rank = indexRank (length (idx_key idx) > 1) (idx_partial idx \<noteq> None);
            better = implied \<and> (case best of None \<Rightarrow> True | Some (r, _) \<Rightarrow> rank < r) in
        best_index D flt k nullEq exists idxs (if better then Some (rank, idx) else best)))"

fun pick_loop :: "filter_env \<Rightarrow> conversions \<Rightarrow> fields \<Rightarrow> IndexInfo list \<Rightarrow> string list \<Rightarrow> (unit, IndexInfo option) result" where
  "pick_loop E C flt idxInfos [] = Ok None"
| "pick_loop E C flt idxInfos (k # ks) =
     (if HasPrefix k ''$'' then Ok None
      else bind_result (get_value flt k) (\<lambda>r. case r of
          None \<Rightarrow> pick_loop E C flt idxInfos ks
        | Some v \<Rightarrow>
            bind_result (indexBoundsForFilterValue (decimals E) C v) (\<lambda>b.
            bind_result (if b = None then regexPrefixRanges E C v else Ok None) (\<lambda>re.
              let nullEq = (b = None \<and> isNullEquality v); exists = (b = None \<and> isExistsTrue v) in
              if b = None \<and> indexPointRangesForIn C v = None \<and> re = None \<and> \<not> nullEq \<and> \<not> exists
              then pick_loop E C flt idxInfos ks
              else bind_result (best_index (decimals E) flt k nullEq exists idxInfos None) (\<lambda>best. case best of
                  Some (_, idx) \<Rightarrow> Ok (Some idx)
                | None \<Rightarrow> pick_loop E C flt idxInfos ks)))))"

definition pickIndexForFilter :: "filter_env \<Rightarrow> conversions \<Rightarrow> fields \<Rightarrow> IndexInfo list \<Rightarrow> (unit, IndexInfo option) result" where
  "pickIndexForFilter E C flt idxInfos = pick_loop E C flt idxInfos (map fst flt)"

end
