(* ===== verification/PartialImplication.thy ===== *)
theory PartialImplication
  imports IndexPlan
begin

text \<open>
  When the planner finds that a filter implies the filter of a partial index, every document
  that matches the one matches the other, so the index holds every match.
\<close>

section \<open>Bounds as predicates on values\<close>

definition lo_sat :: "bigint_fun \<Rightarrow> bson \<Rightarrow> bson \<times> bool \<Rightarrow> bool" where
  "lo_sat D x b \<longleftrightarrow> same_type D x (fst b) \<and> order_cmp D x (fst b) \<in> (if snd b then {Greater, Equal} else {Greater})"

definition hi_sat :: "bigint_fun \<Rightarrow> bson \<Rightarrow> bson \<times> bool \<Rightarrow> bool" where
  "hi_sat D x b \<longleftrightarrow> same_type D x (fst b) \<and> order_cmp D x (fst b) \<in> (if snd b then {Less, Equal} else {Less})"

lemma compare_operands_order:
  assumes "same_type D v w"
  shows "compare_operands D v w = (case order_cmp D v w of Less \<Rightarrow> -1 | Greater \<Rightarrow> 1 | Equal \<Rightarrow> 0)"
  using order_cmp_same_type [OF assms] by (simp add: compare_operands_def)

lemma order_trans_rules:
  assumes "bigint_total D"
  shows "order_cmp D x v = Equal \<Longrightarrow> order_cmp D x w = order_cmp D v w"
    "order_cmp D v w = Equal \<Longrightarrow> order_cmp D x v = order_cmp D x w"
    "order_cmp D x v = Greater \<Longrightarrow> order_cmp D v w = Greater \<Longrightarrow> order_cmp D x w = Greater"
    "order_cmp D x v = Less \<Longrightarrow> order_cmp D v w = Less \<Longrightarrow> order_cmp D x w = Less"
    "order_cmp D w v = compareInvert (order_cmp D v w)"
proof -
  note w = three_way_CompareOrder [OF assms]
  note inv = three_way.cmp_invert [OF w UNIV_I UNIV_I]
  show "order_cmp D x v = Equal \<Longrightarrow> order_cmp D x w = order_cmp D v w"
    by (rule three_way.equal_left [OF w UNIV_I UNIV_I UNIV_I])
  show "order_cmp D v w = Equal \<Longrightarrow> order_cmp D x v = order_cmp D x w"
    by (rule three_way.equal_right [OF w UNIV_I UNIV_I UNIV_I])
  show "order_cmp D x v = Less \<Longrightarrow> order_cmp D v w = Less \<Longrightarrow> order_cmp D x w = Less"
    by (rule three_way.less_trans [OF w UNIV_I UNIV_I UNIV_I])
  show "order_cmp D x v = Greater \<Longrightarrow> order_cmp D v w = Greater \<Longrightarrow> order_cmp D x w = Greater"
    using three_way.less_trans [OF w UNIV_I UNIV_I UNIV_I, of w v x] inv [of w v] inv [of v x] inv [of w x]
    by (cases "order_cmp D w v"; cases "order_cmp D v x"; simp)
  show "order_cmp D w v = compareInvert (order_cmp D v w)" by (rule inv)
qed

text \<open>The comparisons with which the planner orders bounds of one type.\<close>

lemma bound_trans:
  assumes "bigint_total D" "same_type D v w"
  shows "\<not> (compare_operands D v w < 0 \<or> compare_operands D v w = 0 \<and> i \<and> \<not> j) \<Longrightarrow> lo_sat D x (v, i) \<Longrightarrow> lo_sat D x (w, j)"
    "\<not> (compare_operands D v w > 0 \<or> compare_operands D v w = 0 \<and> i \<and> \<not> j) \<Longrightarrow> hi_sat D x (v, i) \<Longrightarrow> hi_sat D x (w, j)"
proof -
  note rules = order_trans_rules(1-4) [OF assms(1), where x = x and v = v and w = w]
  note c = compare_operands_order [OF assms(2)]
  have t: "same_type D x v \<Longrightarrow> same_type D x w" using assms(2) by (simp add: same_type_def)
  show "lo_sat D x (w, j)" if n: "\<not> (compare_operands D v w < 0 \<or> compare_operands D v w = 0 \<and> i \<and> \<not> j)" and s: "lo_sat D x (v, i)"
  proof (cases "order_cmp D v w")
    case Equal
    then show ?thesis using n s t rules(2) by (simp add: lo_sat_def c split: if_splits)
  next
    case Greater
    then have "order_cmp D x w = Greater" using s rules(1,3) by (auto simp: lo_sat_def split: if_splits)
    then show ?thesis using s t by (simp add: lo_sat_def)
  qed (use n in \<open>simp add: c\<close>)
  show "hi_sat D x (w, j)" if n: "\<not> (compare_operands D v w > 0 \<or> compare_operands D v w = 0 \<and> i \<and> \<not> j)" and s: "hi_sat D x (v, i)"
  proof (cases "order_cmp D v w")
    case Equal
    then show ?thesis using n s t rules(2) by (simp add: hi_sat_def c split: if_splits)
  next
    case Less
    then have "order_cmp D x w = Less" using s rules(1,4) by (auto simp: hi_sat_def split: if_splits)
    then show ?thesis using s t by (simp add: hi_sat_def)
  qed (use n in \<open>simp add: c\<close>)
qed

lemma compare_operands_swap:
  assumes "bigint_total D" "same_type D v w"
  shows "compare_operands D w v = - compare_operands D v w"
proof -
  have "same_type D w v" using assms(2) by (simp add: same_type_def)
  then show ?thesis
    using order_trans_rules(5) [OF assms(1), where w = w and v = v] assms(2) by (cases "order_cmp D v w") (simp_all add: compare_operands_order)
qed

lemma range_type:
  assumes "rangeComparable v" "rangeComparable w" "sameRangeBracket v w"
  shows "same_type D v w"
  using assms by (cases v; cases w) (auto simp: same_type_def sameRangeBracket_def dataType_defs)

section \<open>The bounds of a condition\<close>

definition lower_ops :: "string \<Rightarrow> bool option" where
  "lower_ops = map_of [(''$eq'', True), (''$gte'', True), (''$gt'', False)]"

definition upper_ops :: "string \<Rightarrow> bool option" where
  "upper_ops = map_of [(''$eq'', True), (''$lte'', True), (''$lt'', False)]"

lemma ops_at [simp]:
  "lower_ops ''$eq'' = Some True" "lower_ops ''$gte'' = Some True" "lower_ops ''$gt'' = Some False"
  "lower_ops ''$lt'' = None" "lower_ops ''$lte'' = None"
  "upper_ops ''$eq'' = Some True" "upper_ops ''$lte'' = Some True" "upper_ops ''$lt'' = Some False"
  "upper_ops ''$gt'' = None" "upper_ops ''$gte'' = None"
  by (simp_all add: lower_ops_def upper_ops_def)

text \<open>
  A bound read off a list of operators: it is one of theirs, and no other of them on the same
  side is tighter.
\<close>

definition tightest ::
  "(bigint_fun \<Rightarrow> bson \<Rightarrow> bson \<times> bool \<Rightarrow> bool) \<Rightarrow> (string \<Rightarrow> bool option) \<Rightarrow> bigint_fun \<Rightarrow> bson \<Rightarrow> fields \<Rightarrow> bound \<Rightarrow> bool" where
  "tightest sat ops D first ps b \<longleftrightarrow>
     (case b of
        None \<Rightarrow> \<forall>(op, v)\<in>set ps. ops op = None
      | Some (w, i) \<Rightarrow> rangeComparable w \<and> sameRangeBracket w first \<and> (\<exists>op. (op, w) \<in> set ps \<and> ops op = Some i) \<and>
          (\<forall>(op, v)\<in>set ps. \<forall>j. ops op = Some j \<longrightarrow> (\<forall>x. sat D x (w, i) \<longrightarrow> sat D x (v, j))))"

lemma tightest_Some:
  assumes "tightest sat ops D first ps (Some b)"
  shows "rangeComparable (fst b)" "sameRangeBracket (fst b) first" "\<exists>op. (op, fst b) \<in> set ps \<and> ops op = Some (snd b)"
    and "(op, v) \<in> set ps \<Longrightarrow> ops op = Some j \<Longrightarrow> sat D x b \<Longrightarrow> sat D x (v, j)"
  using assms by (cases b; auto simp: tightest_def)+

lemma tightest_None: "tightest sat ops D first ps None \<Longrightarrow> (op, v) \<in> set ps \<Longrightarrow> ops op = None"
  by (auto simp: tightest_def)

lemma tightest_skip: "tightest sat ops D first ps b \<Longrightarrow> ops op = None \<Longrightarrow> tightest sat ops D first (ps @ [(op, v)]) b"
  by (auto simp: tightest_def split: option.splits)

lemma tightest_keep:
  "tightest sat ops D first ps (Some (w, i)) \<Longrightarrow> ops op = Some j \<Longrightarrow> \<forall>x. sat D x (w, i) \<longrightarrow> sat D x (v, j) \<Longrightarrow>
    tightest sat ops D first (ps @ [(op, v)]) (Some (w, i))"
  by (auto simp: tightest_def)

lemma tightest_take:
  assumes "tightest sat ops D first ps b" "ops op = Some j" "rangeComparable v" "sameRangeBracket v first"
    and "\<forall>w i x. b = Some (w, i) \<longrightarrow> sat D x (v, j) \<longrightarrow> sat D x (w, i)"
  shows "tightest sat ops D first (ps @ [(op, v)]) (Some (v, j))"
proof -
  have "sat D x (v', j')" if p: "(op', v') \<in> set ps" "ops op' = Some j'" and x: "sat D x (v, j)" for op' v' j' x
  proof (cases b)
    case None
    then show ?thesis using assms(1) p by (auto simp: tightest_def)
  next
    case (Some wi)
    obtain w i where wi: "wi = (w, i)" by (cases wi)
    have "sat D x (w, i)" using assms(5) Some wi x by simp
    moreover have "\<forall>x. sat D x (w, i) \<longrightarrow> sat D x (v', j')" using assms(1) Some wi p by (auto simp: tightest_def)
    ultimately show ?thesis by blast
  qed
  then show ?thesis using assms(2-4) by (auto simp: tightest_def)
qed

lemma setLo_tightest:
  assumes "bigint_total D" "tightest lo_sat ops D first ps (sr_lo r)" "ops op = Some j" "rangeComparable v" "sameRangeBracket v first"
  shows "tightest lo_sat ops D first (ps @ [(op, v)]) (sr_lo (setLo D v j r))"
proof (cases "sr_lo r")
  case None
  then have "sr_lo (setLo D v j r) = Some (v, j)" by (simp add: setLo_def)
  moreover have "tightest lo_sat ops D first (ps @ [(op, v)]) (Some (v, j))"
    by (rule tightest_take [OF assms(2-5)]) (simp add: None)
  ultimately show ?thesis by simp
next
  case (Some b)
  obtain w i where b: "b = (w, i)" by (cases b)
  have "rangeComparable w" "sameRangeBracket w first" using assms(2) Some b by (simp_all add: tightest_def)
  then have t: "same_type D v w" "same_type D w v" using assms(4,5) by (auto intro: range_type simp: sameRangeBracket_def)
  note swap = compare_operands_swap [OF assms(1) t(1)]
  show ?thesis
  proof (cases "compare_operands D v w < 0 \<or> compare_operands D v w = 0 \<and> j")
    case True
    have "lo_sat D x (v, j)" if "lo_sat D x (w, i)" for x
      by (rule bound_trans(1) [OF assms(1) t(2) _ that]) (use True swap in auto)
    moreover have "sr_lo (setLo D v j r) = Some (w, i)" using True Some b by (simp add: setLo_def Let_def)
    moreover have "tightest lo_sat ops D first ps (Some (w, i))" using assms(2) Some b by simp
    ultimately show ?thesis using tightest_keep assms(3) by metis
  next
    case False
    have "lo_sat D x (w, i)" if "lo_sat D x (v, j)" for x
      by (rule bound_trans(1) [OF assms(1) t(1) _ that]) (use False in auto)
    then have "tightest lo_sat ops D first (ps @ [(op, v)]) (Some (v, j))"
      by (intro tightest_take [OF assms(2-5)]) (simp add: Some b)
    moreover have "sr_lo (setLo D v j r) = Some (v, j)" using False Some b by (auto simp: setLo_def Let_def)
    ultimately show ?thesis by simp
  qed
qed

lemma setHi_tightest:
  assumes "bigint_total D" "tightest hi_sat ops D first ps (sr_hi r)" "ops op = Some j" "rangeComparable v" "sameRangeBracket v first"
  shows "tightest hi_sat ops D first (ps @ [(op, v)]) (sr_hi (setHi D v j r))"
proof (cases "sr_hi r")
  case None
  then have "sr_hi (setHi D v j r) = Some (v, j)" by (simp add: setHi_def)
  moreover have "tightest hi_sat ops D first (ps @ [(op, v)]) (Some (v, j))"
    by (rule tightest_take [OF assms(2-5)]) (simp add: None)
  ultimately show ?thesis by simp
next
  case (Some b)
  obtain w i where b: "b = (w, i)" by (cases b)
  have "rangeComparable w" "sameRangeBracket w first" using assms(2) Some b by (simp_all add: tightest_def)
  then have t: "same_type D v w" "same_type D w v" using assms(4,5) by (auto intro: range_type simp: sameRangeBracket_def)
  note swap = compare_operands_swap [OF assms(1) t(1)]
  show ?thesis
  proof (cases "compare_operands D v w > 0 \<or> compare_operands D v w = 0 \<and> j")
    case True
    have "hi_sat D x (v, j)" if "hi_sat D x (w, i)" for x
      by (rule bound_trans(2) [OF assms(1) t(2) _ that]) (use True swap in auto)
    moreover have "sr_hi (setHi D v j r) = Some (w, i)" using True Some b by (simp add: setHi_def Let_def)
    moreover have "tightest hi_sat ops D first ps (Some (w, i))" using assms(2) Some b by simp
    ultimately show ?thesis using tightest_keep assms(3) by metis
  next
    case False
    have "hi_sat D x (w, i)" if "hi_sat D x (v, j)" for x
      by (rule bound_trans(2) [OF assms(1) t(1) _ that]) (use False in auto)
    then have "tightest hi_sat ops D first (ps @ [(op, v)]) (Some (v, j))"
      by (intro tightest_take [OF assms(2-5)]) (simp add: Some b)
    moreover have "sr_hi (setHi D v j r) = Some (v, j)" using False Some b by (auto simp: setHi_def Let_def)
    ultimately show ?thesis by simp
  qed
qed

lemma set_other [simp]: "sr_hi (setLo D v i r) = sr_hi r" "sr_lo (setHi D v i r) = sr_lo r"
  by (simp_all add: setLo_def setHi_def Let_def split: option.splits prod.splits)

lemma range_loop_tightest:
  assumes "bigint_total D" "range_loop D doc first (map fst fs) r = Ok (Some r')"
    and "\<forall>(op, v)\<in>set fs. must_get doc op = (Ok v :: (unit, bson) result)"
    and "tightest lo_sat lower_ops D first ps (sr_lo r)" "tightest hi_sat upper_ops D first ps (sr_hi r)"
  shows "tightest lo_sat lower_ops D first (ps @ fs) (sr_lo r') \<and> tightest hi_sat upper_ops D first (ps @ fs) (sr_hi r') \<and>
    (\<forall>(op, v)\<in>set fs. rangeComparable v \<and> sameRangeBracket v first \<and> op \<in> fst ` set comparison_operators)"
  using assms(2-)
proof (induction fs arbitrary: ps r)
  case (Cons f fs)
  obtain op v where f: "f = (op, v)" by (cases f)
  have g: "must_get doc op = (Ok v :: (unit, bson) result)" using Cons.prems(2) f by simp
  have v: "rangeComparable v" "sameRangeBracket v first" using Cons.prems(1) f g by (auto split: if_splits)
  note lo = setLo_tightest [OF assms(1) Cons.prems(3) _ v, of op] and hi = setHi_tightest [OF assms(1) _ _ v, of upper_ops ps _ op]
  note skip = tightest_skip [OF Cons.prems(3), of op v] tightest_skip [OF Cons.prems(4), of op v]
  note ops = comparison_operators_def
  consider "op = ''$eq''" | "op = ''$gt''" | "op = ''$gte''" | "op = ''$lt''" | "op = ''$lte''"
    using Cons.prems(1) f g v by (auto split: if_splits)
  then show ?case
  proof cases
    case 1
    then show ?thesis
      using Cons.IH [of "setHi D v True (setLo D v True r)" "ps @ [f]"] Cons.prems f g v lo [of True] hi [of "setLo D v True r" True]
      by (simp add: ops)
  next
    case 2
    then show ?thesis using Cons.IH [of "setLo D v False r" "ps @ [f]"] Cons.prems f g v lo [of False] skip by (simp add: ops)
  next
    case 3
    then show ?thesis using Cons.IH [of "setLo D v True r" "ps @ [f]"] Cons.prems f g v lo [of True] skip by (simp add: ops)
  next
    case 4
    then show ?thesis using Cons.IH [of "setHi D v False r" "ps @ [f]"] Cons.prems f g v hi [of r False] skip by (simp add: ops)
  next
    case 5
    then show ?thesis using Cons.IH [of "setHi D v True r" "ps @ [f]"] Cons.prems f g v hi [of r True] skip by (simp add: ops)
  qed
qed simp

section \<open>Matches and bounds\<close>

lemma op_matches_lower:
  assumes "lower_ops op = Some j"
  shows "op_matches D xs (op, v) \<Longrightarrow> \<exists>x\<in>set xs. lo_sat D x (v, j)"
    and "op \<noteq> ''$eq'' \<Longrightarrow> \<exists>x\<in>set xs. lo_sat D x (v, j) \<Longrightarrow> op_matches D xs (op, v)"
  using assms by (auto simp: op_matches_def comparison_operators_def lower_ops_def lo_sat_def split: if_splits)

lemma op_matches_upper:
  assumes "upper_ops op = Some j"
  shows "op_matches D xs (op, v) \<Longrightarrow> \<exists>x\<in>set xs. hi_sat D x (v, j)"
    and "op \<noteq> ''$eq'' \<Longrightarrow> \<exists>x\<in>set xs. hi_sat D x (v, j) \<Longrightarrow> op_matches D xs (op, v)"
  using assms by (auto simp: op_matches_def comparison_operators_def upper_ops_def hi_sat_def split: if_splits)

lemma ops_comparison: "lower_ops op = Some j \<Longrightarrow> op \<in> fst ` set comparison_operators"
  "upper_ops op = Some j \<Longrightarrow> op \<in> fst ` set comparison_operators"
  by (auto simp: lower_ops_def upper_ops_def comparison_operators_def split: if_splits)

lemma rangeComparable_plain: "rangeComparable v \<Longrightarrow> plain_operand v"
  by (cases v) auto

text \<open>A match of a condition, on the values its path reaches.\<close>

definition reaches :: "filter_env \<Rightarrow> fields \<Rightarrow> string \<Rightarrow> bson list \<Rightarrow> bool \<Rightarrow> bool" where
  "reaches E doc k vals missing \<longleftrightarrow> bigint_total (decimals E) \<and> no_dup (BDocument doc) \<and> \<not> HasPrefix k ''$'' \<and>
     (\<exists>suffix. filter_values doc k = Ok (suffix, vals, missing))"

abbreviation matches :: "filter_env \<Rightarrow> fields \<Rightarrow> string \<Rightarrow> bson \<Rightarrow> bool" where
  "matches E doc k v \<equiv> filterDocumentPair E doc k v None = Ok True"

lemma reachesD:
  assumes "reaches E doc k vals missing"
  obtains suffix where "bigint_total (decimals E)" "no_dup (BDocument doc)" "\<not> HasPrefix k ''$''" "filter_values doc k = Ok (suffix, vals, missing)"
  using assms by (auto simp: reaches_def)

lemma operator_match:
  assumes "reaches E doc k vals missing"
    and "matches E doc k (BDocument expr)" "plain_condition (BDocument expr)" "(op, v) \<in> set expr" "op \<in> fst ` set comparison_operators"
  shows "op_matches (decimals E) (key_candidates doc k) (op, v)"
proof -
  obtain suffix where r: "bigint_total (decimals E)" "no_dup (BDocument doc)" "\<not> HasPrefix k ''$''" "filter_values doc k = Ok (suffix, vals, missing)"
    by (rule reachesD [OF assms(1)])
  have "plain_operand v" using assms(3-5) by (auto simp: plain_op_def list_all_iff)
  then show ?thesis
    using pair_operator_True [OF assms(2,3) r(3) assms(4)] comparison_pair [OF r(4,2,3) assms(5) r(1)] by simp
qed

lemma scalar_match:
  assumes "reaches E doc k vals missing" "partialFilterScalar v = Some s" "plain_condition v"
  shows "matches E doc k v \<longleftrightarrow> op_matches (decimals E) (key_candidates doc k) (''$eq'', s)" "plain_operand s" "s \<noteq> BNull"
proof -
  obtain suffix where r: "bigint_total (decimals E)" "no_dup (BDocument doc)" "\<not> HasPrefix k ''$''" "filter_values doc k = Ok (suffix, vals, missing)"
    by (rule reachesD [OF assms(1)])
  have "v = s \<and> (\<forall>fs. v \<noteq> BDocument fs) \<or> v = BDocument [(''$eq'', s)]"
    using assms(2) by (auto simp: partialFilterScalar_def split: bson.splits list.splits if_splits prod.splits)
  moreover have eq: "''$eq'' \<in> fst ` set comparison_operators" by (simp add: comparison_operators_def)
  moreover have p: "plain_operand s \<and> s \<noteq> BNull"
    using assms(2,3) calculation by (cases s) (auto simp: partialFilterScalar_def plain_op_def comparison_operators_def)
  ultimately show "matches E doc k v \<longleftrightarrow> op_matches (decimals E) (key_candidates doc k) (''$eq'', s)"
    using bare_condition [OF r(4,3,1), of s] comparison_pair [OF r(4,2,3) eq r(1), of s] by auto
  show "plain_operand s" "s \<noteq> BNull" using p by simp_all
qed

text \<open>The bounds read off a condition hold of some candidate of a match.\<close>

lemma range_met:
  assumes "reaches E doc k vals missing" "parseScalarRange (decimals E) v = Ok (Some r)" "plain_condition v" "matches E doc k v"
  shows "sr_lo r = Some b \<Longrightarrow> rangeComparable (fst b) \<and> (\<exists>x\<in>set (key_candidates doc k). lo_sat (decimals E) x b)"
    and "sr_hi r = Some b \<Longrightarrow> rangeComparable (fst b) \<and> (\<exists>x\<in>set (key_candidates doc k). hi_sat (decimals E) x b)"
proof -
  let ?D = "decimals E" and ?xs = "key_candidates doc k"
  obtain suffix where rc: "bigint_total (decimals E)" "no_dup (BDocument doc)" "\<not> HasPrefix k ''$''" "filter_values doc k = Ok (suffix, vals, missing)"
    by (rule reachesD [OF assms(1)])
  have "(sr_lo r = Some b \<longrightarrow> rangeComparable (fst b) \<and> (\<exists>x\<in>set ?xs. lo_sat ?D x b)) \<and>
    (sr_hi r = Some b \<longrightarrow> rangeComparable (fst b) \<and> (\<exists>x\<in>set ?xs. hi_sat ?D x b))"
  proof (cases "rangeComparable v")
    case True
    then have "op_matches ?D ?xs (''$eq'', v)" "r = \<lparr>sr_lo = Some (v, True), sr_hi = Some (v, True)\<rparr>"
      using bare_condition [OF rc(4,3,1) rangeComparable_plain] assms(2-4) by (auto simp: parseScalarRange_def setLo_def setHi_def Let_def)
    then show ?thesis using True op_matches_lower(1) [of "''$eq''" True ?D ?xs v] op_matches_upper(1) [of "''$eq''" True ?D ?xs v] by auto
  next
    case False
    then obtain expr first where e: "v = BDocument expr" "must_get expr (fst (hd expr)) = (Ok first :: (unit, bson) result)"
      "range_loop ?D expr first (map fst expr) \<lparr>sr_lo = None, sr_hi = None\<rparr> = Ok (Some r)"
      using assms(2) by (auto simp: parseScalarRange_def Let_def split: bson.splits if_splits)
    have d: "distinct (map fst expr)" using assms(3) e(1) by (simp add: operator_expr_def)
    have "tightest lo_sat lower_ops ?D first expr (sr_lo r) \<and> tightest hi_sat upper_ops ?D first expr (sr_hi r)"
      using range_loop_tightest [OF rc(1) e(3), of "[]"] must_get_distinct [OF d] by (auto simp: tightest_def)
    then have "sr_lo r = Some b \<longrightarrow> rangeComparable (fst b) \<and> (\<exists>op. (op, fst b) \<in> set expr \<and> lower_ops op = Some (snd b))"
      "sr_hi r = Some b \<longrightarrow> rangeComparable (fst b) \<and> (\<exists>op. (op, fst b) \<in> set expr \<and> upper_ops op = Some (snd b))"
      using tightest_Some(1,3) by metis+
    then show ?thesis
      using operator_match [OF assms(1) assms(4,3) [unfolded e(1)]] ops_comparison op_matches_lower(1) [of _ "snd b" ?D ?xs "fst b"]
        op_matches_upper(1) [of _ "snd b" ?D ?xs "fst b"] by (metis prod.collapse)
  qed
  then show "sr_lo r = Some b \<Longrightarrow> rangeComparable (fst b) \<and> (\<exists>x\<in>set ?xs. lo_sat ?D x b)"
    "sr_hi r = Some b \<Longrightarrow> rangeComparable (fst b) \<and> (\<exists>x\<in>set ?xs. hi_sat ?D x b)" by blast+
qed

section \<open>Conditions that exclude missing fields\<close>

lemma candidate_not_null:
  assumes "reaches E doc k vals missing" "x \<in> set (key_candidates doc k)" "x \<noteq> BNull"
  shows "vals \<noteq> []"
  using assms key_candidates_reached by (fastforce simp: reaches_def split: if_splits)

lemma op_matches_not_null:
  assumes "reaches E doc k vals missing" "op_matches (decimals E) (key_candidates doc k) (op, v)" "v \<noteq> BNull"
  shows "vals \<noteq> []"
proof -
  obtain x where "x \<in> set (key_candidates doc k)" "same_type (decimals E) x v" using assms(2) by (auto simp: op_matches_def)
  then show ?thesis using candidate_not_null [OF assms(1), of x] assms(3) null_type [of "decimals E" v] by auto
qed

lemma excludes_loop_True:
  assumes "excludes_loop D ops (map fst fs) = Ok True" "distinct (map fst ops)" "set fs \<subseteq> set ops"
  shows "\<exists>f\<in>set fs. excludes_missing_op D f"
  using assms(1,3)
proof (induction fs)
  case (Cons f fs)
  obtain op v where f: "f = (op, v)" by (cases f)
  have "must_get ops op = (Ok v :: (unit, bson) result)" using Cons.prems(2) f by (intro must_get_distinct [OF assms(2)]) auto
  then show ?case using Cons f by (cases "excludes_missing_op D (op, v)") auto
qed simp

lemma isExistsTrue_iff: "isExistsTrue v \<longleftrightarrow> (\<exists>e. v = BDocument [(''$exists'', e)] \<and> existsTruthy e)"
proof (cases v)
  case (BDocument fs)
  then show ?thesis by (cases fs; cases "tl fs"; cases "hd fs") (auto simp: isExistsTrue_def)
qed (auto simp: isExistsTrue_def)

lemma existsTruthy_operand: "existsTruthy e \<Longrightarrow> existsOperandTrue e"
  by (cases e) auto

lemma null_equal:
  assumes "bigint_total D"
  shows "compareScalars D BNull BNull = Equal"
  using order_cmp_null [OF assms, of BNull] order_cmp_same_type [of D BNull BNull Ascending] Compare_scalar [of BNull D BNull]
  by (simp add: same_type_def)

lemma missing_excluded:
  assumes "reaches E doc k vals missing" "conditionExcludesMissing (decimals E) v = Ok True" "plain_condition v" "matches E doc k v"
  shows "vals \<noteq> []"
proof (cases "partialFilterScalar v")
  case (Some s)
  note m = scalar_match [OF assms(1) Some assms(3)]
  show ?thesis using op_matches_not_null [OF assms(1) _ m(3)] m(1) assms(4) by blast
next
  case None
  obtain suffix where r: "bigint_total (decimals E)" "no_dup (BDocument doc)" "\<not> HasPrefix k ''$''" "filter_values doc k = Ok (suffix, vals, missing)"
    by (rule reachesD [OF assms(1)])
  from None assms(2) obtain ops where ops: "v = BDocument ops" "excludes_loop (decimals E) ops (map fst ops) = Ok True"
    by (auto simp: conditionExcludesMissing_def split: bson.splits)
  have d: "distinct (map fst ops)" using assms(3) ops(1) by (simp add: operator_expr_def)
  obtain op w where op: "(op, w) \<in> set ops" "excludes_missing_op (decimals E) (op, w)"
    using excludes_loop_True [OF ops(2) d] by auto
  have pl: "plain_op (op, w)" using assms(3) ops(1) op(1) by (auto simp: list_all_iff)
  have one: "matches E doc k (BDocument [(op, w)])"
    using pair_operator_True assms(3,4) ops(1) r(3) op(1) by blast
  consider "op \<in> fst ` set comparison_operators" "partialFilterScalar w \<noteq> None" | "op = ''$exists''" "existsTruthy w"
    | vs where "op = ''$in''" "w = BArray vs" "\<not> array_Contains (decimals E) vs BNull"
    using op(2) by (auto simp: excludes_missing_op_def comparison_operators_def split: if_splits bson.splits)
  then show ?thesis
  proof cases
    case 1
    then have "w \<noteq> BNull" by (auto simp: partialFilterScalar_def)
    then show ?thesis using operator_match [OF assms(1) assms(4,3) [unfolded ops(1)] op(1) 1(1)] op_matches_not_null [OF assms(1)] by blast
  next
    case 2
    then show ?thesis using exists_condition [OF r(4,2,3) existsTruthy_operand] one by simp
  next
    case 3
    then have vs: "list_all plain_operand vs" using pl by (simp add: plain_op_def)
    then obtain u where "u \<in> set vs" "op_matches (decimals E) (key_candidates doc k) (''$eq'', u)"
      using in_condition [OF r(4,2,3,1)] one 3 by (auto simp: list_ex_iff)
    moreover have "BNull \<notin> set vs" using 3(3) null_equal [OF r(1)] by (auto simp: array_Contains_def list_ex_iff)
    ultimately show ?thesis using op_matches_not_null [OF assms(1)] by blast
  qed
qed

section \<open>Implication\<close>

text \<open>
  The conditions of a partial filter that have the meaning the planner gives them: equality is
  not combined with a range, which on arrays is not the intersection of its bounds.
\<close>

definition plain_partial :: "bson \<Rightarrow> bool" where
  "plain_partial v \<longleftrightarrow> plain_condition v \<and>
     (case v of BDocument expr \<Rightarrow> has_key expr ''$eq'' \<longrightarrow> length expr = 1 | _ \<Rightarrow> True)"

lemma within_lower:
  assumes "reaches E doc k vals missing" "tightest lo_sat lower_ops (decimals E) first expr (sr_lo pr)"
    and "parseScalarRange (decimals E) fv = Ok (Some fr)" "scalarRange_within (decimals E) fr pr"
    and "plain_condition fv" "matches E doc k fv" "(op, v) \<in> set expr" "lower_ops op = Some j"
  shows "\<exists>x\<in>set (key_candidates doc k). lo_sat (decimals E) x (v, j)"
proof -
  let ?D = "decimals E"
  obtain b where b: "sr_lo pr = Some b" using assms(2,7,8) tightest_None by (metis not_None_eq)
  with assms(4) obtain b' where b': "sr_lo fr = Some b'" "sameRangeBracket (fst b') (fst b)"
    "\<not> (compare_operands ?D (fst b') (fst b) < 0 \<or> compare_operands ?D (fst b') (fst b) = 0 \<and> snd b' \<and> \<not> snd b)"
    by (cases b) (auto simp: scalarRange_within_def Let_def split: option.splits prod.splits)
  obtain x where x: "x \<in> set (key_candidates doc k)" "lo_sat ?D x b'" "rangeComparable (fst b')"
    using range_met(1) [OF assms(1,3,5,6) b'(1)] by blast
  have "same_type ?D (fst b') (fst b)" using range_type x(3) tightest_Some(1) assms(2) b b'(2) by metis
  from bound_trans(1) [OF _ this b'(3), of x] have "lo_sat ?D x b" using x(2) assms(1) by (simp add: reaches_def)
  then have "lo_sat ?D x (v, j)" using tightest_Some(4) assms(2,7,8) b by metis
  then show ?thesis using x(1) by blast
qed

lemma within_upper:
  assumes "reaches E doc k vals missing" "tightest hi_sat upper_ops (decimals E) first expr (sr_hi pr)"
    and "parseScalarRange (decimals E) fv = Ok (Some fr)" "scalarRange_within (decimals E) fr pr"
    and "plain_condition fv" "matches E doc k fv" "(op, v) \<in> set expr" "upper_ops op = Some j"
  shows "\<exists>x\<in>set (key_candidates doc k). hi_sat (decimals E) x (v, j)"
proof -
  let ?D = "decimals E"
  obtain b where b: "sr_hi pr = Some b" using assms(2,7,8) tightest_None by (metis not_None_eq)
  with assms(4) obtain b' where b': "sr_hi fr = Some b'" "sameRangeBracket (fst b') (fst b)"
    "\<not> (compare_operands ?D (fst b') (fst b) > 0 \<or> compare_operands ?D (fst b') (fst b) = 0 \<and> snd b' \<and> \<not> snd b)"
    by (cases b) (auto simp: scalarRange_within_def Let_def split: option.splits prod.splits)
  obtain x where x: "x \<in> set (key_candidates doc k)" "hi_sat ?D x b'" "rangeComparable (fst b')"
    using range_met(2) [OF assms(1,3,5,6) b'(1)] by blast
  have "same_type ?D (fst b') (fst b)" using range_type x(3) tightest_Some(1) assms(2) b b'(2) by metis
  from bound_trans(2) [OF _ this b'(3), of x] have "hi_sat ?D x b" using x(2) assms(1) by (simp add: reaches_def)
  then have "hi_sat ?D x (v, j)" using tightest_Some(4) assms(2,7,8) b by metis
  then show ?thesis using x(1) by blast
qed

lemma range_implied:
  assumes "reaches E doc k vals missing" "parseScalarRange (decimals E) (BDocument expr) = Ok (Some pr)"
    and "plain_condition (BDocument expr)" "\<not> has_key expr ''$eq''"
    and "parseScalarRange (decimals E) fv = Ok (Some fr)" "scalarRange_within (decimals E) fr pr"
    and "plain_condition fv" "matches E doc k fv"
  shows "matches E doc k (BDocument expr)"
proof -
  let ?D = "decimals E" and ?xs = "key_candidates doc k"
  obtain suffix where r: "bigint_total ?D" "no_dup (BDocument doc)" "\<not> HasPrefix k ''$''" "filter_values doc k = Ok (suffix, vals, missing)"
    by (rule reachesD [OF assms(1)])
  obtain first where e: "must_get expr (fst (hd expr)) = (Ok first :: (unit, bson) result)"
    "range_loop ?D expr first (map fst expr) \<lparr>sr_lo = None, sr_hi = None\<rparr> = Ok (Some pr)" "expr \<noteq> []"
    using assms(2) by (auto simp: parseScalarRange_def Let_def split: if_splits)
  have d: "distinct (map fst expr)" using assms(3) by (simp add: operator_expr_def)
  have t: "tightest lo_sat lower_ops ?D first expr (sr_lo pr)" "tightest hi_sat upper_ops ?D first expr (sr_hi pr)"
    and ops: "\<forall>(op, v)\<in>set expr. rangeComparable v \<and> sameRangeBracket v first \<and> op \<in> fst ` set comparison_operators"
    using range_loop_tightest [OF r(1) e(2), of "[]"] must_get_distinct [OF d] by (auto simp: tightest_def)
  have ce: "comparison_expr expr"
    using d e(3) ops rangeComparable_plain by (auto simp: comparison_expr_def list_all_iff)
  have "op_matches ?D ?xs (op, v)" if o: "(op, v) \<in> set expr" for op v
  proof -
    have ne: "op \<noteq> ''$eq''" using assms(4) o by (force simp: has_key_def)
    moreover have "op \<in> fst ` set comparison_operators" using ops o by blast
    ultimately consider j where "lower_ops op = Some j" | j where "upper_ops op = Some j"
      by (auto simp: comparison_operators_def)
    then show ?thesis
      using within_lower [OF assms(1) t(1) assms(5-8) o] within_upper [OF assms(1) t(2) assms(5-8) o]
        op_matches_lower(2) [OF _ ne] op_matches_upper(2) [OF _ ne] by cases metis+
  qed
  then show ?thesis using comparison_condition [OF r(4,2,3) ce r(1)] by (auto simp: list_all_iff)
qed

lemma equality_implied:
  assumes "reaches E doc k vals missing" "partialFilterScalar pv = Some ps" "partialFilterScalar fv = Some fs"
    and "compare_operands (decimals E) ps fs = 0" "plain_condition pv" "plain_condition fv" "matches E doc k fv"
  shows "matches E doc k pv"
proof -
  note p = scalar_match [OF assms(1,2,5)] and f = scalar_match [OF assms(1,3,6)]
  have t: "bigint_total (decimals E)" using assms(1) by (simp add: reaches_def)
  have "Compare (decimals E) ps fs = Equal" using assms(4) by (simp add: compare_operands_def split: CompareResult.splits)
  then have "equalsOrHasElement (decimals E) ps fs None" by (simp add: equalsOrHasElement_def collCompare_def)
  then have "order_cmp (decimals E) ps fs = Equal"
    using equalsOrHasElement_candidates [OF _ t, of fs ps] plain_operandD [OF p(2)] plain_operandD [OF f(2)] by (cases ps) auto
  then have "order_cmp (decimals E) x ps = order_cmp (decimals E) x fs" for x by (rule order_trans_rules(2) [OF t])
  then show ?thesis using p(1) f(1) assms(7) by (simp add: op_matches_eq)
qed

lemma condition_implied:
  assumes "reaches E doc k vals missing" "implies_condition (decimals E) stringRanges pv fv = Ok True"
    and "plain_partial pv" "plain_condition fv" "matches E doc k fv"
  shows "matches E doc k pv"
proof (cases "partialFilterScalar pv")
  case (Some ps)
  then show ?thesis using equality_implied [OF assms(1) Some] assms(2-5)
    by (auto simp: implies_condition_def plain_partial_def split: option.splits)
next
  case None
  obtain suffix where r: "bigint_total (decimals E)" "no_dup (BDocument doc)" "\<not> HasPrefix k ''$''" "filter_values doc k = Ok (suffix, vals, missing)"
    by (rule reachesD [OF assms(1)])
  show ?thesis
  proof (cases "isExistsTrue pv")
    case True
    then obtain e where e: "pv = BDocument [(''$exists'', e)]" "existsTruthy e"
      by (auto simp: isExistsTrue_iff)
    then show ?thesis
      using exists_condition [OF r(4,2,3) existsTruthy_operand] missing_excluded [OF assms(1) _ assms(4,5)] assms(2) None
      by (auto simp: implies_condition_def isExistsTrue_def)
  next
    case False
    with None assms(2) obtain pr fr where pf: "parseScalarRange (decimals E) pv = Ok (Some pr)"
      "parseScalarRange (decimals E) fv = Ok (Some fr)" "scalarRange_within (decimals E) fr pr"
      by (auto simp: implies_condition_def split: option.splits if_splits)
    have "\<not> rangeComparable pv" using None by (cases pv) (auto simp: partialFilterScalar_def)
    with pf(1) obtain expr where e: "pv = BDocument expr" by (auto simp: parseScalarRange_def Let_def split: bson.splits)
    have "\<not> has_key expr ''$eq''"
    proof
      assume "has_key expr ''$eq''"
      then obtain w where "expr = [(''$eq'', w)]" using assms(3) e by (auto simp: plain_partial_def has_key_def length_Suc_conv)
      then show False using None e pf(1) by (cases w) (auto simp: partialFilterScalar_def parseScalarRange_def Let_def)
    qed
    then show ?thesis using range_implied [OF assms(1)] pf assms(3-5) e by (auto simp: plain_partial_def)
  qed
qed

lemma implication_sound:
  assumes "filterImpliesPartial (decimals E) flt pfe stringRanges = Ok True" "FilterDocumentColl E doc flt None = Ok True"
    and "bigint_total (decimals E)" "no_dup (BDocument doc)" "distinct (map fst flt)" "distinct (map fst pfe)"
    and "\<forall>(k, v)\<in>set pfe. \<not> HasPrefix k ''$'' \<and> plain_partial v" "\<forall>(k, v)\<in>set flt. plain_condition v"
  shows "FilterDocumentColl E doc pfe None = Ok True"
  unfolding filter_pair_True
proof (intro ballI, clarify)
  fix k pv
  assume p: "(k, pv) \<in> set pfe"
  have get: "get_value fs k = Ok (field_get fs k)" if "distinct (map fst fs)" for fs by (rule distinct_get [OF that])
  have "field_get pfe k = Some pv" using p assms(6) by (simp add: field_get_map_of)
  moreover have "(\<lambda>(pk, _). bind_result (get_value pfe pk) (\<lambda>pv. case pv of
         None \<Rightarrow> Ok False
       | Some pv \<Rightarrow> bind_result (get_value flt pk) (\<lambda>fv. case fv of
           None \<Rightarrow> Ok False
         | Some fv \<Rightarrow> implies_condition (decimals E) stringRanges pv fv))) (k, pv) = Ok True"
    using assms(1) p unfolding filterImpliesPartial_def for_all_True by blast
  ultimately obtain fv where fv: "field_get flt k = Some fv" "implies_condition (decimals E) stringRanges pv fv = Ok True"
    by (auto simp: distinct_get [OF assms(5)] distinct_get [OF assms(6)] split: option.splits)
  have f: "(k, fv) \<in> set flt" using fv(1) by (rule field_get_in)
  then have m: "matches E doc k fv" using assms(2) by (auto simp: filter_pair_True)
  then obtain suffix vals missing where "filter_values doc k = Ok (suffix, vals, missing)" by (rule pair_values)
  then have "reaches E doc k vals missing" using assms(3,4,7) p by (auto simp: reaches_def)
  then show "matches E doc k pv"
    using condition_implied fv(2) assms(7,8) p f m by blast
qed

section \<open>Properties\<close>

text \<open>
  Property C9 (safety). An implied partial filter holds of every match: when \<open>filterImpliesPartial\<close> finds that the
  conditions of a filter imply those of a partial index, every document that matches the filter
  matches the partial filter, on any path and through arrays. A condition of the partial filter
  with \<open>$eq\<close> has no other operator, keys are distinct, and the conditions on both sides are
  \<open>plain_condition\<close>s: values, or operator documents without \<open>$options\<close> and geometric
  operators, whose comparisons and \<open>$in\<close> members are not documents, arrays, regexes or undefined
  (nor the operands of \<open>$ne\<close> and \<open>$nin\<close> whole documents).
\<close>

theorem filterImpliesPartial_sound:
  assumes "filterImpliesPartial (decimals E) flt pfe stringRanges = Ok True" "FilterDocumentColl E doc flt None = Ok True"
    and "bigint_total (decimals E)" "no_dup (BDocument doc)" "distinct (map fst flt)" "distinct (map fst pfe)"
    and "\<forall>(k, v)\<in>set pfe. \<not> HasPrefix k ''$'' \<and> plain_partial v" "\<forall>(k, v)\<in>set flt. plain_condition v"
  shows "FilterDocumentColl E doc pfe None = Ok True"
  by (rule implication_sound [OF assms])

theorem filterImpliesPartial_sound_witness:
  "FilterDocumentColl sample_filter_env [(''a'', BArray [BInt32 1, BInt32 7]), (''b'', BString ''x'')]
     [(''a'', BDocument [(''$gt'', BInt32 3)]), (''b'', BDocument [(''$exists'', BBool True)])] None = Ok True"
proof (rule filterImpliesPartial_sound)
  show "filterImpliesPartial (decimals sample_filter_env)
      [(''a'', BDocument [(''$gte'', BInt32 5)]), (''b'', BString ''x'')]
      [(''a'', BDocument [(''$gt'', BInt32 3)]), (''b'', BDocument [(''$exists'', BBool True)])] True = Ok True" by code_simp
  show "FilterDocumentColl sample_filter_env [(''a'', BArray [BInt32 1, BInt32 7]), (''b'', BString ''x'')]
      [(''a'', BDocument [(''$gte'', BInt32 5)]), (''b'', BString ''x'')] None = Ok True" by code_simp
qed (auto simp: sample_filter_env_def sample_bigint_total no_dup.simps(1) plain_partial_def operator_expr_def plain_op_def
    sibling_operators_def expected_documents_def isOperatorDocument_def has_key_def comparison_operators_def)

lemma eq_with_range_implied:
  assumes "bigint_total D" "rangeComparable n" "rangeComparable m" "sameRangeBracket m n" "compare_operands D m n = 1"
  shows "filterImpliesPartial D [(k, BDocument [(''$gte'', n), (''$lte'', n)])] [(k, BDocument [(''$eq'', n), (''$lt'', m)])] True = Ok True"
proof -
  have n: "compare_operands D n n = 0" "sameRangeBracket n n"
    using compare_operands_swap [OF assms(1), of n n] by (simp_all add: same_type_def sameRangeBracket_def)
  have get: "must_get [(a, v), (b, w)] a = Ok v" "must_get [(a, v), (b, w)] b = Ok w" if "a \<noteq> b" for a b v w
    using that by (simp_all add: must_get_def get_value_def key_count_def)
  have pr: "parseScalarRange D (BDocument [(''$eq'', n), (''$lt'', m)]) = Ok (Some \<lparr>sr_lo = Some (n, True), sr_hi = Some (n, True)\<rparr>)"
    using assms n by (simp add: parseScalarRange_def Let_def get setLo_def setHi_def)
  have fr: "parseScalarRange D (BDocument [(''$gte'', n), (''$lte'', n)]) = Ok (Some \<lparr>sr_lo = Some (n, True), sr_hi = Some (n, True)\<rparr>)"
    using assms n by (simp add: parseScalarRange_def Let_def get setLo_def setHi_def)
  show ?thesis using n
    by (simp add: get_value_def key_count_def filterImpliesPartial_def implies_condition_def partialFilterScalar_def isExistsTrue_def pr fr
        scalarRange_within_def Let_def for_all_single del: for_all_simps)
qed

text \<open>
  Property C37 (error). Equality combined with a range defeats the check, whatever the values: the partial filter
  \<open>{$eq: n, $lt: m}\<close> with \<open>n\<close> below \<open>m\<close> is found implied by \<open>{$gte: n, $lte: n}\<close>, and a document with an array
  that has elements below and above \<open>n\<close> but none equal to it matches the filter and is not in
  the partial index. The values are numbers or strings, and the elements of their type.
\<close>

theorem implied_partial_drops_match:
  assumes "bigint_total (decimals E)" "rangeComparable n" "rangeComparable m" "sameRangeBracket m n"
    and "compare_operands (decimals E) m n = 1"
    and "no_dup (BDocument doc)" "\<not> HasPrefix k ''$''" "filter_values doc k = Ok r"
    and "\<exists>x\<in>set (key_candidates doc k). same_type (decimals E) x n \<and> order_cmp (decimals E) x n = Less"
    and "\<exists>y\<in>set (key_candidates doc k). same_type (decimals E) y n \<and> order_cmp (decimals E) y n = Greater"
    and "\<forall>x\<in>set (key_candidates doc k). order_cmp (decimals E) x n \<noteq> Equal"
  shows "filterImpliesPartial (decimals E) [(k, BDocument [(''$gte'', n), (''$lte'', n)])]
      [(k, BDocument [(''$eq'', n), (''$lt'', m)])] True = Ok True \<and>
    FilterDocumentColl E doc [(k, BDocument [(''$gte'', n), (''$lte'', n)])] None = Ok True \<and>
    FilterDocumentColl E doc [(k, BDocument [(''$eq'', n), (''$lt'', m)])] None = Ok False"
proof -
  have plain: "comparison_expr [(''$gte'', n), (''$lte'', n)]" "comparison_expr [(''$eq'', n), (''$lt'', m)]"
    using rangeComparable_plain assms(2,3) by (simp_all add: comparison_expr_def comparison_operators_def)
  note match = comparison_condition [OF assms(8,6,7) _ assms(1)]
  have "op_matches (decimals E) (key_candidates doc k) (''$gte'', n)" "op_matches (decimals E) (key_candidates doc k) (''$lte'', n)"
    using assms(9,10) by (auto simp: op_matches_def comparison_operators_def)
  moreover have "\<not> op_matches (decimals E) (key_candidates doc k) (''$eq'', n)"
    using assms(11) by (simp add: op_matches_eq)
  ultimately show ?thesis
    using eq_with_range_implied [OF assms(1-5)] by (simp add: FilterDocumentColl_single match [OF plain(1)] match [OF plain(2)])
qed

theorem implied_partial_drops_match_witness:
  "let doc = [(''a'', BArray [BInt32 3, BInt32 7])];
       flt = [(''a'', BDocument [(''$gte'', BInt32 5), (''$lte'', BInt32 5)])];
       pfe = [(''a'', BDocument [(''$eq'', BInt32 5), (''$lt'', BInt32 10)])] in
   filterImpliesPartial (decimals sample_filter_env) flt pfe True = Ok True \<and>
   FilterDocumentColl sample_filter_env doc flt None = Ok True \<and>
   FilterDocumentColl sample_filter_env doc pfe None = Ok False"
  unfolding Let_def
proof (rule implied_partial_drops_match)
  let ?doc = "[(''a'', BArray [BInt32 3, BInt32 7])]"
  show v: "filter_values ?doc ''a'' = Ok (''a'', [BArray [BInt32 3, BInt32 7]], False)" by code_simp
  show "\<exists>x\<in>set (key_candidates ?doc ''a''). same_type (decimals sample_filter_env) x (BInt32 5) \<and>
      order_cmp (decimals sample_filter_env) x (BInt32 5) = Less" by code_simp
  show "\<exists>y\<in>set (key_candidates ?doc ''a''). same_type (decimals sample_filter_env) y (BInt32 5) \<and>
      order_cmp (decimals sample_filter_env) y (BInt32 5) = Greater" by code_simp
  show "\<forall>x\<in>set (key_candidates ?doc ''a''). order_cmp (decimals sample_filter_env) x (BInt32 5) \<noteq> Equal" by code_simp
  show "compare_operands (decimals sample_filter_env) (BInt32 10) (BInt32 5) = 1" by code_simp
qed (simp_all add: sample_filter_env_def sample_bigint_total sameRangeBracket_def no_dup.simps(1))

end
