(* ===== verification/PlanBounds.thy ===== *)
theory PlanBounds
  imports PartialImplication
begin

text \<open>
  The bounds the planner derives from a condition hold the key of a value that meets it: the
  byte ranges of \<open>indexBoundsForFilterValue\<close> never exclude a match.
\<close>

section \<open>Entries within bounds\<close>

text \<open>Values with exact keys, where the type has such keys at all.\<close>

fun indexable :: "bson \<Rightarrow> bool" where
  "indexable (BDouble f) = key_exact (BDouble f)"
| "indexable (BObjectID oid) = key_exact (BObjectID oid)"
| "indexable (BDate d) = key_exact (BDate d)"
| "indexable (BDecimal128 _ _) = False"
| "indexable _ = True"

lemma same_type_exact:
  assumes "same_type D x v" "indexable x" "key_exact v" "plain_operand v"
  shows "key_exact x"
  using assms by (cases v; cases x) (auto simp: same_type_def dataType_defs split: if_splits)

lemma byte_class_numbers: "byte_class b = numbersDataType \<Longrightarrow> ctypeNegInf \<le> b \<and> b < ctypePosInf + 1"
proof -
  assume "byte_class b = numbersDataType"
  then have "ctypeNaN < b" "b \<le> ctypePosInf" by (auto simp: byte_class_def dataType_defs split: if_splits)
  then show ?thesis unfolding word_le_nat_alt word_less_nat_alt by (simp add: ctype_defs)
qed

lemma nil_first: "bytes_compare [] ys \<noteq> Greater"
  by (cases ys) auto

text \<open>The key of a value lies in the bracket of every operand of its type.\<close>

lemma bracket_entry:
  assumes "BracketRange v = Some (s, e)" "detectDataType D v \<noteq> nanDataType" "same_type D x v" "key_exact x"
  shows "bytes_compare s (BuildSecondaryKey C [x] pid) \<noteq> Greater" "bytes_compare (BuildSecondaryKey C [x] pid) e = Less" "s \<noteq> []" "e \<noteq> []"
proof -
  have "\<exists>b r c d. EncodeValue C x = b # r \<and> s = [c] \<and> e = [d] \<and> c \<le> b \<and> b < d"
  proof (cases "detectDataType D v = numbersDataType")
    case True
    then have "s = [ctypeNegInf] \<and> e = [ctypePosInf + 1]" using assms(1) by (cases v) (auto simp: dataType_defs)
    then show ?thesis using encode_bracket [OF assms(4), of C D] True assms(3) byte_class_numbers by (auto simp: same_type_def)
  next
    case False
    then show ?thesis using assms
      by (cases v; cases x) (auto simp: same_type_def dataType_defs ctype_defs encodeString_def encodeStringBytes_def split: if_splits)
  qed
  then show "bytes_compare s (BuildSecondaryKey C [x] pid) \<noteq> Greater" "bytes_compare (BuildSecondaryKey C [x] pid) e = Less" "s \<noteq> []" "e \<noteq> []"
    unfolding entry_key by (auto simp: nil_first order.strict_iff_order split: if_splits)
qed

lemma equality_entry:
  assumes "key_exact v" "key_exact x" "order_cmp D x v = Equal"
  shows "in_bounds (LowerBoundInclusive C v) (UpperBoundInclusive C v) (BuildSecondaryKey C [x] pid)"
  using entry_compare [OF assms(1,2), of C pid D] assms(3) by (simp add: in_bounds_def LowerBoundInclusive_def UpperBoundInclusive_def)

lemma bound_entry:
  assumes "key_exact (fst b)" "key_exact x"
  shows "lo_sat D x b \<Longrightarrow> bytes_compare (lower_key C b) (BuildSecondaryKey C [x] pid) \<noteq> Greater"
    "hi_sat D x b \<Longrightarrow> bytes_compare (BuildSecondaryKey C [x] pid) (upper_key C b) = Less"
  using entry_compare [OF assms, of C pid D]
  by (auto simp: lo_sat_def hi_sat_def lower_key_def upper_key_def LowerBoundInclusive_def LowerBoundExclusive_def
      UpperBoundInclusive_def UpperBoundExclusive_def split: if_splits)

section \<open>Bounds of a condition\<close>

definition lower_only :: "string \<Rightarrow> bool option" where
  "lower_only = map_of [(''$gte'', True), (''$gt'', False)]"

definition upper_only :: "string \<Rightarrow> bool option" where
  "upper_only = map_of [(''$lte'', True), (''$lt'', False)]"

lemma only_at [simp]:
  "lower_only ''$gte'' = Some True" "lower_only ''$gt'' = Some False" "upper_only ''$lte'' = Some True" "upper_only ''$lt'' = Some False"
  by (simp_all add: lower_only_def upper_only_def)

lemma lower_onlyD: "lower_only op = Some i \<Longrightarrow> op \<in> {''$gt'', ''$gte''} \<and> lower_ops op = Some i"
  by (auto simp: lower_only_def split: if_splits)

lemma upper_onlyD: "upper_only op = Some i \<Longrightarrow> op \<in> {''$lt'', ''$lte''} \<and> upper_ops op = Some i"
  by (auto simp: upper_only_def split: if_splits)

definition not_nan :: "bigint_fun \<Rightarrow> bson \<Rightarrow> bool" where
  "not_nan D v \<longleftrightarrow> detectDataType D v \<noteq> nanDataType"

text \<open>Where a bound comes from: an operator on its side.\<close>

definition from_ops :: "(string \<Rightarrow> bool option) \<Rightarrow> bigint_fun \<Rightarrow> fields \<Rightarrow> bound \<Rightarrow> bool" where
  "from_ops ops D fs b \<longleftrightarrow> (case b of None \<Rightarrow> True | Some (v, i) \<Rightarrow> not_nan D v \<and> (\<exists>op. (op, v) \<in> set fs \<and> ops op = Some i))"

lemma from_ops_mono: "from_ops ops D fs b \<Longrightarrow> set fs \<subseteq> set gs \<Longrightarrow> from_ops ops D gs b"
  by (fastforce simp: from_ops_def split: option.splits)

lemma from_ops_set:
  "from_ops lower_only D fs b \<Longrightarrow> (op, v) \<in> set fs \<Longrightarrow> lower_only op = Some i \<Longrightarrow> not_nan D v \<Longrightarrow> from_ops lower_only D fs (set_lower D v i b)"
  "from_ops upper_only D fs b \<Longrightarrow> (op, v) \<in> set fs \<Longrightarrow> upper_only op = Some i \<Longrightarrow> not_nan D v \<Longrightarrow> from_ops upper_only D fs (set_upper D v i b)"
  by (auto simp: from_ops_def set_lower_def set_upper_def split: option.splits)

lemma bounds_loop_from:
  assumes "bounds_loop D opDoc (map fst gs) (lower, upper, eq) = Ok (Some (lower', upper', eq'))"
    and "\<forall>(op, v)\<in>set gs. get_value opDoc op = (Ok (Some v) :: (unit, bson option) result)" "set gs \<subseteq> set fs"
    and "from_ops lower_only D fs lower" "from_ops upper_only D fs upper" "\<forall>v. eq = Some v \<longrightarrow> (''$eq'', v) \<in> set fs"
  shows "from_ops lower_only D fs lower' \<and> from_ops upper_only D fs upper' \<and> (\<forall>v. eq' = Some v \<longrightarrow> (''$eq'', v) \<in> set fs) \<and>
    (\<forall>(op, v)\<in>set gs. op \<in> fst ` set comparison_operators)"
  using assms
proof (induction gs arbitrary: lower upper eq)
  case (Cons g gs)
  obtain op v where g: "g = (op, v)" by (cases g)
  have get: "get_value opDoc op = (Ok (Some v) :: (unit, bson option) result)" and v: "(op, v) \<in> set fs"
    using Cons.prems(2,3) g by auto
  have nan: "not_nan D v" if "op \<noteq> ''$eq''"
    using Cons.prems(1) g get that by (cases v) (auto simp: not_nan_def no_index_operand_def dataType_defs split: if_splits)
  have low: "lower_only op = Some i \<Longrightarrow> op \<noteq> ''$eq'' \<Longrightarrow> from_ops lower_only D fs (set_lower D v i lower)" for i
    using from_ops_set(1) [OF Cons.prems(4) v] nan by blast
  have up: "upper_only op = Some i \<Longrightarrow> op \<noteq> ''$eq'' \<Longrightarrow> from_ops upper_only D fs (set_upper D v i upper)" for i
    using from_ops_set(2) [OF Cons.prems(5) v] nan by blast
  have rest: "\<forall>(op, v)\<in>set gs. get_value opDoc op = (Ok (Some v) :: (unit, bson option) result)" "set gs \<subseteq> set fs"
    using Cons.prems(2,3) by auto
  note IH = Cons.IH [OF _ rest]
  consider "op = ''$eq''" | "op = ''$gt''" | "op = ''$gte''" | "op = ''$lt''" | "op = ''$lte''"
    using Cons.prems(1) g get by (auto split: if_splits)
  then obtain l u e where step: "bounds_loop D opDoc (map fst gs) (l, u, e) = Ok (Some (lower', upper', eq'))"
    "from_ops lower_only D fs l" "from_ops upper_only D fs u" "\<forall>v. e = Some v \<longrightarrow> (''$eq'', v) \<in> set fs"
  proof cases
    case 1
    show ?thesis by (rule that [of lower upper "Some v"]) (use Cons.prems 1 g get v in \<open>auto split: if_splits\<close>)
  next
    case 2
    show ?thesis by (rule that [of "set_lower D v False lower" upper eq]) (use Cons.prems 2 g get low in \<open>auto split: if_splits\<close>)
  next
    case 3
    show ?thesis by (rule that [of "set_lower D v True lower" upper eq]) (use Cons.prems 3 g get low in \<open>auto split: if_splits\<close>)
  next
    case 4
    show ?thesis by (rule that [of lower "set_upper D v False upper" eq]) (use Cons.prems 4 g get up in \<open>auto split: if_splits\<close>)
  next
    case 5
    show ?thesis by (rule that [of lower "set_upper D v True upper" eq]) (use Cons.prems 5 g get up in \<open>auto split: if_splits\<close>)
  qed
  have "op \<in> fst ` set comparison_operators"
    using Cons.prems(1) g get by (auto simp: comparison_operators_def split: if_splits)
  then show ?case using IH [OF step] g by simp
qed simp

text \<open>Operands with exact keys, where the planner uses them.\<close>

definition exact_value :: "bson \<Rightarrow> bool" where
  "exact_value v \<longleftrightarrow> no_index_operand v \<or> key_exact v"

fun exact_condition :: "bson \<Rightarrow> bool" where
  "exact_condition (BDocument expr) \<longleftrightarrow> list_all (\<lambda>(op, v).
     (op \<in> fst ` set comparison_operators \<longrightarrow> exact_value v) \<and>
     (op = ''$in'' \<longrightarrow> (case v of BArray vs \<Rightarrow> list_all exact_value vs | _ \<Rightarrow> True))) expr"
| "exact_condition v \<longleftrightarrow> exact_value v"

definition value_candidates :: "bson list \<Rightarrow> bson list" where
  "value_candidates vals = concat (map (\<lambda>v. candidates (Some v)) vals)"

lemma op_matches_values:
  assumes "reaches E doc k vals missing" "op_matches (decimals E) (key_candidates doc k) (op, v)" "v \<noteq> BNull"
  shows "op_matches (decimals E) (value_candidates vals) (op, v)"
proof -
  obtain suffix where "filter_values doc k = Ok (suffix, vals, missing)" using assms(1) by (auto simp: reaches_def)
  from key_candidates_reached [OF this] show ?thesis
    using assms(2,3) null_type [of "decimals E" v] by (auto simp: op_matches_def value_candidates_def split: if_splits)
qed

lemma range_entry:
  assumes "range_bounds C lower upper = Some (s, e)" "key_exact x"
    and "\<forall>b. lower = Some b \<longrightarrow> lo_sat D x b \<and> key_exact (fst b) \<and> not_nan D (fst b)"
    and "\<forall>b. upper = Some b \<longrightarrow> hi_sat D x b \<and> key_exact (fst b) \<and> not_nan D (fst b)"
  shows "in_bounds s e (BuildSecondaryKey C [x] pid)"
proof -
  have lo: "bytes_compare (lower_key C b) (BuildSecondaryKey C [x] pid) \<noteq> Greater" if "lower = Some b" for b
    using bound_entry(1) [of b x] assms(2,3) that by blast
  have hi: "bytes_compare (BuildSecondaryKey C [x] pid) (upper_key C b) = Less" if "upper = Some b" for b
    using bound_entry(2) [of b x] assms(2,4) that by blast
  have t: "lower = Some b \<Longrightarrow> same_type D x (fst b) \<and> detectDataType D (fst b) \<noteq> nanDataType"
    "upper = Some b \<Longrightarrow> same_type D x (fst b) \<and> detectDataType D (fst b) \<noteq> nanDataType" for b
    using assms(3,4) by (auto simp: lo_sat_def hi_sat_def not_nan_def)
  show ?thesis
    using assms(1) lo hi t bracket_entry(1,2) [where x = x and D = D and C = C and pid = pid, OF _ _ _ assms(2)]
    by (cases lower; cases upper) (auto simp: range_bounds_def in_bounds_def split: option.splits if_splits)
qed

text \<open>Conditions whose bounds come from one operator, so that one candidate meets them.\<close>

fun one_sided :: "bson \<Rightarrow> bool" where
  "one_sided (BDocument expr) \<longleftrightarrow>
     \<not> ((has_key expr ''$gt'' \<or> has_key expr ''$gte'') \<and> (has_key expr ''$lt'' \<or> has_key expr ''$lte'')) \<or> has_key expr ''$eq''"
| "one_sided _ \<longleftrightarrow> True"

lemma equality_in_range:
  assumes "reaches E doc k vals missing" "op_matches (decimals E) (key_candidates doc k) (''$eq'', v)" "plain_operand v"
    and "exact_value v" "\<not> no_index_operand v" "\<forall>x\<in>set (value_candidates vals). indexable x"
  shows "\<exists>x\<in>set (value_candidates vals).
    \<forall>pid. in_bounds (LowerBoundInclusive C v) (UpperBoundInclusive C v) (BuildSecondaryKey C [x] pid)"
proof -
  have v: "key_exact v" "v \<noteq> BNull" using assms(4,5) by (auto simp: exact_value_def no_index_operand_def)
  obtain x where x: "x \<in> set (value_candidates vals)" "order_cmp (decimals E) x v = Equal"
    using op_matches_values [OF assms(1,2) v(2)] by (auto simp: op_matches_eq)
  have "key_exact x" using same_type_exact order_cmp_Equal_same_type [OF x(2)] assms(3,6) v(1) x(1) by blast
  then show ?thesis using equality_entry [OF v(1) _ x(2)] x(1) by blast
qed

text \<open>The operator behind a bound is met by some candidate, with an exact key.\<close>

lemma bound_met:
  assumes "reaches E doc k vals missing" "matches E doc k (BDocument expr)" "plain_condition (BDocument expr)"
    and "exact_condition (BDocument expr)" "\<forall>x\<in>set (value_candidates vals). indexable x"
    and "(op, v) \<in> set expr" "op \<in> fst ` set comparison_operators" "\<not> no_index_operand v"
  shows "key_exact v" "op_matches (decimals E) (value_candidates vals) (op, v)"
    and "x \<in> set (value_candidates vals) \<Longrightarrow> same_type (decimals E) x v \<Longrightarrow> key_exact x"
proof -
  have "exact_value v" using assms(4,6,7) by (auto simp: list_all_iff)
  then show k: "key_exact v" using assms(8) by (simp add: exact_value_def)
  have "v \<noteq> BNull" using assms(8) by (auto simp: no_index_operand_def)
  then show "op_matches (decimals E) (value_candidates vals) (op, v)"
    using operator_match [OF assms(1-3,6,7)] op_matches_values [OF assms(1)] by blast
  have "plain_operand v" using assms(3,6,7) by (auto simp: plain_op_def list_all_iff)
  then show "x \<in> set (value_candidates vals) \<Longrightarrow> same_type (decimals E) x v \<Longrightarrow> key_exact x"
    using same_type_exact assms(5) k by blast
qed

lemma bounds_operands:
  assumes "bounds_loop D opDoc (map fst gs) acc = Ok (Some r)"
    and "\<forall>(op, v)\<in>set gs. get_value opDoc op = (Ok (Some v) :: (unit, bson option) result)" "(op, v) \<in> set gs"
  shows "\<not> no_index_operand v"
  using assms
proof (induction gs arbitrary: acc)
  case (Cons g gs)
  obtain l u e where "acc = (l, u, e)" by (cases acc)
  then show ?case using Cons by (cases g) (auto split: if_splits)
qed simp

lemma eq_recorded:
  assumes "bounds_loop D opDoc (map fst gs) (l, u, q) = Ok (Some (l', u', None))"
    and "\<forall>(op, v)\<in>set gs. get_value opDoc op = (Ok (Some v) :: (unit, bson option) result)"
  shows "q = None \<and> ''$eq'' \<notin> fst ` set gs"
  using assms
proof (induction gs arbitrary: l u q)
  case (Cons g gs)
  have "\<forall>(op, v)\<in>set gs. get_value opDoc op = (Ok (Some v) :: (unit, bson option) result)" using Cons.prems(2) by simp
  note IH = Cons.IH [OF _ this]
  show ?case using Cons.prems by (cases g) (auto dest!: IH split: if_splits)
qed simp

lemma from_ops_lower:
  assumes "from_ops lower_only D fs (Some b)"
  obtains op where "(op, fst b) \<in> set fs" "lower_ops op = Some (snd b)" "op \<in> {''$gt'', ''$gte''}" "not_nan D (fst b)"
proof -
  obtain op where "(op, fst b) \<in> set fs" "lower_only op = Some (snd b)" "not_nan D (fst b)"
    using assms by (cases b) (auto simp: from_ops_def)
  then show thesis using that lower_onlyD by blast
qed

lemma from_ops_upper:
  assumes "from_ops upper_only D fs (Some b)"
  obtains op where "(op, fst b) \<in> set fs" "upper_ops op = Some (snd b)" "op \<in> {''$lt'', ''$lte''}" "not_nan D (fst b)"
proof -
  obtain op where "(op, fst b) \<in> set fs" "upper_only op = Some (snd b)" "not_nan D (fst b)"
    using assms by (cases b) (auto simp: from_ops_def)
  then show thesis using that upper_onlyD by blast
qed

lemma common_candidate:
  assumes "lower \<noteq> None \<or> upper \<noteq> None"
    and "\<And>b. lower = Some b \<Longrightarrow> n b \<and> key_exact (fst b) \<and> (\<exists>x\<in>X. P x b) \<and> (\<forall>x\<in>X. P x b \<longrightarrow> key_exact x) \<and> h"
    and "\<And>b. upper = Some b \<Longrightarrow> n b \<and> key_exact (fst b) \<and> (\<exists>x\<in>X. Q x b) \<and> (\<forall>x\<in>X. Q x b \<longrightarrow> key_exact x) \<and> h'"
    and "lower \<noteq> None \<and> upper \<noteq> None \<Longrightarrow> \<forall>x\<in>X. \<forall>y\<in>X. x = y"
  obtains x where "x \<in> X" "key_exact x" "\<forall>b. lower = Some b \<longrightarrow> P x b" "\<forall>b. upper = Some b \<longrightarrow> Q x b"
proof (cases lower)
  case None
  then obtain b where "upper = Some b" using assms(1) by blast
  with None assms(3) [of b] show ?thesis using that by auto
next
  case (Some b)
  then obtain x where x: "x \<in> X" "P x b" "key_exact x" using assms(2) by blast
  have "Q x c" if "upper = Some c" for c using assms(3) [OF that] assms(4) Some that x(1) by auto
  then show ?thesis using that [OF x(1,3)] x(2) Some by auto
qed

lemma range_sound:
  assumes "reaches E doc k vals missing" "matches E doc k (BDocument expr)" "plain_condition (BDocument expr)"
    and "exact_condition (BDocument expr)" "\<forall>x\<in>set (value_candidates vals). indexable x"
    and "one_sided (BDocument expr) \<or> (\<forall>x\<in>set (value_candidates vals). \<forall>y\<in>set (value_candidates vals). x = y)"
    and "from_ops lower_only (decimals E) expr lower" "from_ops upper_only (decimals E) expr upper" "\<not> has_key expr ''$eq''"
    and "\<forall>(op, v)\<in>set expr. \<not> no_index_operand v" "range_bounds C lower upper = Some (s, e)"
  shows "\<exists>x\<in>set (value_candidates vals). \<forall>pid. in_bounds s e (BuildSecondaryKey C [x] pid)"
proof -
  let ?D = "decimals E" and ?X = "set (value_candidates vals)"
  note met = bound_met [OF assms(1-5)]
  have lo: "not_nan ?D (fst b) \<and> key_exact (fst b) \<and> (\<exists>x\<in>?X. lo_sat ?D x b) \<and> (\<forall>x\<in>?X. lo_sat ?D x b \<longrightarrow> key_exact x) \<and>
      (has_key expr ''$gt'' \<or> has_key expr ''$gte'')" if l: "lower = Some b" for b
  proof -
    obtain op where op: "(op, fst b) \<in> set expr" "lower_ops op = Some (snd b)" "op \<in> {''$gt'', ''$gte''}" "not_nan ?D (fst b)"
      using from_ops_lower assms(7) l by metis
    have "\<not> no_index_operand (fst b)" using assms(10) op(1) by blast
    note m = met [OF op(1) ops_comparison(1) [OF op(2)] this]
    have "\<exists>x\<in>?X. lo_sat ?D x b" using op_matches_lower(1) [OF op(2) m(2)] by simp
    then show ?thesis using m(1,3) op by (auto simp: has_key_def lo_sat_def image_iff intro: bexI [of _ "(op, fst b)"])
  qed
  have hi: "not_nan ?D (fst b) \<and> key_exact (fst b) \<and> (\<exists>x\<in>?X. hi_sat ?D x b) \<and> (\<forall>x\<in>?X. hi_sat ?D x b \<longrightarrow> key_exact x) \<and>
      (has_key expr ''$lt'' \<or> has_key expr ''$lte'')" if u: "upper = Some b" for b
  proof -
    obtain op where op: "(op, fst b) \<in> set expr" "upper_ops op = Some (snd b)" "op \<in> {''$lt'', ''$lte''}" "not_nan ?D (fst b)"
      using from_ops_upper assms(8) u by metis
    have "\<not> no_index_operand (fst b)" using assms(10) op(1) by blast
    note m = met [OF op(1) ops_comparison(2) [OF op(2)] this]
    have "\<exists>x\<in>?X. hi_sat ?D x b" using op_matches_upper(1) [OF op(2) m(2)] by simp
    then show ?thesis using m(1,3) op by (auto simp: has_key_def hi_sat_def image_iff intro: bexI [of _ "(op, fst b)"])
  qed
  have one: "\<forall>x\<in>?X. \<forall>y\<in>?X. x = y" if "lower \<noteq> None \<and> upper \<noteq> None"
  proof -
    from that obtain bl bu where "lower = Some bl" "upper = Some bu" by blast
    then have "\<not> one_sided (BDocument expr)" using lo [of bl] hi [of bu] assms(9) by simp
    then show ?thesis using assms(6) by blast
  qed
  have "lower \<noteq> None \<or> upper \<noteq> None" using assms(11) by (cases lower; cases upper) (simp_all add: range_bounds_def)
  from common_candidate [OF this, of "\<lambda>b. not_nan ?D (fst b)" ?X "lo_sat ?D" _ "hi_sat ?D", OF lo hi one]
  obtain x where x: "x \<in> ?X" "key_exact x" "\<forall>b. lower = Some b \<longrightarrow> lo_sat ?D x b" "\<forall>b. upper = Some b \<longrightarrow> hi_sat ?D x b"
    by blast
  then show ?thesis using range_entry [OF assms(11) x(2), of ?D] lo hi by blast
qed

lemma bounds_sound:
  assumes "reaches E doc k vals missing" "matches E doc k v" "plain_condition v" "exact_condition v"
    and "\<forall>x\<in>set (value_candidates vals). indexable x"
    and "one_sided v \<or> (\<forall>x\<in>set (value_candidates vals). \<forall>y\<in>set (value_candidates vals). x = y)"
    and "indexBoundsForFilterValue (decimals E) C v = Ok (Some (s, e))"
  shows "\<exists>x\<in>set (value_candidates vals). \<forall>pid. in_bounds s e (BuildSecondaryKey C [x] pid)"
proof (cases "\<exists>expr. v = BDocument expr")
  case True
  then obtain expr where e: "v = BDocument expr" by blast
  have d: "distinct (map fst expr)" using assms(3) e by (simp add: operator_expr_def)
  have get: "\<forall>(op, v)\<in>set expr. get_value expr op = (Ok (Some v) :: (unit, bson option) result)"
    using d by (auto simp: distinct_get field_get_map_of)
  obtain l u q where loop: "bounds_loop (decimals E) expr (map fst expr) (None, None, None) = Ok (Some (l, u, q))"
    using assms(7) e by (cases "bounds_loop (decimals E) expr (map fst expr) (None, None, None)")
      (auto simp: indexBoundsForFilterValue_def simp del: bind_result_Ok_iff split: option.splits)
  have fo: "from_ops lower_only (decimals E) expr l" "from_ops upper_only (decimals E) expr u" "\<forall>v. q = Some v \<longrightarrow> (''$eq'', v) \<in> set expr"
    using bounds_loop_from [OF loop get order.refl] by (auto simp: from_ops_def)
  have no: "\<forall>(op, v)\<in>set expr. \<not> no_index_operand v" using bounds_operands [OF loop get] by blast
  show ?thesis
  proof (cases q)
    case (Some w)
    then have w: "(''$eq'', w) \<in> set expr" "s = LowerBoundInclusive C w" "e = UpperBoundInclusive C w"
      using fo(3) assms(7) loop e by (auto simp: indexBoundsForFilterValue_def)
    have c: "''$eq'' \<in> fst ` set comparison_operators" by (simp add: comparison_operators_def)
    have "plain_operand w" "exact_value w" using assms(3,4) e w(1) c by (auto simp: plain_op_def list_all_iff)
    then show ?thesis
      using equality_in_range [OF assms(1) operator_match [OF assms(1-3) [unfolded e] w(1) c]] no w assms(5) by blast
  next
    case None
    have "\<not> has_key expr ''$eq''" using eq_recorded [OF loop [unfolded None] get] by (simp add: has_key_def)
    then show ?thesis
      using range_sound [OF assms(1) assms(2-4) [unfolded e] assms(5) assms(6) [unfolded e] fo(1,2) _ no] None assms(7) loop e
      by (auto simp: indexBoundsForFilterValue_def)
  qed
next
  case False
  then have nv: "\<not> no_index_value v" "s = LowerBoundInclusive C v" "e = UpperBoundInclusive C v"
    using assms(7) by (cases v; auto simp: indexBoundsForFilterValue_def split: if_splits)+
  then have p: "plain_operand v" "\<not> no_index_operand v" "exact_value v"
    using False assms(3,4) by (cases v; auto simp: no_index_operand_def)+
  obtain suffix where rc: "bigint_total (decimals E)" "\<not> HasPrefix k ''$''" "filter_values doc k = Ok (suffix, vals, missing)"
    using assms(1) by (auto simp: reaches_def)
  show ?thesis
    using equality_in_range [OF assms(1) _ p(1,3,2) assms(5)] bare_condition [OF rc(3,2,1) p(1)] assms(2) nv by simp
qed

end
