(* ===== verification/IndexLookup.thy ===== *)
theory IndexLookup
  imports PlanBounds
begin

text \<open>
  The planner never drops a match: the ranges it reads in an index on one field hold an entry of
  every document that matches the filter, and the plan holds the ids of all these entries.
\<close>

declare flattenOrBranches.simps [simp del]

section \<open>The rows of an index on one field\<close>

lemma indexFieldValue_reached:
  assumes "reaches E doc k vals missing"
  shows "indexFieldValue doc k = Ok (case vals of [] \<Rightarrow> BNull | [v] \<Rightarrow> v | _ \<Rightarrow> BArray (flatten_values vals))"
    and "indexFieldPresent doc k = Ok (vals \<noteq> [])"
proof -
  obtain suffix where r: "no_dup (BDocument doc)" "filter_values doc k = Ok (suffix, vals, missing)"
    using assms by (auto simp: reaches_def)
  show "indexFieldValue doc k = Ok (case vals of [] \<Rightarrow> BNull | [v] \<Rightarrow> v | _ \<Rightarrow> BArray (flatten_values vals))"
    using r by (auto simp: indexFieldValue_def filter_values_def no_dup_get split: if_splits result.splits option.splits list.splits)
  show "indexFieldPresent doc k = Ok (vals \<noteq> [])"
    using r by (auto simp: indexFieldPresent_def filter_values_def no_dup_get split: if_splits result.splits option.splits)
qed

definition single_field :: "IndexInfo \<Rightarrow> string \<Rightarrow> bool" where
  "single_field idx k \<longleftrightarrow> (\<exists>kp. idx_key idx = [kp] \<and> kp_field kp = k)"

lemma rows_single:
  assumes "reaches E doc k vals missing" "single_field idx k" "MatchesPartialFilter E idx doc = Ok True"
    and "idx_sparse idx \<longrightarrow> vals \<noteq> []"
  shows "rows_of E idx doc = expandMultiKeyValues [case vals of [] \<Rightarrow> BNull | [v] \<Rightarrow> v | _ \<Rightarrow> BArray (flatten_values vals)]"
    and "multikey_in E idx doc \<longleftrightarrow> is_array (case vals of [] \<Rightarrow> BNull | [v] \<Rightarrow> v | _ \<Rightarrow> BArray (flatten_values vals))"
proof -
  obtain kp where kp: "idx_key idx = [kp]" "kp_field kp = k" using assms(2) by (auto simp: single_field_def)
  have "sparseExcludes doc idx = Ok False"
    using assms(4) kp indexFieldValue_reached(2) [OF assms(1)] by (simp add: sparseExcludes_def)
  moreover have "extractIndexFieldValues doc idx = Ok [case vals of [] \<Rightarrow> BNull | [v] \<Rightarrow> v | _ \<Rightarrow> BArray (flatten_values vals)]"
    using kp indexFieldValue_reached(1) [OF assms(1)] by (simp add: extractIndexFieldValues_def)
  ultimately have "indexEntriesForDoc E doc idx = Ok (expandMultiKeyValues [case vals of [] \<Rightarrow> BNull | [v] \<Rightarrow> v | _ \<Rightarrow> BArray (flatten_values vals)],
      is_array (case vals of [] \<Rightarrow> BNull | [v] \<Rightarrow> v | _ \<Rightarrow> BArray (flatten_values vals)),
      list_ex (list_ex ValueLossy) (expandMultiKeyValues [case vals of [] \<Rightarrow> BNull | [v] \<Rightarrow> v | _ \<Rightarrow> BArray (flatten_values vals)]))"
    using assms(3) by (simp add: indexEntriesForDoc_def Let_def)
  then show "rows_of E idx doc = expandMultiKeyValues [case vals of [] \<Rightarrow> BNull | [v] \<Rightarrow> v | _ \<Rightarrow> BArray (flatten_values vals)]"
    "multikey_in E idx doc \<longleftrightarrow> is_array (case vals of [] \<Rightarrow> BNull | [v] \<Rightarrow> v | _ \<Rightarrow> BArray (flatten_values vals))"
    by (simp_all add: rows_of_def multikey_in_def)
qed

lemma expand_one: "expandMultiKeyValues [v] = (case v of BArray arr \<Rightarrow> if arr = [] then [[BUndefined]] else map (\<lambda>x. [x]) arr | _ \<Rightarrow> [[v]])"
  by (cases v) (simp_all add: expandMultiKeyValues_def)

lemma expand_some: "\<exists>x. [x] \<in> set (expandMultiKeyValues [v])"
proof (cases v)
  case (BArray arr)
  then show ?thesis by (cases arr) (auto simp: expand_one)
qed (simp_all add: expand_one)

lemma flatten_candidates: "flatten_values vals = value_candidates vals"
proof -
  have "(\<lambda>v. case v of BArray arr \<Rightarrow> arr | _ \<Rightarrow> [v]) = (\<lambda>v. candidates (Some v))"
    by (rule ext) (simp split: bson.split)
  then show ?thesis by (simp add: flatten_values_def value_candidates_def)
qed

text \<open>Every value a condition can be met by has a row, and there is one such value unless the index is multikey.\<close>

lemma candidate_row:
  assumes "reaches E doc k vals missing" "single_field idx k" "MatchesPartialFilter E idx doc = Ok True"
    and "x \<in> set (value_candidates vals)"
  shows "[x] \<in> set (rows_of E idx doc)" "\<not> multikey_in E idx doc \<Longrightarrow> y \<in> set (value_candidates vals) \<Longrightarrow> y = x"
proof -
  have ne: "vals \<noteq> []" using assms(4) by (auto simp: value_candidates_def)
  note rows = rows_single [OF assms(1-3)]
  show "[x] \<in> set (rows_of E idx doc)"
    using assms(4) ne by (cases vals; cases "tl vals"; cases "hd vals")
      (auto simp: rows(1) expand_one flatten_candidates value_candidates_def split: if_splits)
  show "y = x" if "\<not> multikey_in E idx doc" "y \<in> set (value_candidates vals)"
    using assms(4) ne that by (cases vals; cases "tl vals"; cases "hd vals") (auto simp: rows(2) value_candidates_def)
qed

section \<open>The range of a condition\<close>

text \<open>The ranges hold an entry of the document, whatever its id.\<close>

definition covered :: "filter_env \<Rightarrow> conversions \<Rightarrow> IndexInfo \<Rightarrow> fields \<Rightarrow> (bytes \<times> bytes) list \<Rightarrow> bool" where
  "covered E C idx doc ranges \<longleftrightarrow>
     (\<exists>x. [x] \<in> set (rows_of E idx doc) \<and> (\<exists>(s, e)\<in>set ranges. \<forall>pid. in_bounds s e (BuildSecondaryKey C [x] pid)))"

lemma candidate_covered:
  assumes "reaches E doc k vals missing" "single_field idx k" "MatchesPartialFilter E idx doc = Ok True"
    and "\<exists>x\<in>set (value_candidates vals). \<exists>(s, e)\<in>set ranges. \<forall>pid. in_bounds s e (BuildSecondaryKey C [x] pid)"
  shows "covered E C idx doc ranges"
  using assms(4) candidate_row(1) [OF assms(1-3)] unfolding covered_def by blast

lemma isNullEquality_iff: "isNullEquality v \<longleftrightarrow> v = BNull \<or> v = BDocument [(''$eq'', BNull)]"
proof (cases v)
  case (BDocument fs)
  then show ?thesis by (cases fs; cases "tl fs"; cases "hd fs") (auto simp: isNullEquality_def)
qed (auto simp: isNullEquality_def)

text \<open>A document without the field has the entry of null in an index that is not sparse.\<close>

lemma null_covered:
  assumes "reaches E doc k vals missing" "single_field idx k" "MatchesPartialFilter E idx doc = Ok True"
    and "matches E doc k v" "isNullEquality v" "nullEqualityIndexable idx" "plain_condition v"
  shows "covered E C idx doc [(LowerBoundInclusive C BNull, UpperBoundInclusive C BNull)]"
proof -
  obtain suffix where r: "bigint_total (decimals E)" "no_dup (BDocument doc)" "\<not> HasPrefix k ''$''" "filter_values doc k = Ok (suffix, vals, missing)"
    by (rule reachesD [OF assms(1)])
  have k: "CHR ''.'' \<notin> set k" "\<not> idx_sparse idx"
    using assms(2,6) by (auto simp: nullEqualityIndexable_def single_field_def leading_field_def)
  have "v = BNull \<or> v = BDocument [(''$eq'', BNull)]" using assms(5) by (simp add: isNullEquality_iff)
  then have "op_matches (decimals E) (key_candidates doc k) (''$eq'', BNull)"
    using assms(4) bare_condition [OF r(4,3,1), of BNull] comparison_pair [OF r(4,2,3) _ r(1), of "''$eq''" BNull]
    by (auto simp: comparison_operators_def)
  then obtain x where x: "x \<in> set (key_candidates doc k)" "order_cmp (decimals E) x BNull = Equal" by (auto simp: op_matches_eq)
  have "same_type D y BNull \<Longrightarrow> y = BNull" for D y by (cases y) (auto simp: same_type_def dataType_defs split: if_splits)
  then have "x = BNull" using order_cmp_Equal_same_type [OF x(2)] by blast
  then have "BNull \<in> set (value_candidates vals) \<or> missing"
    using x(1) key_candidates_reached [OF r(4)] by (auto simp: value_candidates_def)
  then have "[BNull] \<in> set (rows_of E idx doc)"
  proof
    assume "BNull \<in> set (value_candidates vals)"
    then show ?thesis by (rule candidate_row(1) [OF assms(1-3)])
  next
    assume missing
    then have "vals = []" using r(4) k(1) by (auto simp: filter_values_def bind_result_Ok_iff)
    then show ?thesis using rows_single(1) [OF assms(1-3)] k(2) by (simp add: expand_one)
  qed
  moreover have "in_bounds (LowerBoundInclusive C BNull) (UpperBoundInclusive C BNull) (BuildSecondaryKey C [BNull] pid)" for pid
    using equality_entry [of BNull BNull "decimals E"] order_cmp_null [OF r(1), of BNull] by simp
  ultimately show ?thesis by (auto simp: covered_def)
qed

lemma exists_covered:
  assumes "reaches E doc k vals missing" "single_field idx k" "MatchesPartialFilter E idx doc = Ok True"
    and "matches E doc k v" "isExistsTrue v"
  shows "covered E C idx doc [([], [])]"
proof -
  obtain suffix where r: "bigint_total (decimals E)" "no_dup (BDocument doc)" "\<not> HasPrefix k ''$''" "filter_values doc k = Ok (suffix, vals, missing)"
    by (rule reachesD [OF assms(1)])
  obtain e where "v = BDocument [(''$exists'', e)]" "existsOperandTrue e"
    using assms(5) existsTruthy_operand by (auto simp: isExistsTrue_iff)
  then have ne: "vals \<noteq> []" using assms(4) exists_condition [OF r(4,2,3), where E = E] by simp
  have "\<exists>x. [x] \<in> set (rows_of E idx doc)"
    unfolding rows_single(1) [OF assms(1-3) impI [OF ne]] by (rule expand_some)
  then show ?thesis by (auto simp: covered_def in_bounds_def)
qed

text \<open>The bound for a multikey index keeps one side of the condition, which the document matches too.\<close>

lemma lower_operators_filter:
  assumes "distinct (map fst expr)" "set gs \<subseteq> set expr"
  shows "lower_operators expr (map fst gs) = Ok (filter (\<lambda>(op, v). op \<in> {''$gt'', ''$gte''}) gs)"
  using assms(2)
proof (induction gs)
  case (Cons g gs)
  then show ?case by (cases g) (auto simp: must_get_distinct [OF assms(1)])
qed simp

lemma sub_condition:
  assumes "reaches E doc k vals missing" "matches E doc k (BDocument expr)" "plain_condition (BDocument expr)"
    and "set sub \<subseteq> set expr" "distinct (map fst sub)" "sub \<noteq> []"
  shows "matches E doc k (BDocument sub) \<and> plain_condition (BDocument sub)"
proof
  show p: "plain_condition (BDocument sub)" using assms(3-6) by (auto simp: operator_expr_def list_all_iff)
  have d: "\<not> HasPrefix k ''$''" using assms(1) by (simp add: reaches_def)
  show "matches E doc k (BDocument sub)"
    using filterDocumentPair_conjunction [of sub k E doc None] pair_operator_True [OF assms(2,3) d] assms(4) p d
    by (fastforce simp: for_all_True plain_op_def list_all_iff)
qed

lemma scan_bound:
  assumes "reaches E doc k vals missing" "matches E doc k v" "plain_condition v" "exact_condition v" "multikeyScanBound v = Ok v'"
  shows "matches E doc k v' \<and> plain_condition v' \<and> exact_condition v' \<and> one_sided v'"
proof (cases "v' = v \<and> one_sided v")
  case False
  then obtain expr where e: "v = BDocument expr" "\<not> has_key expr ''$eq''" "has_key expr ''$gt'' \<or> has_key expr ''$gte''"
    "bind_result (lower_operators expr (map fst expr)) (\<lambda>fs. Ok (BDocument fs)) = Ok v'"
    using assms(5) by (cases v) (auto simp: multikeyScanBound_def simp del: bind_result_Ok_iff split: if_splits)
  let ?sub = "filter (\<lambda>(op, v). op \<in> {''$gt'', ''$gte''}) expr"
  have d: "distinct (map fst expr)" using assms(3) e(1) by (simp add: operator_expr_def)
  have v': "v' = BDocument ?sub" using e(4) lower_operators_filter [OF d order.refl] by simp
  have "?sub \<noteq> []" "distinct (map fst ?sub)" using e(3) d by (force simp: has_key_def filter_empty_conv, auto intro: distinct_map_filter)
  then have "matches E doc k v' \<and> plain_condition v'"
    using sub_condition [OF assms(1) assms(2,3) [unfolded e(1)], of ?sub] v' by auto
  moreover have "exact_condition v'" using assms(4) by (auto simp: e(1) v' list_all_iff)
  moreover have "one_sided v'" by (auto simp: v' has_key_def)
  ultimately show ?thesis by blast
qed (use assms in auto)

lemma set_sort_ranges: "set (sort_ranges rs) = set rs"
proof -
  have "set (insert_range r rs) = insert r (set rs)" for r rs by (induction rs) auto
  then show ?thesis unfolding sort_ranges_def by (induction rs) auto
qed

lemma covered_sort: "covered E C idx doc (sort_ranges rs) = covered E C idx doc rs"
  by (simp add: covered_def set_sort_ranges)

lemma in_covered:
  assumes "reaches E doc k vals missing" "single_field idx k" "MatchesPartialFilter E idx doc = Ok True"
    and "matches E doc k v" "plain_condition v" "exact_condition v" "\<forall>x\<in>set (value_candidates vals). indexable x"
    and "indexPointRangesForIn C v = Some ranges"
  shows "covered E C idx doc ranges"
proof -
  obtain suffix where r: "bigint_total (decimals E)" "no_dup (BDocument doc)" "\<not> HasPrefix k ''$''" "filter_values doc k = Ok (suffix, vals, missing)"
    by (rule reachesD [OF assms(1)])
  obtain vs where v: "v = BDocument [(''$in'', BArray vs)]" "\<forall>w\<in>set vs. \<not> no_index_operand w"
    "ranges = map (\<lambda>w. (LowerBoundInclusive C w, UpperBoundInclusive C w)) vs"
    using assms(8) by (auto simp: indexPointRangesForIn_def value_ranges_def list_ex_iff split: bson.splits list.splits if_splits)
  have p: "list_all plain_operand vs" "list_all exact_value vs" using assms(5,6) by (auto simp: v(1) plain_op_def)
  obtain w where w: "w \<in> set vs" "op_matches (decimals E) (key_candidates doc k) (''$eq'', w)"
    using assms(4) in_condition [OF r(4,2,3,1) p(1)] by (auto simp: v(1) list_ex_iff)
  show ?thesis
    by (rule candidate_covered [OF assms(1-3)])
      (use equality_in_range [OF assms(1) w(2) _ _ _ assms(7), of C] w(1) p v in \<open>fastforce simp: list_all_iff\<close>)
qed

lemma bounds_covered:
  assumes "reaches E doc k vals missing" "single_field idx k" "MatchesPartialFilter E idx doc = Ok True"
    and "matches E doc k v" "plain_condition v" "exact_condition v" "\<forall>x\<in>set (value_candidates vals). indexable x"
    and "one_sided v \<or> \<not> multikey_in E idx doc" "field_bounds (decimals E) C idx v = Ok (Some r)"
  shows "covered E C idx doc [r]"
proof -
  obtain b where b: "indexBoundsForFilterValue (decimals E) C v = Ok b"
    using assms(9) by (auto simp: field_bounds_def)
  show ?thesis
  proof (cases b)
    case None
    then show ?thesis
      using assms(9) b null_covered [OF assms(1-4) _ _ assms(5), where C = C] exists_covered [OF assms(1-4), where C = C]
      by (auto simp: field_bounds_def split: if_splits)
  next
    case (Some r')
    then have r: "indexBoundsForFilterValue (decimals E) C v = Ok (Some (fst r, snd r))" using assms(9) b by (simp add: field_bounds_def)
    have "one_sided v \<or> (\<forall>x\<in>set (value_candidates vals). \<forall>y\<in>set (value_candidates vals). x = y)"
      using assms(8) candidate_row(2) [OF assms(1-3)] by blast
    from bounds_sound [OF assms(1,4-7) this r] show ?thesis
      by (intro candidate_covered [OF assms(1-3)]) (auto simp: split_def)
  qed
qed

text \<open>The choice for a condition on the field of an index covers every document that meets it.\<close>

lemma condition_covered:
  assumes "reaches E doc k vals missing" "single_field idx k" "MatchesPartialFilter E idx doc = Ok True"
    and "matches E doc k v" "plain_condition v" "exact_condition v" "\<forall>x\<in>set (value_candidates vals). indexable x"
    and "multikey_in E idx doc \<longrightarrow> idx_multikey idx" "regex_condition v = Ok None"
    and "infos ! fe_mapIdx entry = idx" "\<not> fe_compound entry" "condition_choice E C infos flt entry v = Ok (Some choice)"
  shows "ch_mapIdx choice = fe_mapIdx entry \<and> covered E C idx doc (choice_ranges choice)"
proof (cases "indexPointRangesForIn C v")
  case (Some ranges)
  then show ?thesis
    using assms(10-12) in_covered [OF assms(1-7) Some] by (auto simp: condition_choice_def choice_ranges_def covered_sort)
next
  case None
  have re: "regexPrefixRanges E C v = Ok None" using assms(9) by (simp add: regexPrefixRanges_def)
  obtain v' r where v': "(if idx_multikey idx then multikeyScanBound v else Ok v) = Ok v'"
    "field_bounds (decimals E) C idx v' = Ok (Some r)"
    "choice = \<lparr>ch_mapIdx = fe_mapIdx entry, ch_start = fst r, ch_stop = snd r, ch_points = None\<rparr>"
    using assms(10-12) None re by (auto simp: condition_choice_def split: option.splits)
  have "matches E doc k v' \<and> plain_condition v' \<and> exact_condition v' \<and> (one_sided v' \<or> \<not> multikey_in E idx doc)"
    using scan_bound [OF assms(1,4-6)] v'(1) assms(4-6,8) by (auto split: if_splits)
  then have "covered E C idx doc [r]" using bounds_covered [OF assms(1-3) _ _ _ assms(7) _ v'(2)] by blast
  then show ?thesis by (simp add: v'(3) choice_ranges_def)
qed

section \<open>The choice of an index\<close>

text \<open>Indexes on one field with a partial filter the planner understands, and filters and documents whose keys are exact.\<close>

definition plain_index :: "IndexInfo \<Rightarrow> bool" where
  "plain_index info \<longleftrightarrow> length (idx_key info) = 1 \<and>
     (case idx_partial info of
        None \<Rightarrow> True
      | Some pfe \<Rightarrow> distinct (map fst pfe) \<and> list_all (\<lambda>(k, v). \<not> HasPrefix k ''$'' \<and> plain_partial v) pfe)"

definition plain_query :: "fields \<Rightarrow> bool" where
  "plain_query flt \<longleftrightarrow> distinct (map fst flt) \<and>
     list_all (\<lambda>(k, v). plain_condition v \<and> exact_condition v \<and> regex_condition v = Ok None) flt"

definition indexable_at :: "fields \<Rightarrow> fields \<Rightarrow> bool" where
  "indexable_at doc flt \<longleftrightarrow> list_all (\<lambda>(k, _). list_all indexable (key_candidates doc k)) flt"

definition good_entry :: "bigint_fun \<Rightarrow> fields \<Rightarrow> string \<Rightarrow> IndexInfo list \<Rightarrow> string \<Rightarrow> indexedFieldEntry \<Rightarrow> bool" where
  "good_entry D flt hintedName infos k e \<longleftrightarrow> fe_mapIdx e < length infos \<and> leading_field (infos ! fe_mapIdx e) = k \<and>
     usable_index D flt hintedName (infos ! fe_mapIdx e) = Ok True \<and> fe_compound e = (length (idx_key (infos ! fe_mapIdx e)) > 1)"

lemma index_entries_good:
  assumes "index_entries D flt h (length pre) idxs F = Ok F'" "\<forall>k e. F k = Some e \<longrightarrow> good_entry D flt h (pre @ idxs) k e" "F' k = Some e"
  shows "good_entry D flt h (pre @ idxs) k e"
  using assms
proof (induction idxs arbitrary: pre F)
  case (Cons idx idxs)
  define G where "G = (let leading = leading_field idx; isCompound = (length (idx_key idx) > 1);
      rank = indexRank isCompound (idx_partial idx \<noteq> None); entry = \<lparr>fe_mapIdx = length pre, fe_compound = isCompound, fe_rank = rank\<rparr>;
      better = (case F leading of None \<Rightarrow> True | Some cur \<Rightarrow> rank < fe_rank cur) in if better then F(leading \<mapsto> entry) else F)"
  obtain u where u: "usable_index D flt h idx = Ok u" using Cons.prems(1) by (auto simp: bind_result_Ok_iff)
  have rest: "index_entries D flt h (length (pre @ [idx])) idxs (if u then G else F) = Ok F'"
    using Cons.prems(1) u by (auto simp: G_def Let_def split: if_splits)
  have "\<forall>k e. (if u then G else F) k = Some e \<longrightarrow> good_entry D flt h ((pre @ [idx]) @ idxs) k e"
    using Cons.prems(2) u by (auto simp: G_def Let_def good_entry_def split: if_splits)
  from Cons.IH [OF rest this Cons.prems(3)] show ?case by simp
qed simp

lemma choose_loop_Some:
  "choose_loop E C infos F flt ks = Ok (Some choice) \<Longrightarrow>
   \<exists>k entry v. k \<in> set ks \<and> \<not> HasPrefix k ''$'' \<and> F k = Some entry \<and> get_value flt k = (Ok (Some v) :: (unit, bson option) result) \<and>
     condition_choice E C infos flt entry v = Ok (Some choice)"
proof (induction ks)
  case (Cons k ks)
  have IH: "choose_loop E C infos F flt ks = Ok (Some choice) \<Longrightarrow> ?case" using Cons.IH by auto
  show ?case using Cons.prems IH by (auto split: if_splits option.splits) blast
qed simp

lemma usable_partial:
  assumes "usable_index (decimals E) flt h info = Ok True" "plain_index info" "plain_query flt"
    and "FilterDocumentColl E doc flt None = Ok True" "bigint_total (decimals E)" "no_dup (BDocument doc)"
  shows "MatchesPartialFilter E info doc = Ok True"
proof (cases "idx_partial info")
  case (Some pfe)
  have "filterImpliesPartial (decimals E) flt pfe (idx_collation info = []) = Ok True"
    using assms(1) Some by (auto simp: usable_index_def split: if_splits)
  from implication_sound [OF this assms(4-6)] have "FilterDocumentColl E doc pfe None = Ok True"
    using assms(2,3) Some by (auto simp: plain_index_def plain_query_def list_all_iff)
  then show ?thesis by (simp add: MatchesPartialFilter_def Some)
qed (simp add: MatchesPartialFilter_def)

lemma choice_covered:
  assumes "chooseIndexRange E C infos flt hint = Ok (Some choice)" "\<forall>info\<in>set infos. plain_index info"
    and "\<forall>info\<in>set infos. multikey_in E info doc \<longrightarrow> idx_multikey info" "plain_query flt" "indexable_at doc flt"
    and "FilterDocumentColl E doc flt None = Ok True" "bigint_total (decimals E)" "no_dup (BDocument doc)"
  shows "ch_mapIdx choice < length infos \<and> covered E C (infos ! ch_mapIdx choice) doc (choice_ranges choice)"
proof -
  obtain h F where F: "index_entries (decimals E) flt h 0 infos Map.empty = Ok F" "choose_loop E C infos F flt (map fst flt) = Ok (Some choice)"
    using assms(1) by (auto simp: chooseIndexRange_def)
  obtain k entry v where k: "\<not> HasPrefix k ''$''" "F k = Some entry" "get_value flt k = (Ok (Some v) :: (unit, bson option) result)"
    "condition_choice E C infos flt entry v = Ok (Some choice)"
    using choose_loop_Some [OF F(2)] by blast
  let ?info = "infos ! fe_mapIdx entry"
  have good: "good_entry (decimals E) flt h infos k entry"
    using index_entries_good [of "decimals E" flt h "[]" infos Map.empty F k entry] F(1) k(2) by simp
  then have info: "?info \<in> set infos" "fe_mapIdx entry < length infos" by (auto simp: good_entry_def)
  have kv: "(k, v) \<in> set flt"
    using k(3) assms(4) by (auto simp: plain_query_def distinct_get field_get_map_of dest: map_of_SomeD)
  then have q: "plain_condition v" "exact_condition v" "regex_condition v = Ok None" "matches E doc k v"
    using assms(4,6) by (auto simp: plain_query_def list_all_iff filter_pair_True)
  obtain suffix vals missing where fv: "filter_values doc k = Ok (suffix, vals, missing)" by (rule pair_values [OF q(4)])
  then have r: "reaches E doc k vals missing" using assms(7,8) k(1) by (auto simp: reaches_def)
  have ix: "\<forall>x\<in>set (value_candidates vals). indexable x"
  proof
    fix x
    assume "x \<in> set (value_candidates vals)"
    then have "x \<in> set (key_candidates doc k)" unfolding key_candidates_reached [OF fv] by (auto simp: value_candidates_def)
    then show "indexable x" using assms(5) kv by (auto simp: indexable_at_def list_all_iff)
  qed
  have "length (idx_key ?info) = 1" using assms(2) info(1) by (simp add: plain_index_def)
  then obtain kp where "idx_key ?info = [kp]" by (auto simp: length_Suc_conv)
  then have one: "single_field ?info k" "\<not> fe_compound entry"
    using good by (auto simp: good_entry_def single_field_def leading_field_def)
  have "usable_index (decimals E) flt h ?info = Ok True" "plain_index ?info" using good assms(2) info(1) by (auto simp: good_entry_def)
  from usable_partial [OF this assms(4,6-8)] have m: "MatchesPartialFilter E ?info doc = Ok True" .
  have "multikey_in E ?info doc \<longrightarrow> idx_multikey ?info" using assms(3) info(1) by blast
  from condition_covered [OF r one(1) m q(4,1,2) ix this q(3) refl one(2) k(4)] info(2) show ?thesis by simp
qed

section \<open>The scan\<close>

text \<open>The ids of the entries in a list of ranges.\<close>

definition range_ids :: "bytes list \<Rightarrow> (bytes \<times> bytes) list \<Rightarrow> bytes set" where
  "range_ids es ranges = (\<Union>(s, e)\<in>set ranges. set (map snd (List.map_filter key_parts (filter (in_bounds s e) es))))"

lemma scan_ranges_ids:
  assumes "prolly_ok P entries" "scan_ranges P m keep n rs acc = Ok (Some (ids, vals))"
  shows "set ids = set (fst acc) \<union> range_ids (entries m) rs"
  using assms(2)
proof (induction rs arbitrary: acc)
  case (Cons r rs)
  obtain s e where r: "r = (s, e)" by (cases r)
  obtain idsAcc valsAcc where acc: "acc = (idsAcc, valsAcc)" by (cases acc)
  let ?parts = "List.map_filter key_parts (filter (in_bounds s e) (entries m))"
  obtain vs where "scan_ranges P m keep n rs (idsAcc @ map snd ?parts, vs) = Ok (Some (ids, vals))"
    using Cons.prems
    by (auto simp: r acc Let_def RangeEntriesCapped_def RangeLookupCapped_def rangeLookupCapped_ok [OF assms(1)] split: if_splits)
  from Cons.IH [OF this] show ?case by (simp add: r acc range_ids_def Un_assoc)
qed (simp add: range_ids_def)

lemma dedup_ids_set: "set (fst (dedup_ids keep seen ids vals)) = set ids - set seen"
proof (induction keep seen ids vals rule: dedup_ids.induct)
  case (1 keep seen i ids vals)
  have "set (fst (dedup_ids keep seen (i # ids) vals)) =
      (if i \<in> set seen then {} else {i}) \<union> set (fst (dedup_ids keep (if i \<in> set seen then seen else i # seen) ids (tl vals)))"
    by (simp add: Let_def split_def)
  then show ?case unfolding "1" by auto
qed simp

lemma scan_plan_ids:
  assumes "prolly_ok P entries" "scanIndexChoice P infos maps choice keep n = Ok (Some plan)"
  shows "ch_mapIdx choice < length maps \<and> set (plan_ids plan) = range_ids (entries (maps ! ch_mapIdx choice)) (choice_ranges choice)"
proof -
  have i: "ch_mapIdx choice < length maps" using assms(2) by (auto simp: scanIndexChoice_def split: if_splits)
  obtain ids vals where s: "scan_ranges P (maps ! ch_mapIdx choice) keep n (choice_ranges choice) ([], []) = Ok (Some (ids, vals))"
    "plan_ids plan = fst (dedup_ids keep [] ids vals)"
    using assms(2) i
    by (cases "scan_ranges P (maps ! ch_mapIdx choice) keep n (choice_ranges choice) ([], [])")
      (auto simp: scanIndexChoice_def split_def Let_def simp del: bind_result_Ok_iff split: option.splits)
  then show ?thesis using i scan_ranges_ids [OF assms(1) s(1)] by (simp add: dedup_ids_set)
qed

lemma covered_ids:
  assumes "covered E C info doc ranges" "document_id hashID doc = Ok pid" "length pid = primaryIDLen"
    and "entries_of E C hashID info doc \<subseteq> set es"
  shows "pid \<in> range_ids es ranges"
proof -
  obtain x s e where x: "[x] \<in> set (rows_of E info doc)" "(s, e) \<in> set ranges" "in_bounds s e (BuildSecondaryKey C [x] pid)"
    using assms(1) by (auto simp: covered_def)
  have "BuildSecondaryKey C [x] pid \<in> set es" using assms(2,4) x(1) by (auto simp: entries_of_def)
  moreover have "key_parts (BuildSecondaryKey C [x] pid) = Some (EncodeValue C x, pid)"
    unfolding entry_key by (rule key_parts_entry [OF assms(3)])
  ultimately show ?thesis using x(2,3) by (force simp: range_ids_def List.map_filter_def)
qed

text \<open>The union of the scans of several choices holds the ids of each.\<close>

lemma union_loop_ids:
  assumes "union_loop P infos maps n choices acc = Ok (Some plan)"
  shows "set (snd acc) \<subseteq> set (plan_ids plan) \<and>
    (\<forall>choice\<in>set choices. \<exists>n' plan'. scanIndexChoice P infos maps choice False n' = Ok (Some plan') \<and> set (plan_ids plan') \<subseteq> set (plan_ids plan))"
  using assms
proof (induction choices arbitrary: acc)
  case Nil
  then show ?case by (cases acc) auto
next
  case (Cons choice choices)
  obtain keys ids where acc: "acc = (keys, ids)" by (cases acc)
  obtain n' p where p: "scanIndexChoice P infos maps choice False n' = Ok (Some p)"
    "union_loop P infos maps n choices (keys + plan_keys p, ids @ filter (\<lambda>i. i \<notin> set ids) (plan_ids p)) = Ok (Some plan)"
    using Cons.prems by (auto simp: acc Let_def split: option.splits)
  from Cons.IH [OF p(2)] p(1) show ?case by (auto simp: acc)
qed

lemma within_half_reads:
  assumes "indexRangesWithinHalf primary_count reads countEntries = Ok (w, Some p)"
  shows "\<exists>n. reads n = Ok (Some p)"
  using assms by (auto simp: indexRangesWithinHalf_def Let_def split: if_splits)

lemma branch_choices_all:
  assumes "branch_choices E C infos flat = Ok (Some choices)" "b \<in> set flat"
  shows "\<exists>c\<in>set choices. chooseIndexRange E C infos b None = Ok (Some c)"
  using assms by (induction flat arbitrary: choices) (auto split: option.splits)

text \<open>The alternatives of a filter: the branches of a lone \<open>$or\<close>, nested ones in place.\<close>

definition branches_of :: "fields \<Rightarrow> fields list" where
  "branches_of flt = (if isLoneOr flt then case flattenOrBranches (snd (hd flt)) of Some flat \<Rightarrow> flat | None \<Rightarrow> [] else [flt])"

lemma for_some_True: "for_some f xs = Ok True \<Longrightarrow> \<exists>x\<in>set xs. f x = Ok True"
  by (induction xs) (auto simp: bind_result_Ok_iff split: if_splits)

lemma lone_or_match:
  assumes "isLoneOr flt" "FilterDocumentColl E doc flt None = Ok True"
  obtains exprs where "snd (hd flt) = BArray exprs" "\<exists>expr. BDocument expr \<in> set exprs \<and> FilterDocumentColl E doc expr None = Ok True"
proof -
  obtain v where v: "flt = [(''$or'', v)]" using assms(1) by (auto simp: isLoneOr_def split: list.splits)
  have "filterOperator E doc ''$or'' v None = Ok True"
    using assms(2) by (auto simp: v filter_pair_True filterDocumentPair.simps bind_result_Ok_iff)
  then obtain exprs where e: "v = BArray exprs" "for_some (\<lambda>e. case e of BDocument expr \<Rightarrow> FilterDocumentColl E doc expr None | _ \<Rightarrow> Panic) exprs = Ok True"
    by (cases v) (auto simp: filterOperator.simps split: if_splits)
  obtain x where x: "x \<in> set exprs" "(case x of BDocument expr \<Rightarrow> FilterDocumentColl E doc expr None | _ \<Rightarrow> Panic) = Ok True"
    using for_some_True [OF e(2)] by blast
  from x(2) obtain expr where "x = BDocument expr" by (cases x) simp_all
  then show thesis using that [of exprs] x v e(1) by auto
qed

lemma flatten_match:
  "flattenOrBranches v = Some flat \<Longrightarrow> v = BArray exprs \<Longrightarrow> BDocument expr \<in> set exprs \<Longrightarrow>
     FilterDocumentColl E doc expr None = Ok True \<Longrightarrow> \<exists>b\<in>set flat. FilterDocumentColl E doc b None = Ok True"
  "flatten_list bs = Some flat \<Longrightarrow> BDocument expr \<in> set bs \<Longrightarrow>
     FilterDocumentColl E doc expr None = Ok True \<Longrightarrow> \<exists>b\<in>set flat. FilterDocumentColl E doc b None = Ok True"
proof (induction v and bs arbitrary: flat exprs expr and flat expr rule: flattenOrBranches_flatten_list.induct)
  case (1 v)
  then show ?case by (auto simp: flattenOrBranches.simps [of "BArray exprs"] split: if_splits)
next
  case (3 b bs)
  obtain branch first rest where b: "b = BDocument branch" "flat = first @ rest" "flatten_list bs = Some rest"
    "(if isLoneOr branch then flattenOrBranches (snd (hd branch)) else Some [branch]) = Some first"
    using "3.prems"(1) by (auto split: bson.splits option.splits)
  consider "expr = branch" | "BDocument expr \<in> set bs" using "3.prems"(2) b(1) by auto
  then show ?case
  proof cases
    case 1
    show ?thesis
    proof (cases "isLoneOr branch")
      case True
      obtain es e where "snd (hd branch) = BArray es" "BDocument e \<in> set es" "FilterDocumentColl E doc e None = Ok True"
        using lone_or_match [OF True, of E doc] "3.prems"(3) 1 by blast
      then show ?thesis using "3.IH"(1) [OF b(1) True, of first es e] b(2,4) True by auto
    qed (use "3.prems"(3) b 1 in auto)
  next
    case 2
    then show ?thesis using "3.IH"(2) [OF b(1) _ b(3)] "3.prems"(3) b(2,4) by auto
  qed
qed simp

section \<open>Properties\<close>

lemma union_choices:
  assumes "planOrUnion E C P cardinality primary_count infos idxMaps v = Ok (Some plan)"
  shows "\<exists>flat choices n. flattenOrBranches v = Some flat \<and> branch_choices E C infos flat = Ok (Some choices) \<and>
    unionIndexChoices P infos idxMaps choices n = Ok (Some plan)"
proof -
  obtain flat where f: "flattenOrBranches v = Some flat"
    using assms by (cases "flattenOrBranches v") (simp_all add: planOrUnion_def)
  obtain choices where c: "branch_choices E C infos flat = Ok (Some choices)"
    using assms f by (auto simp: planOrUnion_def split: option.splits)
  let ?u = "unionIndexChoices P infos idxMaps choices"
  obtain w u where "indexRangesWithinHalf primary_count ?u (indexRangeEntries P cardinality idxMaps choices) = Ok (w, u)"
    "(if \<not> w \<or> u \<noteq> None then Ok u else ?u (-1)) = Ok (Some plan)"
    using assms f c by (auto simp: planOrUnion_def)
  then have "\<exists>n. ?u n = Ok (Some plan)" using within_half_reads [of primary_count ?u] by (auto split: if_splits)
  then show ?thesis using f c by blast
qed

lemma lookup_choice:
  assumes "readIndexLookup E C P cardinality primary_count infos idxMaps flt hint keepValues = Ok (Some plan)"
    and "FilterDocumentColl E doc flt None = Ok True"
  obtains branch choice hint' keep n plan' where "branch \<in> set (branches_of flt)" "FilterDocumentColl E doc branch None = Ok True"
    "chooseIndexRange E C infos branch hint' = Ok (Some choice)" "scanIndexChoice P infos idxMaps choice keep n = Ok (Some plan')"
    "set (plan_ids plan') \<subseteq> set (plan_ids plan)"
proof (cases "isLoneOr flt")
  case False
  obtain choice where "chooseIndexRange E C infos flt hint = Ok (Some choice)"
    "\<exists>n. scanIndexChoice P infos idxMaps choice keepValues n = Ok (Some plan)"
    using assms(1) False by (auto simp: readIndexLookup_def dest: within_half_reads split: if_splits option.splits)
  then show thesis using that [of flt hint choice] assms(2) False by (auto simp: branches_of_def)
next
  case True
  have or: "planOrUnion E C P cardinality primary_count infos idxMaps (snd (hd flt)) = Ok (Some plan)"
    using assms(1) True by (simp add: readIndexLookup_def split: if_splits)
  obtain flat choices n where f: "flattenOrBranches (snd (hd flt)) = Some flat" "branch_choices E C infos flat = Ok (Some choices)"
    "unionIndexChoices P infos idxMaps choices n = Ok (Some plan)"
    using union_choices [OF or] by (elim exE conjE)
  obtain exprs expr where expr: "snd (hd flt) = BArray exprs" "BDocument expr \<in> set exprs" "FilterDocumentColl E doc expr None = Ok True"
    by (rule lone_or_match [OF True assms(2)]) blast
  obtain b where b: "b \<in> set flat" "FilterDocumentColl E doc b None = Ok True"
    using flatten_match(1) [OF f(1) expr] by (elim bexE)
  obtain choice where c: "choice \<in> set choices" "chooseIndexRange E C infos b None = Ok (Some choice)"
    using branch_choices_all [OF f(2) b(1)] by blast
  obtain n' plan' where "scanIndexChoice P infos idxMaps choice False n' = Ok (Some plan')" "set (plan_ids plan') \<subseteq> set (plan_ids plan)"
    using union_loop_ids [OF f(3) [unfolded unionIndexChoices_def]] c(1) by auto
  moreover have "b \<in> set (branches_of flt)" unfolding branches_of_def using b(1) True f(1) by simp
  ultimately show thesis by (intro that [OF _ b(2) c(2)])
qed

text \<open>
  Property C7 (safety). An index lookup never drops a match: when the planner serves a filter from the indexes of a
  collection, whatever the history of inserts, updates and deletes, the plan holds the id of
  every document that matches the filter. The indexes are on one field each and may be partial
  (with the conditions of \<open>plain_partial\<close>), sparse or multikey; the filter may have a hint or
  be an \<open>$or\<close>, without collation. Its branches have distinct keys and \<open>plain_condition\<close>s with exact keys
  and no regexes; the values of the document on its paths have exact keys, except for the types
  that have none (documents, arrays, binary data, undefined), and are no Decimal128.
\<close>

theorem index_lookup_sound:
  assumes "history E P C hashID infos0 maps0 S infos maps" "prolly_ok P entries" "fresh E entries infos0 maps0"
    and "map (\<lambda>info. maps (idx_name info)) infos = map Some idxMaps" "\<forall>info\<in>set infos. plain_index info"
    and "readIndexLookup E C P cardinality primary_count infos idxMaps flt hint keepValues = Ok (Some plan)"
    and "doc \<in> S" "FilterDocumentColl E doc flt None = Ok True" "bigint_total (decimals E)"
    and "\<forall>branch\<in>set (branches_of flt). plain_query branch \<and> indexable_at doc branch"
  shows "\<exists>pid. document_id hashID doc = Ok pid \<and> pid \<in> set (plan_ids plan)"
proof -
  have inv: "in_step E C hashID entries infos maps S" "storable hashID doc" using history_in_step [OF assms(1-3)] assms(7) by auto
  obtain pid where pid: "document_id hashID doc = Ok pid" "length pid = primaryIDLen" and nd: "no_dup (BDocument doc)"
    using inv(2) by (auto simp: storable_def)
  obtain branch choice hint' keep n plan' where b: "branch \<in> set (branches_of flt)" "FilterDocumentColl E doc branch None = Ok True"
    "chooseIndexRange E C infos branch hint' = Ok (Some choice)" "scanIndexChoice P infos idxMaps choice keep n = Ok (Some plan')"
    "set (plan_ids plan') \<subseteq> set (plan_ids plan)"
    by (rule lookup_choice [OF assms(6,8)])
  have flags: "\<forall>info\<in>set infos. multikey_in E info doc \<longrightarrow> idx_multikey info"
    using inv(1) assms(7) by (auto simp: in_step_def holds_def)
  let ?i = "ch_mapIdx choice"
  have c: "?i < length infos" "covered E C (infos ! ?i) doc (choice_ranges choice)"
    using choice_covered [OF b(3) assms(5) flags _ _ b(2) assms(9) nd] assms(10) b(1) by auto
  have "maps (idx_name (infos ! ?i)) = Some (idxMaps ! ?i)"
    using arg_cong [OF assms(4), of "\<lambda>xs. xs ! ?i"] arg_cong [OF assms(4), of length] c(1) by simp
  then have "holds E C hashID entries (infos ! ?i) (idxMaps ! ?i) S" using inv(1) nth_mem [OF c(1)] by (auto simp: in_step_def)
  then have "entries_of E C hashID (infos ! ?i) doc \<subseteq> set (entries (idxMaps ! ?i))" using assms(7) by (auto simp: holds_def)
  from covered_ids [OF c(2) pid this] have "pid \<in> set (plan_ids plan')" using scan_plan_ids [OF assms(2) b(4)] by simp
  then show ?thesis using pid(1) b(5) by blast
qed

definition sample_cardinality :: "(bytes list, bytes) cardinality" where
  "sample_cardinality m lo hi = Ok (length m)"

definition plan_found :: "(unit, indexLookupPlan option) result \<Rightarrow> bool" where
  "plan_found r = (case r of Ok (Some plan) \<Rightarrow> True | _ \<Rightarrow> False)"

lemma plan_found_iff: "plan_found r \<longleftrightarrow> (\<exists>plan. r = Ok (Some plan))"
  by (auto simp: plan_found_def split: result.splits option.splits)

lemma sample_lookup:
  "case applyInsertsToIndexes sample_filter_env sample_prolly sample_conversions sample_hash [sample_info] sample_maps [sample_doc] of
     Ok (infos, maps) \<Rightarrow> infos = [add_flags sample_info True False] \<and> (case maps ''v_1'' of Some m \<Rightarrow>
       plan_found (readIndexLookup sample_filter_env sample_conversions sample_prolly sample_cardinality (Ok 2) infos [m]
          [(''v'', BDocument [(''$gt'', BInt32 6), (''$lt'', BInt32 6)])] None False) | _ \<Rightarrow> False) | _ \<Rightarrow> False"
  by code_simp

theorem index_lookup_sound_witness:
  "\<exists>infos maps m plan.
     history sample_filter_env sample_prolly sample_conversions sample_hash [sample_info] sample_maps {sample_doc} infos maps \<and>
     maps ''v_1'' = Some m \<and>
     readIndexLookup sample_filter_env sample_conversions sample_prolly sample_cardinality (Ok 2) infos [m]
       [(''v'', BDocument [(''$gt'', BInt32 6), (''$lt'', BInt32 6)])] None False = Ok (Some plan) \<and> sample_id 1 \<in> set (plan_ids plan)"
proof -
  let ?flt = "[(''v'', BDocument [(''$gt'', BInt32 6), (''$lt'', BInt32 6)])]" and ?info = "add_flags sample_info True False"
  obtain maps m plan where a: "applyInsertsToIndexes sample_filter_env sample_prolly sample_conversions sample_hash [sample_info] sample_maps
      [sample_doc] = Ok ([?info], maps)" "maps ''v_1'' = Some m"
    and r: "readIndexLookup sample_filter_env sample_conversions sample_prolly sample_cardinality (Ok 2) [?info] [m] ?flt None False = Ok (Some plan)"
    using sample_lookup by (auto simp: plan_found_iff split: result.splits option.splits)
  have id: "document_id sample_hash sample_doc = Ok (sample_id 1)" by code_simp
  then have "storable sample_hash sample_doc"
    by (simp add: storable_def sample_doc_def no_dup.simps(1) sample_id_def primaryIDLen_def)
  with history.inserts [OF history.start _ _ a(1)] have h: "history sample_filter_env sample_prolly sample_conversions sample_hash
      [sample_info] sample_maps {sample_doc} [?info] maps" by simp
  have "\<exists>pid. document_id sample_hash sample_doc = Ok pid \<and> pid \<in> set (plan_ids plan)"
  proof (rule index_lookup_sound [OF h sample_prolly_ok _ _ _ r])
    show "fresh sample_filter_env sample_entries [sample_info] sample_maps"
      by (simp add: fresh_def sample_maps_def sample_info_def index_ok_def) (simp add: sample_entries_def)
    show "map (\<lambda>info. maps (idx_name info)) [?info] = map Some [m]" using a(2) by (simp add: sample_info_def)
    show "\<forall>info\<in>set [?info]. plain_index info" by (simp add: plain_index_def sample_info_def add_flags_def)
    show "FilterDocumentColl sample_filter_env sample_doc ?flt None = Ok True" by code_simp
    show "\<forall>branch\<in>set (branches_of ?flt). plain_query branch \<and> indexable_at sample_doc branch" by code_simp
  qed (simp_all add: sample_filter_env_def sample_bigint_total)
  then show ?thesis using h a(2) r id by auto
qed

end
