(* ===== verification/CompoundBounds.thy ===== *)
theory CompoundBounds
  imports IndexLookup
begin

text \<open>
  Bounds on the leading field of a compound index. The rewrite of \<open>bracketSuffix\<close> supposes
  that the key of a value is followed by the next field or the discriminator; the key of a
  double that is not integral extends the key of its integer part instead.
\<close>

section \<open>Keys with a fraction\<close>

text \<open>\<open>f\<close> lies strictly between the integer \<open>q\<close> and its successor.\<close>

definition above_integer :: "float64 \<Rightarrow> int \<Rightarrow> bool" where
  "above_integer f q \<longleftrightarrow> q * U < f64_val f \<and> f64_val f < (q + 1) * U"

lemma div_between:
  assumes "0 < (u :: int)" "q * u < S" "S < (q + 1) * u"
  shows "S div u = q" "S mod u \<noteq> 0"
proof -
  show q: "S div u = q"
    by (rule int_div_pos_eq [of _ _ _ "S - q * u"]) (use assms in \<open>auto simp: algebra_simps\<close>)
  show "S mod u \<noteq> 0"
  proof
    assume "S mod u = 0"
    then have "S = q * u" using q div_mult_mod_eq [of S u] by simp
    then show False using assms(2) by simp
  qed
qed

lemma be8_small:
  assumes "n < 2 ^ 63"
  shows "\<exists>y s. be_bytes 8 n = y # s \<and> y < 0xFF"
proof -
  have step: "be_bytes (Suc k) n = word_of_nat (n div 256 ^ k) # be_bytes k n" for k n
  proof (induction k arbitrary: n)
    case (Suc k)
    then show ?case using Suc [of "n div 256"] by (simp add: div_mult2_eq)
  qed simp
  have "be_bytes 8 n = word_of_nat (n div 256 ^ 7) # be_bytes 7 n" using step [of 7 n] by simp
  moreover have "n div 256 ^ 7 < 128" using assms by (simp add: div_less_iff_less_mult)
  then have "(word_of_nat (n div 256 ^ 7) :: byte) < 0xFF" by (simp add: word_less_nat_alt unat_of_nat)
  ultimately show ?thesis by blast
qed

lemma fraction_key:
  assumes "in_key_range f" "above_integer f q" "q \<noteq> 0"
  shows "\<exists>y s. EncodeValue C (BDouble f) = int_key q @ y # s \<and> y < 0xFF"
proof -
  note b = assms(2) [unfolded above_integer_def]
  note d = div_between [OF U_pos b [THEN conjunct1] b [THEN conjunct2]]
  have "x mod u \<noteq> 0 \<Longrightarrow> x \<noteq> 0" for x u :: int by auto
  then have ne: "f64_val f \<noteq> 0" using d(2) by blast
  have "EncodeValue C (BDouble f) = num_key (f64_val f)" by (simp only: EncodeValue.simps encodeFloat64_key [OF assms(1)])
  also have "\<dots> = int_key q @ be_bytes 8 (fmag_round (nat (f64_val f mod U)))"
    unfolding num_key_def frac_key_def d(1) using ne d(2) by (simp only: if_False simp_thms)
  finally show ?thesis using be8_small [of "fmag_round (nat (f64_val f mod U))"] fmag_round_less [of "nat (f64_val f mod U)"] by auto
qed

section \<open>Properties\<close>

lemma integer_key: "sint i \<noteq> 0 \<Longrightarrow> EncodeValue C (BInt32 i) = int_key (sint i)"
  using encodeInt64_num_key [of "scast i"] num_key_int [of "sint i"] sint_range_size [of i]
  by (simp add: sint_scast word_size)

lemma above_integer_greater:
  assumes "key_exact (BDouble f)" "in_key_range f" "above_integer f (sint i)" "sint i \<noteq> 0"
  shows "order_cmp D (BDouble f) (BInt32 i) = Greater"
proof -
  obtain y s where "EncodeValue sample_conversions (BDouble f) = int_key (sint i) @ y # s"
    using fraction_key [OF assms(2-4)] by blast
  then have "bytes_compare (EncodeValue sample_conversions (BDouble f)) (EncodeValue sample_conversions (BInt32 i)) = Greater"
    using bytes_compare_prefix [of "int_key (sint i)" "y # s" "[]"] by (simp add: integer_key [OF assms(4)] del: EncodeValue.simps)
  then show ?thesis using key_string.enc_compare [OF assms(1), of "BInt32 i" sample_conversions D] by simp
qed

lemma gt_bounds:
  "indexBoundsForFilterValue D C (BDocument [(''$gt'', BInt32 i)]) =
     Ok (Some (EncodeValue C (BInt32 i) @ [discriminator + 1], [ctypePosInf + 1]))"
  by (simp add: indexBoundsForFilterValue_def no_index_operand_def set_lower_def range_bounds_def lower_key_def
      LowerBoundExclusive_def get_value_def)

lemma gt_compound_bounds:
  assumes "idx_key idx = [kp, kp']" "\<not> kp_descending kp" "kp_field kp = k"
  shows "\<exists>e. compoundIndexBounds D C idx [(k, BDocument [(''$gt'', BInt32 i)])] = Ok (Some (EncodeValue C (BInt32 i) @ [0xFF], e))"
proof -
  let ?v = "BDocument [(''$gt'', BInt32 i)]"
  have "multikeyScanBound ?v = Ok ?v" by (simp add: multikeyScanBound_def has_key_def)
  moreover have "indexEqualityValue ?v = None" by (simp add: indexEqualityValue_def)
  ultimately show ?thesis
    using assms by (simp add: compoundIndexBounds_def gt_bounds compoundLeadingBounds_def bracketSuffix_def discriminator_def get_value_def)
qed

text \<open>
  Property C38 (error). A range on the leading field of a compound index drops matches: for a document whose value
  lies between the integer of the condition \<open>$gt\<close> and its successor, the filter matches and
  the entry is outside the bounds of the scan, whatever the other fields.
\<close>

theorem compound_range_misses:
  assumes "idx_key idx = [kp, kp']" "\<not> kp_descending kp" "kp_field kp = k" "CHR ''.'' \<notin> set k" "\<not> HasPrefix k ''$''"
    and "no_dup (BDocument doc)" "field_get doc k = Some (BDouble f)" "bigint_total (decimals E)"
    and "key_exact (BDouble f)" "in_key_range f" "above_integer f (sint i)" "sint i \<noteq> 0"
  shows "FilterDocumentColl E doc [(k, BDocument [(''$gt'', BInt32 i)])] None = Ok True \<and>
    (\<exists>s e. compoundIndexBounds (decimals E) C idx [(k, BDocument [(''$gt'', BInt32 i)])] = Ok (Some (s, e)) \<and>
       \<not> in_bounds s e (BuildSecondaryKey C [BDouble f, w] pid))"
proof -
  let ?flt = "[(k, BDocument [(''$gt'', BInt32 i)])]"
  have fv: "filter_values doc k = Ok (k, [BDouble f], False)"
    using assms(4,6,7) by (simp add: filter_values_def no_dup_get)
  have "order_cmp (decimals E) (BDouble f) (BInt32 i) = Greater" by (rule above_integer_greater [OF assms(9-12)])
  moreover have "same_type (decimals E) (BDouble f) (BInt32 i)"
    using assms(10) f64_finite_kinds [of f] by (auto simp: same_type_def in_key_range_def dataType_defs)
  ultimately have "op_matches (decimals E) (key_candidates doc k) (''$gt'', BInt32 i)"
    using key_candidates_reached [OF fv] by (auto simp: op_matches_def comparison_operators_def)
  then have m: "FilterDocumentColl E doc ?flt None = Ok True"
    unfolding FilterDocumentColl_single
    by (subst comparison_condition [OF fv assms(6,5) _ assms(8)]) (simp_all add: comparison_expr_def comparison_operators_def)
  obtain e where e: "compoundIndexBounds (decimals E) C idx ?flt = Ok (Some (EncodeValue C (BInt32 i) @ [0xFF], e))"
    using gt_compound_bounds [OF assms(1-3)] by blast
  obtain y s where y: "EncodeValue C (BDouble f) = EncodeValue C (BInt32 i) @ y # s" "y < 0xFF"
    using fraction_key [OF assms(10-12)] integer_key [OF assms(12)] by fastforce
  then have "bytes_compare (EncodeValue C (BInt32 i) @ [0xFF]) (BuildSecondaryKey C [BDouble f, w] pid) = Greater"
    by (auto simp: BuildSecondaryKey_def simp del: EncodeValue.simps)
  then show ?thesis using m e by (auto simp: in_bounds_def)
qed

definition sample_compound :: IndexInfo where
  "sample_compound = sample_info\<lparr>idx_name := ''a_1_b_1'',
     idx_key := [\<lparr>kp_field = ''a'', kp_descending = False, kp_text = False, kp_geo2DSphere = False, kp_geo2D = False, kp_hashed = False\<rparr>, \<lparr>kp_field = ''b'', kp_descending = False, kp_text = False, kp_geo2DSphere = False, kp_geo2D = False, kp_hashed = False\<rparr>]\<rparr>"

theorem compound_range_misses_witness:
  "FilterDocumentColl sample_filter_env [(''a'', BDouble 0x4016000000000000), (''b'', BInt32 1)]
     [(''a'', BDocument [(''$gt'', BInt32 5)])] None = Ok True \<and>
   (\<exists>s e. compoundIndexBounds sample_bigint sample_conversions sample_compound [(''a'', BDocument [(''$gt'', BInt32 5)])] = Ok (Some (s, e)) \<and>
      \<not> in_bounds s e (BuildSecondaryKey sample_conversions [BDouble 0x4016000000000000, BInt32 1] (sample_id 1)))"
proof -
  have r: "in_key_range 0x4016000000000000"
    by (simp add: in_key_range_def f64_finite_def f64_val_def f64_neg_def f64_mag_def fmag_val_def)
  moreover have "exact_fraction 0x4016000000000000"
    by (simp add: exact_fraction_def f64_val_def f64_neg_def f64_mag_def fmag_val_def)
  ultimately have k: "key_exact (BDouble 0x4016000000000000)" by simp
  have a: "above_integer 0x4016000000000000 (sint (5 :: int32))"
    by (simp add: above_integer_def f64_val_def f64_neg_def f64_mag_def fmag_val_def)
  have D: "decimals sample_filter_env = sample_bigint" by (simp add: sample_filter_env_def)
  show ?thesis
    by (rule compound_range_misses [where k = "''a''" and E = sample_filter_env and
        kp = "\<lparr>kp_field = ''a'', kp_descending = False, kp_text = False, kp_geo2DSphere = False, kp_geo2D = False, kp_hashed = False\<rparr>" and kp' = "\<lparr>kp_field = ''b'', kp_descending = False, kp_text = False, kp_geo2DSphere = False, kp_geo2D = False, kp_hashed = False\<rparr>", unfolded D, OF _ _ _ _ _ _ _ _ k r a])
      (simp_all add: sample_compound_def sample_bigint_total no_dup.simps(1))
qed

end
