(* ===== verification/Waiting.thy ===== *)
theory Waiting
  imports Prelude
begin

text \<open>
  Loops that wait for a condition on shared state. They test the condition under a mutex, read
  the current notification channel, and sleep until it is closed or the context is done; whoever
  changes the state closes the channel and puts a fresh one in its place. A channel is the number
  of channels before it, so it is closed when the number has moved on.
\<close>

datatype wait_status = Checking | Parked nat | Returned | Expired

inductive wait_step :: "('s \<Rightarrow> nat) \<Rightarrow> ('s \<Rightarrow> bool) \<Rightarrow> 's \<Rightarrow> wait_status \<Rightarrow> wait_status \<Rightarrow> bool" for gen ready s where
  finish: "ready s \<Longrightarrow> wait_step gen ready s Checking Returned"
| park: "\<not> ready s \<Longrightarrow> wait_step gen ready s Checking (Parked (gen s))"
| wake: "gen s \<noteq> g \<Longrightarrow> wait_step gen ready s (Parked g) Checking"
| expire: "wait_step gen ready s (Parked g) Expired"

inductive_simps wait_step_simps:
  "wait_step gen ready s Checking w"
  "wait_step gen ready s (Parked g) w"
  "wait_step gen ready s Returned w"
  "wait_step gen ready s Expired w"

text \<open>A waiter among the steps of others: \<open>env\<close> changes the state, \<open>waits\<close> the waiter.\<close>

inductive wait_run ::
  "('s \<Rightarrow> 's \<Rightarrow> bool) \<Rightarrow> ('s \<Rightarrow> wait_status \<Rightarrow> wait_status \<Rightarrow> bool) \<Rightarrow> 's \<times> wait_status \<Rightarrow> 's \<times> wait_status \<Rightarrow> bool"
  for env waits c where
  start: "wait_run env waits c c"
| other: "wait_run env waits c (s, w) \<Longrightarrow> env s t \<Longrightarrow> wait_run env waits c (t, w)"
| waiter: "wait_run env waits c (s, w) \<Longrightarrow> waits s w w' \<Longrightarrow> wait_run env waits c (s, w')"

lemma wait_run_env: "wait_run env waits c c' \<Longrightarrow> env\<^sup>*\<^sup>* (fst c) (fst c')"
  by (induction rule: wait_run.induct) auto

text \<open>The waiter alone.\<close>

abbreviation (input) alone :: "'s \<Rightarrow> 's \<Rightarrow> bool" where "alone \<equiv> \<lambda>_ _. False"

section \<open>The contract between waiters and the others\<close>

text \<open>
  \<open>blocked\<close> holds when a waiter goes to sleep and lasts until a step notifies. A waiter
  that sleeps on the current channel is blocked then, so no wakeup is lost.
\<close>

locale waiting =
  fixes gen :: "'s \<Rightarrow> nat" and ready :: "'s \<Rightarrow> bool" and blocked :: "'s \<Rightarrow> bool" and env :: "'s \<Rightarrow> 's \<Rightarrow> bool"
  assumes sleeps: "\<not> ready s \<Longrightarrow> blocked s"
    and channels: "env s t \<Longrightarrow> gen s \<le> gen t"
    and silent: "env s t \<Longrightarrow> gen t = gen s \<Longrightarrow> blocked s \<Longrightarrow> blocked t"
begin

lemma parked_blocked:
  assumes "wait_run env (wait_step gen ready) (s0, Checking) (s, Parked g)"
  shows "g \<le> gen s \<and> (gen s = g \<longrightarrow> blocked s)"
proof -
  have "case snd c of Parked g \<Rightarrow> g \<le> gen (fst c) \<and> (gen (fst c) = g \<longrightarrow> blocked (fst c)) | _ \<Rightarrow> True"
    if "wait_run env (wait_step gen ready) (s0, Checking) c" for c
    using that
  proof (induction rule: wait_run.induct)
    case (other s w t)
    then show ?case using channels [OF other(2)] silent [OF other(2)] by (cases w) auto
  next
    case (waiter s w w')
    then show ?case using sleeps by (cases w) (auto simp: wait_step_simps)
  qed simp
  from this [OF assms] show ?thesis by simp
qed

lemma free_returns:
  assumes "wait_run env (wait_step gen ready) (s0, Checking) (s, w)" "w \<noteq> Expired" "\<not> blocked s"
  shows "wait_run alone (wait_step gen ready) (s, w) (s, Returned)"
proof -
  have check: "wait_run alone (wait_step gen ready) (s, Checking) (s, Returned)"
    by (rule wait_run.waiter [OF wait_run.start]) (use sleeps assms(3) in \<open>auto simp: wait_step_simps\<close>)
  show ?thesis
  proof (cases w)
    case (Parked g)
    then have "gen s \<noteq> g" using parked_blocked [of s0 s g] assms by blast
    then have "wait_run alone (wait_step gen ready) (s, w) (s, Checking)"
      unfolding Parked by (intro wait_run.waiter [OF wait_run.start] wait_step.wake)
    then show ?thesis by (rule wait_run.waiter) (use sleeps assms(3) in \<open>auto simp: wait_step_simps\<close>)
  qed (use check assms(2) in \<open>auto intro: wait_run.start\<close>)
qed

end

end
