(* ===== verification/DocLocks.thy ===== *)
theory DocLocks
  imports IndexMaintenance Waiting
begin

text \<open>
  Document locks of client transactions (\<open>internal/backends/dolt/doc_locks.go\<close>): granting and
  releasing locks, and ordinary writes that wait for them. Go maps are association lists with
  distinct keys; every method runs under the mutex of the manager and is one step.
\<close>

section \<open>The lock manager\<close>

record lockEntry =
  le_owner :: string
  le_waitable :: bool

type_synonym coll_locks = "(bytes \<times> lockEntry) list"

record DocLockManager =
  dl_locks :: "(string \<times> coll_locks) list"
  dl_notify :: nat

definition NewDocLockManager :: DocLockManager where
  "NewDocLockManager = \<lparr>dl_locks = [], dl_notify = 0\<rparr>"

datatype lock_error = ErrOwnerEmpty | ErrWriteConflict | ErrDocumentID

definition other_holds :: "string \<Rightarrow> coll_locks \<Rightarrow> bytes \<Rightarrow> bool" where
  "other_holds owner collLocks i = (case map_of collLocks i of Some e \<Rightarrow> le_owner e \<noteq> owner | None \<Rightarrow> False)"

definition Acquire :: "DocLockManager \<Rightarrow> string \<Rightarrow> string \<Rightarrow> bytes list \<Rightarrow> bool \<Rightarrow> (lock_error, DocLockManager) result" where
  "Acquire m owner collection ids waitable =
     (if owner = [] then Err ErrOwnerEmpty
      else let collLocks = (case map_of (dl_locks m) collection of Some cl \<Rightarrow> cl | None \<Rightarrow> []) in
        if list_ex (other_holds owner collLocks) ids then Err ErrWriteConflict
        else Ok (m\<lparr>dl_locks := AList.update collection
          (fold (\<lambda>i. AList.update i \<lparr>le_owner = owner, le_waitable = waitable\<rparr>) ids collLocks) (dl_locks m)\<rparr>))"

definition Release :: "DocLockManager \<Rightarrow> string \<Rightarrow> DocLockManager" where
  "Release m owner =
     m\<lparr>dl_locks := filter (\<lambda>(coll, cl). cl \<noteq> [])
         (map (\<lambda>(coll, cl). (coll, filter (\<lambda>(i, e). le_owner e \<noteq> owner) cl)) (dl_locks m)),
       dl_notify := Suc (dl_notify m)\<rparr>"

definition anyHeld :: "DocLockManager \<Rightarrow> string \<Rightarrow> bytes list \<Rightarrow> bool" where
  "anyHeld m collection ids =
     (case map_of (dl_locks m) collection of
        None \<Rightarrow> False
      | Some collLocks \<Rightarrow> list_ex (\<lambda>i. case map_of collLocks i of Some e \<Rightarrow> le_waitable e | None \<Rightarrow> False) ids)"

definition Holds :: "DocLockManager \<Rightarrow> string \<Rightarrow> string \<Rightarrow> bytes \<Rightarrow> bool" where
  "Holds m owner collection i =
     (case map_of (dl_locks m) collection of
        None \<Rightarrow> False
      | Some collLocks \<Rightarrow> (case map_of collLocks i of Some e \<Rightarrow> le_owner e = owner | None \<Rightarrow> False))"

text \<open>The loop of \<open>WaitUntilFree\<close>, one step at a time.\<close>

definition WaitUntilFree :: "string \<Rightarrow> bytes list \<Rightarrow> DocLockManager \<Rightarrow> wait_status \<Rightarrow> wait_status \<Rightarrow> bool" where
  "WaitUntilFree collection ids = wait_step dl_notify (\<lambda>m. ids = [] \<or> \<not> anyHeld m collection ids)"

section \<open>Writes\<close>

text \<open>
  What a write gets: the manager with its locks, or the duty to wait. \<open>owner\<close> is that of the
  client transaction of the connection, if it has one.
\<close>

datatype lock_grant = Granted DocLockManager | MustWait

definition acquireTxnLocks :: "DocLockManager \<Rightarrow> string option \<Rightarrow> string \<Rightarrow> bytes list \<Rightarrow> bool \<Rightarrow> (lock_error, lock_grant) result" where
  "acquireTxnLocks m owner collection ids waitable =
     (if ids = [] then Ok (Granted m)
      else case owner of
        None \<Rightarrow> Ok MustWait
      | Some own \<Rightarrow> bind_result (Acquire m own collection ids waitable) (\<lambda>m'. Ok (Granted m')))"

fun idsFromDocs :: "id_hash \<Rightarrow> fields list \<Rightarrow> (lock_error, bytes list) result" where
  "idsFromDocs hashID [] = Ok []"
| "idsFromDocs hashID (d # docs) =
     (case document_id hashID d of
        Ok h \<Rightarrow> bind_result (idsFromDocs hashID docs) (\<lambda>out. Ok (h # out))
      | Err _ \<Rightarrow> Err ErrDocumentID
      | Panic \<Rightarrow> Panic)"

fun idsFromValues :: "id_hash \<Rightarrow> bson list \<Rightarrow> (lock_error, bytes list) result" where
  "idsFromValues hashID [] = Ok []"
| "idsFromValues hashID (v # idVals) =
     (case hashID v of
        Ok h \<Rightarrow> bind_result (idsFromValues hashID idVals) (\<lambda>out. Ok (h # out))
      | Err _ \<Rightarrow> Err ErrDocumentID
      | Panic \<Rightarrow> Panic)"

definition acquireInsertLocks :: "id_hash \<Rightarrow> DocLockManager \<Rightarrow> string option \<Rightarrow> string \<Rightarrow> fields list \<Rightarrow> (lock_error, lock_grant) result" where
  "acquireInsertLocks hashID m owner collection docs =
     bind_result (idsFromDocs hashID docs) (\<lambda>ids. acquireTxnLocks m owner collection ids False)"

definition acquireUpdateLocks :: "id_hash \<Rightarrow> DocLockManager \<Rightarrow> string option \<Rightarrow> string \<Rightarrow> fields list \<Rightarrow> (lock_error, lock_grant) result" where
  "acquireUpdateLocks hashID m owner collection docs =
     bind_result (idsFromDocs hashID docs) (\<lambda>ids. acquireTxnLocks m owner collection ids True)"

definition acquireDeleteLocks :: "id_hash \<Rightarrow> DocLockManager \<Rightarrow> string option \<Rightarrow> string \<Rightarrow> bson list \<Rightarrow> (lock_error, lock_grant) result" where
  "acquireDeleteLocks hashID m owner collection idVals =
     bind_result (idsFromValues hashID idVals) (\<lambda>ids. acquireTxnLocks m owner collection ids True)"

section \<open>The owners of documents\<close>

text \<open>The abstract state: who owns which document of which collection.\<close>

definition locked :: "DocLockManager \<Rightarrow> string \<times> bytes \<Rightarrow> lockEntry option" where
  "locked m = (\<lambda>(coll, i). case map_of (dl_locks m) coll of None \<Rightarrow> None | Some cl \<Rightarrow> map_of cl i)"

definition locks_wf :: "DocLockManager \<Rightarrow> bool" where
  "locks_wf m \<longleftrightarrow> distinct (map fst (dl_locks m)) \<and> list_all (\<lambda>(coll, cl). distinct (map fst cl)) (dl_locks m)"

lemma Holds_locked: "Holds m owner coll i \<longleftrightarrow> (\<exists>e. locked m (coll, i) = Some e \<and> le_owner e = owner)"
  by (auto simp: Holds_def locked_def split: option.splits)

lemma anyHeld_locked: "anyHeld m coll ids \<longleftrightarrow> (\<exists>i\<in>set ids. \<exists>e. locked m (coll, i) = Some e \<and> le_waitable e)"
  by (auto simp: anyHeld_def locked_def list_ex_iff split: option.splits)

lemma map_of_update: "map_of (AList.update k v al) = (map_of al)(k \<mapsto> v)"
  by (simp add: update_conv')

lemma fold_update:
  "map_of (fold (\<lambda>i. AList.update i e) ids cl) = (\<lambda>i. if i \<in> set ids then Some e else map_of cl i)"
  by (induction ids arbitrary: cl) (auto simp: map_of_update fun_eq_iff)

lemma distinct_fold_update: "distinct (map fst cl) \<Longrightarrow> distinct (map fst (fold (\<lambda>i. AList.update i e) ids cl))"
  by (induction ids arbitrary: cl) (auto intro: distinct_update)

lemma Acquire_locked:
  assumes "owner \<noteq> []"
  shows "Acquire m owner coll ids waitable = Err ErrWriteConflict \<longleftrightarrow> (\<exists>i\<in>set ids. \<exists>e. locked m (coll, i) = Some e \<and> le_owner e \<noteq> owner)"
    and "Acquire m owner coll ids waitable = Ok m' \<Longrightarrow> dl_notify m' = dl_notify m \<and>
      locked m' = (\<lambda>(c, i). if c = coll \<and> i \<in> set ids then Some \<lparr>le_owner = owner, le_waitable = waitable\<rparr> else locked m (c, i))"
    and "Acquire m owner coll ids waitable \<noteq> Panic"
  using assms
  by (auto simp: Acquire_def Let_def other_holds_def locked_def list_ex_iff map_of_update fold_update fun_eq_iff split: option.splits if_splits)

lemma map_of_map_snd: "map_of (map (\<lambda>(k, v). (k, f v)) al) k = map_option f (map_of al k)"
  by (induction al) auto

lemma map_of_filter_snd:
  "distinct (map fst al) \<Longrightarrow> map_of (filter (\<lambda>(k, v). P v) al) k = (case map_of al k of Some v \<Rightarrow> if P v then Some v else None | None \<Rightarrow> None)"
proof (induction al)
  case (Cons a al)
  obtain k' v where "a = (k', v)" by (cases a)
  moreover have "map_of al k' = None" "map_of (filter (\<lambda>(k, v). P v) al) k' = None"
    using Cons.prems calculation by (auto simp: map_of_eq_None_iff image_iff)
  ultimately show ?case using Cons by auto
qed simp

lemma fst_map_snd: "map fst (map (\<lambda>(k, v). (k, f v)) al) = map fst al"
  by (induction al) auto

lemma Release_locked:
  assumes "locks_wf m"
  shows "locked (Release m owner) = (\<lambda>p. case locked m p of Some e \<Rightarrow> if le_owner e = owner then None else Some e | None \<Rightarrow> None)"
proof
  fix p :: "string \<times> bytes"
  obtain coll i where p: "p = (coll, i)" by (cases p)
  let ?f = "filter (\<lambda>(i, e). le_owner e \<noteq> owner)"
  have d: "distinct (map fst (map (\<lambda>(coll, cl). (coll, ?f cl)) (dl_locks m)))"
    using assms unfolding fst_map_snd by (simp add: locks_wf_def)
  have outer: "map_of (dl_locks (Release m owner)) coll =
      (case map_of (dl_locks m) coll of Some cl \<Rightarrow> if ?f cl = [] then None else Some (?f cl) | None \<Rightarrow> None)"
    using map_of_filter_snd [OF d, of "\<lambda>cl. cl \<noteq> []" coll]
    by (simp add: Release_def map_of_map_snd split: option.split)
  show "locked (Release m owner) p = (case locked m p of Some e \<Rightarrow> if le_owner e = owner then None else Some e | None \<Rightarrow> None)"
  proof (cases "map_of (dl_locks m) coll")
    case (Some cl)
    then have "distinct (map fst cl)" using assms by (auto simp: locks_wf_def list_all_iff dest: map_of_SomeD)
    from map_of_filter_snd [OF this, of "\<lambda>e. le_owner e \<noteq> owner" i] Some show ?thesis
      by (auto simp: p locked_def outer split: option.splits)
  qed (simp add: p locked_def outer)
qed

lemma update_all: "list_all (\<lambda>(k, v). P v) al \<Longrightarrow> P w \<Longrightarrow> list_all (\<lambda>(k, v). P v) (AList.update k w al)"
  by (induction al) auto

lemma Acquire_wf: "locks_wf m \<Longrightarrow> Acquire m owner coll ids waitable = Ok m' \<Longrightarrow> locks_wf m'"
proof -
  assume w: "locks_wf m" and a: "Acquire m owner coll ids waitable = Ok m'"
  have "distinct (map fst (case map_of (dl_locks m) coll of Some cl \<Rightarrow> cl | None \<Rightarrow> []))"
    using w by (auto simp: locks_wf_def list_all_iff dest: map_of_SomeD split: option.splits)
  then have "distinct (map fst (fold (\<lambda>i. AList.update i \<lparr>le_owner = owner, le_waitable = waitable\<rparr>) ids
      (case map_of (dl_locks m) coll of Some cl \<Rightarrow> cl | None \<Rightarrow> [])))" by (rule distinct_fold_update)
  then show ?thesis
    using w a update_all [of "\<lambda>cl. distinct (map fst cl)" "dl_locks m"]
    by (auto simp: locks_wf_def Acquire_def Let_def distinct_update split: if_splits)
qed

lemma Release_wf: "locks_wf m \<Longrightarrow> locks_wf (Release m owner)"
proof -
  assume w: "locks_wf m"
  let ?g = "\<lambda>(coll, cl). (coll, filter (\<lambda>(i, e). le_owner e \<noteq> owner) cl)"
  have "distinct (map fst (map ?g (dl_locks m)))" unfolding fst_map_snd using w by (simp add: locks_wf_def)
  then have "distinct (map fst (filter (\<lambda>(coll, cl). cl \<noteq> []) (map ?g (dl_locks m))))" by (rule distinct_map_filter)
  moreover have "list_all (\<lambda>(coll, cl). distinct (map fst cl)) (map ?g (dl_locks m))"
    using w by (auto simp: locks_wf_def list_all_iff intro: distinct_map_filter)
  ultimately show ?thesis by (auto simp: locks_wf_def Release_def list_all_iff)
qed

section \<open>Steps of transactions\<close>

inductive lock_step :: "id_hash \<Rightarrow> DocLockManager \<Rightarrow> DocLockManager \<Rightarrow> bool" for hashID where
  insert: "acquireInsertLocks hashID m (Some owner) coll docs = Ok (Granted m') \<Longrightarrow> lock_step hashID m m'"
| update: "acquireUpdateLocks hashID m (Some owner) coll docs = Ok (Granted m') \<Longrightarrow> lock_step hashID m m'"
| delete: "acquireDeleteLocks hashID m (Some owner) coll idVals = Ok (Granted m') \<Longrightarrow> lock_step hashID m m'"
| release: "lock_step hashID m (Release m owner)"

lemma granted: "acquireTxnLocks m (Some owner) coll ids waitable = Ok (Granted m') \<Longrightarrow> m' = m \<or> Acquire m owner coll ids waitable = Ok m'"
  by (auto simp: acquireTxnLocks_def split: if_splits)

lemma lock_step_cases:
  assumes "lock_step hashID m m'"
  obtains "m' = m" | owner coll ids waitable where "Acquire m owner coll ids waitable = Ok m'" | owner where "m' = Release m owner"
  using assms
  by cases (auto simp: acquireInsertLocks_def acquireUpdateLocks_def acquireDeleteLocks_def dest!: granted)

lemma Acquire_owner: "Acquire m owner coll ids waitable = Ok m' \<Longrightarrow> owner \<noteq> []"
  by (auto simp: Acquire_def)

lemma Acquire_notify: "Acquire m owner coll ids waitable = Ok m' \<Longrightarrow> dl_notify m' = dl_notify m"
  using Acquire_locked(2) [OF Acquire_owner] by blast

lemma lock_step_wf: "lock_step hashID m m' \<Longrightarrow> locks_wf m \<Longrightarrow> locks_wf m'"
  by (erule lock_step_cases) (auto intro: Acquire_wf Release_wf)

interpretation lock_wait: waiting dl_notify "\<lambda>m. ids = [] \<or> \<not> anyHeld m coll ids"
  "\<lambda>m. \<exists>i\<in>set ids. locked m (coll, i) \<noteq> None" "lock_step hashID" for coll ids hashID
proof
  show "\<exists>i\<in>set ids. locked m (coll, i) \<noteq> None" if "\<not> (ids = [] \<or> \<not> anyHeld m coll ids)" for m
    using that by (auto simp: anyHeld_locked)
next
  fix m m'
  assume step: "lock_step hashID m m'"
  show "dl_notify m \<le> dl_notify m'"
    using step by (rule lock_step_cases) (auto simp: Release_def dest: Acquire_notify)
  show "\<exists>i\<in>set ids. locked m' (coll, i) \<noteq> None"
    if "dl_notify m' = dl_notify m" "\<exists>i\<in>set ids. locked m (coll, i) \<noteq> None"
    using step
  proof (rule lock_step_cases)
    fix owner coll' ids' waitable
    assume a: "Acquire m owner coll' ids' waitable = Ok m'"
    show ?thesis using that(2) Acquire_locked(2) [OF Acquire_owner [OF a] a] by fastforce
  qed (use that in \<open>auto simp: Release_def\<close>)
qed

lemma run_wf: "wait_run (lock_step hashID) waits (NewDocLockManager, w0) (m, w) \<Longrightarrow> locks_wf m"
proof -
  assume "wait_run (lock_step hashID) waits (NewDocLockManager, w0) (m, w)"
  then have "(lock_step hashID)\<^sup>*\<^sup>* NewDocLockManager m" using wait_run_env by fastforce
  moreover have "locks_wf NewDocLockManager" by (simp add: NewDocLockManager_def locks_wf_def)
  ultimately show ?thesis by (induction rule: rtranclp_induct) (auto intro: lock_step_wf)
qed

lemma Release_all:
  assumes "locks_wf m"
  shows "locks_wf (fold (\<lambda>owner m. Release m owner) holders m) \<and>
    locked (fold (\<lambda>owner m. Release m owner) holders m) p = (case locked m p of Some e \<Rightarrow> if le_owner e \<in> set holders then None else Some e | None \<Rightarrow> None)"
  using assms
proof (induction holders arbitrary: m)
  case (Cons owner holders)
  from Cons.IH [OF Release_wf [OF Cons.prems], of owner] show ?case
    by (auto simp: Release_locked [OF Cons.prems] split: option.splits if_splits)
qed (auto split: option.splits)

lemma Release_run:
  "wait_run (lock_step hashID) waits c (m, w) \<Longrightarrow> wait_run (lock_step hashID) waits c (fold (\<lambda>owner m. Release m owner) holders m, w)"
  by (induction holders arbitrary: m) (auto intro: wait_run.other lock_step.release)

section \<open>Properties\<close>

text \<open>
  Property C11 (liveness). A write never waits in vain: whatever transactions do, a write that waits for documents
  returns once the transactions that hold them have released their locks, by its own steps and
  without another release. No wakeup is lost, and as transactions never wait there is no deadlock.
\<close>

theorem writers_proceed:
  assumes "wait_run (lock_step hashID) (WaitUntilFree coll ids) (NewDocLockManager, Checking) (m, w)" "w \<noteq> Expired"
    and "\<forall>i\<in>set ids. \<forall>owner. Holds m owner coll i \<longrightarrow> owner \<in> set holders"
  shows "wait_run alone (WaitUntilFree coll ids) (fold (\<lambda>owner m. Release m owner) holders m, w)
    (fold (\<lambda>owner m. Release m owner) holders m, Returned)"
proof -
  let ?m = "fold (\<lambda>owner m. Release m owner) holders m"
  have "\<not> (\<exists>i\<in>set ids. locked ?m (coll, i) \<noteq> None)"
    using assms(3) Release_all [OF run_wf [OF assms(1)], of holders] by (auto simp: Holds_locked split: option.splits)
  then show ?thesis
    using lock_wait.free_returns [OF Release_run [OF assms(1) [unfolded WaitUntilFree_def]] assms(2)] by (simp add: WaitUntilFree_def)
qed

definition sample_locked :: DocLockManager where
  "sample_locked = \<lparr>dl_locks = [(''c'', [(sample_id 1, \<lparr>le_owner = ''s1'', le_waitable = True\<rparr>)])], dl_notify = 0\<rparr>"

lemma sample_hash_1: "sample_hash (BInt32 1) = Ok (sample_id 1)"
  by (simp add: sample_hash_def)

lemma sample_delete: "acquireDeleteLocks sample_hash NewDocLockManager (Some ''s1'') ''c'' [BInt32 1] = Ok (Granted sample_locked)"
  by (simp add: acquireDeleteLocks_def acquireTxnLocks_def Acquire_def NewDocLockManager_def other_holds_def sample_locked_def sample_hash_1)

theorem writers_proceed_witness:
  "wait_run (lock_step sample_hash) (WaitUntilFree ''c'' [sample_id 1]) (NewDocLockManager, Checking) (sample_locked, Parked 0) \<and>
   wait_run alone (WaitUntilFree ''c'' [sample_id 1]) (Release sample_locked ''s1'', Parked 0) (Release sample_locked ''s1'', Returned)"
proof
  let ?w = "WaitUntilFree ''c'' [sample_id 1]"
  have "wait_run (lock_step sample_hash) ?w (NewDocLockManager, Checking) (sample_locked, Checking)"
    by (rule wait_run.other, rule wait_run.start, rule lock_step.delete [OF sample_delete])
  then show run: "wait_run (lock_step sample_hash) ?w (NewDocLockManager, Checking) (sample_locked, Parked 0)"
    by (rule wait_run.waiter) (simp add: WaitUntilFree_def wait_step_simps sample_locked_def anyHeld_def)
  show "wait_run alone ?w (Release sample_locked ''s1'', Parked 0) (Release sample_locked ''s1'', Returned)"
    using writers_proceed [OF run, of "[''s1'']"] by (simp add: Holds_def sample_locked_def)
qed

text \<open>What the manager promises, on a map from documents to their locks.\<close>

definition spec_acquire ::
  "(string \<times> bytes \<rightharpoonup> lockEntry) \<Rightarrow> string \<Rightarrow> string \<Rightarrow> bytes list \<Rightarrow> bool \<Rightarrow> (lock_error, string \<times> bytes \<rightharpoonup> lockEntry) result" where
  "spec_acquire L owner coll ids waitable =
     (if owner = [] then Err ErrOwnerEmpty
      else if \<exists>i\<in>set ids. \<exists>e. L (coll, i) = Some e \<and> le_owner e \<noteq> owner then Err ErrWriteConflict
      else Ok (\<lambda>(c, i). if c = coll \<and> i \<in> set ids then Some \<lparr>le_owner = owner, le_waitable = waitable\<rparr> else L (c, i)))"

definition spec_release :: "(string \<times> bytes \<rightharpoonup> lockEntry) \<Rightarrow> string \<Rightarrow> (string \<times> bytes \<rightharpoonup> lockEntry)" where
  "spec_release L owner = (\<lambda>p. case L p of Some e \<Rightarrow> if le_owner e = owner then None else Some e | None \<Rightarrow> None)"

text \<open>
  Property C17 (refinement). The manager implements a map from documents to their locks: \<open>Acquire\<close> takes all
  documents of a batch, or none when another transaction holds one of them, \<open>Release\<close> frees
  exactly the documents of its owner, and both keep the maps well formed.
\<close>

theorem locks_refine:
  assumes "locks_wf m"
  shows "bind_result (Acquire m owner coll ids waitable) (\<lambda>m'. Ok (locked m')) = spec_acquire (locked m) owner coll ids waitable \<and>
    (\<forall>m'. Acquire m owner coll ids waitable = Ok m' \<longrightarrow> locks_wf m') \<and>
    locked (Release m owner) = spec_release (locked m) owner \<and> locks_wf (Release m owner)"
proof (intro conjI allI impI)
  show "bind_result (Acquire m owner coll ids waitable) (\<lambda>m'. Ok (locked m')) = spec_acquire (locked m) owner coll ids waitable"
  proof (cases "owner = []")
    case False
    note a = Acquire_locked [OF False, of m coll ids waitable]
    show ?thesis
    proof (cases "Acquire m owner coll ids waitable")
      case (Ok m')
      moreover have "\<not> (\<exists>i\<in>set ids. \<exists>e. locked m (coll, i) = Some e \<and> le_owner e \<noteq> owner)" using a(1) Ok by auto
      ultimately show ?thesis using a(2) [OF Ok] False by (simp add: spec_acquire_def)
    next
      case (Err e)
      then have "Acquire m owner coll ids waitable = Err ErrWriteConflict" using False by (auto simp: Acquire_def Let_def split: if_splits)
      then show ?thesis using a(1) False by (simp add: spec_acquire_def)
    qed (use a(3) in blast)
  qed (simp add: Acquire_def spec_acquire_def)
qed (use assms in \<open>auto simp: Release_locked spec_release_def intro: Acquire_wf Release_wf\<close>)

theorem locks_refine_witness:
  "\<exists>m. bind_result (Acquire m ''s2'' ''c'' [[1], [2]] True) (\<lambda>m'. Ok (locked m')) = Err ErrWriteConflict \<and>
     locked (Release m ''s1'') = (\<lambda>_. None)"
proof -
  let ?m = "\<lparr>dl_locks = [(''c'', [([1], \<lparr>le_owner = ''s1'', le_waitable = True\<rparr>)])], dl_notify = 0\<rparr>"
  have l: "locked ?m = (\<lambda>p. if p = (''c'', [1]) then Some \<lparr>le_owner = ''s1'', le_waitable = True\<rparr> else None)"
    by (auto simp: locked_def fun_eq_iff)
  have "locks_wf ?m" by (simp add: locks_wf_def)
  note r = locks_refine [OF this]
  have "bind_result (Acquire ?m ''s2'' ''c'' [[1], [2]] True) (\<lambda>m'. Ok (locked m')) = Err ErrWriteConflict"
    using r [of "''s2''" "''c''" "[[1], [2]]" True] by (simp add: l spec_acquire_def)
  moreover have "locked (Release ?m ''s1'') = (\<lambda>_. None)"
    using r [of "''s1''" "''c''" "[[1], [2]]" True] by (simp add: l spec_release_def fun_eq_iff)
  ultimately show ?thesis by blast
qed

text \<open>
  Property C39 (error). A transaction that deletes a document and inserts one with the same id keeps its lock but
  turns it into one that nobody waits for: an ordinary write to the document, which still exists
  for it, does not wait for the transaction.
\<close>

theorem reinsert_unlocks_waiters:
  assumes "owner \<noteq> []" "locked m (coll, i) = None" "hashID v = Ok i" "document_id hashID doc = Ok i"
  shows "\<exists>m1 m2. acquireDeleteLocks hashID m (Some owner) coll [v] = Ok (Granted m1) \<and>
    acquireInsertLocks hashID m1 (Some owner) coll [doc] = Ok (Granted m2) \<and>
    \<not> WaitUntilFree coll [i] m1 Checking Returned \<and> Holds m2 owner coll i \<and> WaitUntilFree coll [i] m2 Checking Returned"
proof -
  obtain m1 where m1: "Acquire m owner coll [i] True = Ok m1"
    using Acquire_locked(1,3) [OF assms(1), of m coll "[i]" True] assms(1,2)
    by (cases "Acquire m owner coll [i] True") (auto simp: Acquire_def Let_def split: if_splits)
  note l1 = Acquire_locked(2) [OF assms(1) m1]
  obtain m2 where m2: "Acquire m1 owner coll [i] False = Ok m2"
    using Acquire_locked(1,3) [OF assms(1), of m1 coll "[i]" False] assms(1) l1
    by (cases "Acquire m1 owner coll [i] False") (auto simp: Acquire_def Let_def split: if_splits)
  note l2 = Acquire_locked(2) [OF assms(1) m2]
  show ?thesis
    using m1 m2 l1 l2 assms(3,4)
    by (auto simp: acquireDeleteLocks_def acquireInsertLocks_def acquireTxnLocks_def WaitUntilFree_def wait_step_simps
        Holds_locked anyHeld_locked)
qed

theorem reinsert_unlocks_waiters_witness:
  "\<exists>m1 m2. acquireDeleteLocks sample_hash NewDocLockManager (Some ''s1'') ''c'' [BInt32 1] = Ok (Granted m1) \<and>
    acquireInsertLocks sample_hash m1 (Some ''s1'') ''c'' [[(''_id'', BInt32 1)]] = Ok (Granted m2) \<and>
    \<not> WaitUntilFree ''c'' [sample_id 1] m1 Checking Returned \<and> Holds m2 ''s1'' ''c'' (sample_id 1) \<and>
    WaitUntilFree ''c'' [sample_id 1] m2 Checking Returned"
  by (rule reinsert_unlocks_waiters)
    (simp_all add: locked_def NewDocLockManager_def sample_hash_1 document_id_def get_value_def)

end
