(* ===== verification/OplogBuffer.thy ===== *)
theory OplogBuffer
  imports Waiting
begin

text \<open>
  The bounded buffer between the fetcher and the applier of the oplog
  (\<open>internal/replication/oplog/buffer.go\<close>). Byte counts are 64-bit integers that wrap around;
  a channel is the number of channels before it, as in \<^verbatim>\<open>Waiting\<close>.
\<close>

section \<open>The buffer\<close>

record OpTime =
  ot_seconds :: "32 word"
  ot_increment :: "32 word"
  ot_term :: int64

definition OpTime_Compare :: "OpTime \<Rightarrow> OpTime \<Rightarrow> int" where
  "OpTime_Compare o1 o2 =
     (if ot_term o1 \<noteq> ot_term o2 then if sint (ot_term o1) < sint (ot_term o2) then -1 else 1
      else if ot_seconds o1 \<noteq> ot_seconds o2 then if ot_seconds o1 < ot_seconds o2 then -1 else 1
      else if ot_increment o1 < ot_increment o2 then -1
      else if ot_increment o1 > ot_increment o2 then 1 else 0)"

record Entry =
  en_opTime :: OpTime
  en_operation :: string
  en_namespace :: string
  en_raw :: bytes

record BufferLimits =
  bl_entries :: int
  bl_bytes :: int64

record Buffer =
  bf_limits :: BufferLimits
  bf_entries :: "Entry list"
  bf_bytes :: int64
  bf_space :: nat
  bf_data :: nat

datatype buffer_error = ErrLimits | ErrBufferFull | ErrEntryTooLarge | ErrOutOfOrder

definition entry_size :: "Entry \<Rightarrow> int64" where
  "entry_size e = word_of_nat (length (en_raw e))"

definition NewBuffer :: "BufferLimits \<Rightarrow> (buffer_error, Buffer) result" where
  "NewBuffer limits =
     (if bl_entries limits \<le> 0 \<or> sint (bl_bytes limits) \<le> 0 then Err ErrLimits
      else Ok \<lparr>bf_limits = limits, bf_entries = [], bf_bytes = 0, bf_space = 0, bf_data = 0\<rparr>)"

definition TryAppend :: "Buffer \<Rightarrow> Entry \<Rightarrow> (buffer_error, Buffer) result" where
  "TryAppend b e =
     (if sint (entry_size e) > sint (bl_bytes (bf_limits b)) then Err ErrEntryTooLarge
      else if bf_entries b \<noteq> [] \<and> OpTime_Compare (en_opTime e) (en_opTime (last (bf_entries b))) \<le> 0 then Err ErrOutOfOrder
      else if int (length (bf_entries b)) = bl_entries (bf_limits b) \<or>
              sint (bf_bytes b + entry_size e) > sint (bl_bytes (bf_limits b)) then Err ErrBufferFull
      else Ok (b\<lparr>bf_entries := bf_entries b @ [e], bf_bytes := bf_bytes b + entry_size e, bf_data := Suc (bf_data b)\<rparr>))"

text \<open>How many entries a drain takes and how many bytes they have.\<close>

fun drain_loop :: "int \<Rightarrow> int64 \<Rightarrow> OpTime option \<Rightarrow> Entry list \<Rightarrow> nat \<Rightarrow> int64 \<Rightarrow> nat \<times> int64" where
  "drain_loop maxEntries maxBytes stop [] taken bytes = (taken, bytes)"
| "drain_loop maxEntries maxBytes stop (e # es) taken bytes =
     (if int taken \<ge> maxEntries then (taken, bytes)
      else if (case stop of Some t \<Rightarrow> OpTime_Compare (en_opTime e) t > 0 | None \<Rightarrow> False) then (taken, bytes)
      else if taken \<noteq> 0 \<and> sint (bytes + entry_size e) > sint maxBytes then (taken, bytes)
      else drain_loop maxEntries maxBytes stop es (Suc taken) (bytes + entry_size e))"

definition drain :: "Buffer \<Rightarrow> int \<Rightarrow> int64 \<Rightarrow> OpTime option \<Rightarrow> Entry list \<times> Buffer" where
  "drain b maxEntries maxBytes stop =
     (if maxEntries \<le> 0 \<or> sint maxBytes \<le> 0 then ([], b)
      else let (taken, bytes) = drain_loop maxEntries maxBytes stop (bf_entries b) 0 0 in
        if taken = 0 then ([], b)
        else (take taken (bf_entries b),
          b\<lparr>bf_entries := drop taken (bf_entries b), bf_bytes := bf_bytes b - bytes, bf_space := Suc (bf_space b)\<rparr>))"

definition Drain :: "Buffer \<Rightarrow> int \<Rightarrow> int64 \<Rightarrow> Entry list \<times> Buffer" where
  "Drain b maxEntries maxBytes = drain b maxEntries maxBytes None"

definition DrainThrough :: "Buffer \<Rightarrow> OpTime \<Rightarrow> int \<Rightarrow> int64 \<Rightarrow> Entry list \<times> Buffer" where
  "DrainThrough b stop maxEntries maxBytes = drain b maxEntries maxBytes (Some stop)"

definition WaitForData :: "Buffer \<Rightarrow> wait_status \<Rightarrow> wait_status \<Rightarrow> bool" where
  "WaitForData = wait_step bf_data (\<lambda>b. bf_entries b \<noteq> [])"

definition has_space :: "int64 \<Rightarrow> Buffer \<Rightarrow> bool" where
  "has_space n b \<longleftrightarrow> int (length (bf_entries b)) < bl_entries (bf_limits b) \<and>
     sint (bf_bytes b + n) \<le> sint (bl_bytes (bf_limits b))"

definition WaitForSpace :: "int64 \<Rightarrow> Buffer \<Rightarrow> wait_status \<Rightarrow> wait_status \<Rightarrow> bool" where
  "WaitForSpace n = wait_step bf_space (has_space n)"

definition Stats :: "Buffer \<Rightarrow> nat \<times> int64" where
  "Stats b = (length (bf_entries b), bf_bytes b)"

definition Limits :: "Buffer \<Rightarrow> BufferLimits" where
  "Limits b = bf_limits b"

definition Reset :: "Buffer \<Rightarrow> (nat \<times> int64) \<times> Buffer" where
  "Reset b = (Stats b, b\<lparr>bf_entries := [], bf_bytes := 0, bf_space := Suc (bf_space b)\<rparr>)"

definition Tail :: "Buffer \<Rightarrow> OpTime option" where
  "Tail b = (if bf_entries b = [] then None else Some (en_opTime (last (bf_entries b))))"

section \<open>The order of operations\<close>

lemma sint_inject: "sint x = sint y \<longleftrightarrow> x = y" for x y :: int64
  by (rule word_eq_iff_signed [symmetric])

lemma OpTime_Compare_trans: "OpTime_Compare a b > 0 \<Longrightarrow> OpTime_Compare b c > 0 \<Longrightarrow> OpTime_Compare a c > 0"
  using sint_inject [of "ot_term c" "ot_term b"] by (auto simp: OpTime_Compare_def split: if_splits)

lemma OpTime_Compare_eq: "OpTime_Compare a b = 0 \<longleftrightarrow> a = b"
  by (auto simp: OpTime_Compare_def split: if_splits)

section \<open>Steps\<close>

text \<open>
  \<open>history b\<close> with what was accepted and what left the buffer, by a drain or by
  \<open>Reset\<close>, in order. A slice has fewer than \<open>2\<^sup>6\<^sup>3\<close> bytes.
\<close>

inductive buffer_history :: "BufferLimits \<Rightarrow> Entry list \<Rightarrow> Entry list \<Rightarrow> Buffer \<Rightarrow> bool" for limits where
  new: "NewBuffer limits = Ok b \<Longrightarrow> buffer_history limits [] [] b"
| append: "buffer_history limits accepted left b \<Longrightarrow> length (en_raw e) < 2 ^ 63 \<Longrightarrow> TryAppend b e = Ok b' \<Longrightarrow>
    buffer_history limits (accepted @ [e]) left b'"
| drain: "buffer_history limits accepted left b \<Longrightarrow> Drain b maxEntries maxBytes = (es, b') \<Longrightarrow>
    buffer_history limits accepted (left @ es) b'"
| drain_through: "buffer_history limits accepted left b \<Longrightarrow> DrainThrough b stop maxEntries maxBytes = (es, b') \<Longrightarrow>
    buffer_history limits accepted (left @ es) b'"
| reset: "buffer_history limits accepted left b \<Longrightarrow> Reset b = (removed, b') \<Longrightarrow>
    buffer_history limits accepted (left @ bf_entries b) b'"

definition total_size :: "Entry list \<Rightarrow> nat" where
  "total_size es = sum_list (map (\<lambda>e. length (en_raw e)) es)"

definition buffer_ok :: "Buffer \<Rightarrow> bool" where
  "buffer_ok b \<longleftrightarrow> 0 < bl_entries (bf_limits b) \<and> 0 < sint (bl_bytes (bf_limits b)) \<and>
     int (length (bf_entries b)) \<le> bl_entries (bf_limits b) \<and>
     sint (bf_bytes b) = int (total_size (bf_entries b)) \<and>
     int (total_size (bf_entries b)) \<le> sint (bl_bytes (bf_limits b)) \<and>
     sorted_wrt (\<lambda>a b. OpTime_Compare (en_opTime b) (en_opTime a) > 0) (bf_entries b)"

section \<open>The invariant\<close>

lemma sint_small: "n < 2 ^ 63 \<Longrightarrow> sint (word_of_nat n :: int64) = int n"
  by (simp add: signed_of_nat signed_take_bit_int_eq_self)

lemma sint_add: "- (2 ^ 63) \<le> sint a + sint b \<Longrightarrow> sint a + sint b < 2 ^ 63 \<Longrightarrow> sint (a + b :: int64) = sint a + sint b"
  by (simp add: sint_word_ariths signed_take_bit_int_eq_self)

lemma sint_diff: "- (2 ^ 63) \<le> sint a - sint b \<Longrightarrow> sint a - sint b < 2 ^ 63 \<Longrightarrow> sint (a - b :: int64) = sint a - sint b"
  by (simp add: sint_word_ariths signed_take_bit_int_eq_self)

lemma total_size_simps [simp]:
  "total_size [] = 0" "total_size (e # es) = length (en_raw e) + total_size es" "total_size (es @ fs) = total_size es + total_size fs"
  by (simp_all add: total_size_def)

text \<open>A drain takes a prefix, and counts its bytes without wrapping around.\<close>

lemma drain_loop_prefix:
  assumes "drain_loop maxEntries maxBytes stop es taken bytes = (n, bs)" "sint bytes = int k" "k + total_size es < 2 ^ 63"
  shows "taken \<le> n \<and> n \<le> taken + length es \<and> sint bs = int (k + total_size (take (n - taken) es)) \<and> (int taken \<le> maxEntries \<longrightarrow> int n \<le> maxEntries)"
  using assms
proof (induction es arbitrary: taken bytes k)
  case (Cons e es)
  have size: "sint (entry_size e) = int (length (en_raw e))" unfolding entry_size_def by (rule sint_small) (use Cons.prems(3) in simp)
  then have add: "sint (bytes + entry_size e) = int (k + length (en_raw e))"
    using sint_add [of bytes "entry_size e"] Cons.prems(2,3) by simp
  show ?case
  proof (cases "drain_loop maxEntries maxBytes stop (e # es) taken bytes = (taken, bytes)")
    case False
    then have rest: "drain_loop maxEntries maxBytes stop es (Suc taken) (bytes + entry_size e) = (n, bs)" "int taken < maxEntries"
      using Cons.prems(1) by (auto split: if_splits)
    from Cons.IH [OF rest(1) add] Cons.prems(3)
    have "Suc taken \<le> n \<and> n \<le> Suc taken + length es \<and> sint bs = int (k + length (en_raw e) + total_size (take (n - Suc taken) es)) \<and>
        (int (Suc taken) \<le> maxEntries \<longrightarrow> int n \<le> maxEntries)" by simp
    moreover have "n - taken = Suc (n - Suc taken)" if "Suc taken \<le> n" using that by simp
    ultimately show ?thesis using rest(2) by auto
  qed (use Cons.prems in auto)
qed simp

lemma drain_prefix:
  assumes "buffer_ok b" "drain b maxEntries maxBytes stop = (es, b')"
  shows "bf_entries b = es @ bf_entries b' \<and> buffer_ok b' \<and> bf_limits b' = bf_limits b \<and> (maxEntries \<ge> 0 \<longrightarrow> int (length es) \<le> maxEntries) \<and>
    (es \<noteq> [] \<longrightarrow> bf_space b' = Suc (bf_space b)) \<and> (es = [] \<longrightarrow> b' = b)"
proof (cases "es = []")
  case False
  let ?es = "bf_entries b"
  obtain n bs where loop: "drain_loop maxEntries maxBytes stop ?es 0 0 = (n, bs)" by fastforce
  then have d: "0 < maxEntries" "n \<noteq> 0" "es = take n ?es"
    "b' = b\<lparr>bf_entries := drop n ?es, bf_bytes := bf_bytes b - bs, bf_space := Suc (bf_space b)\<rparr>"
    using assms(2) False by (auto simp: drain_def Let_def split: if_splits)
  have lim: "sint (bl_bytes (bf_limits b)) < 2 ^ 63" using sint_range_size [of "bl_bytes (bf_limits b)"] by (simp add: word_size)
  have t: "int (total_size ?es) \<le> sint (bl_bytes (bf_limits b))" "sint (bf_bytes b) = int (total_size ?es)"
    using assms(1) by (auto simp: buffer_ok_def)
  then have "int (total_size ?es) < 2 ^ 63" using lim by linarith
  then have "total_size ?es < 2 ^ 63" by simp
  from drain_loop_prefix [OF loop, of 0] this have n: "n \<le> length ?es" "sint bs = int (total_size (take n ?es))" "int n \<le> maxEntries"
    using d(1) by auto
  have split: "total_size ?es = total_size (take n ?es) + total_size (drop n ?es)"
    by (metis append_take_drop_id total_size_simps(3))
  have "sint (bf_bytes b - bs) = int (total_size (drop n ?es))"
    using sint_diff [of "bf_bytes b" bs] t lim n(2) split by simp
  moreover have "?es = es @ drop n ?es" using d(3) by simp
  moreover have "int (total_size (drop n ?es)) \<le> sint (bl_bytes (bf_limits b))" using t(1) split by simp
  moreover have "sorted_wrt (\<lambda>a b. OpTime_Compare (en_opTime b) (en_opTime a) > 0) (drop n ?es)"
    using assms(1) by (simp add: buffer_ok_def sorted_wrt_drop)
  ultimately show ?thesis using assms(1) d n by (auto simp: buffer_ok_def)
qed (use assms in \<open>auto simp: drain_def Let_def split: if_splits prod.splits\<close>)

lemma TryAppend_ok:
  assumes "buffer_ok b" "TryAppend b e = Ok b'" "length (en_raw e) < 2 ^ 63" "sint (bl_bytes (bf_limits b)) < 2 ^ 62"
  shows "buffer_ok b' \<and> bf_limits b' = bf_limits b \<and> bf_entries b' = bf_entries b @ [e]"
proof -
  have size: "sint (entry_size e) = int (length (en_raw e))" unfolding entry_size_def by (rule sint_small [OF assms(3)])
  have b': "b' = b\<lparr>bf_entries := bf_entries b @ [e], bf_bytes := bf_bytes b + entry_size e, bf_data := Suc (bf_data b)\<rparr>"
    "int (length (en_raw e)) \<le> sint (bl_bytes (bf_limits b))" "int (length (bf_entries b)) \<noteq> bl_entries (bf_limits b)"
    "sint (bf_bytes b + entry_size e) \<le> sint (bl_bytes (bf_limits b))"
    "bf_entries b = [] \<or> OpTime_Compare (en_opTime e) (en_opTime (last (bf_entries b))) > 0"
    using assms(2) size by (auto simp: TryAppend_def split: if_splits)
  have bytes: "sint (bf_bytes b + entry_size e) = int (total_size (bf_entries b) + length (en_raw e))"
    using sint_add [of "bf_bytes b" "entry_size e"] size b'(2) assms(1,4) by (simp add: buffer_ok_def)
  have "OpTime_Compare (en_opTime e) (en_opTime x) > 0" if x: "x \<in> set (bf_entries b)" for x
  proof -
    obtain xs where xs: "bf_entries b = xs @ [last (bf_entries b)]" using x by (metis append_butlast_last_id empty_iff list.set(1))
    then have "x = last (bf_entries b) \<or> OpTime_Compare (en_opTime (last (bf_entries b))) (en_opTime x) > 0"
      using assms(1) x sorted_wrt_append [of _ xs "[last (bf_entries b)]"] by (metis (mono_tags, lifting) Un_iff buffer_ok_def empty_iff list.set(1) list.set_intros(1) set_ConsD set_append)
    then show ?thesis using b'(5) x OpTime_Compare_trans by auto
  qed
  then show ?thesis using assms(1) b'(3) bytes b'(4) by (auto simp: buffer_ok_def b'(1) sorted_wrt_append)
qed

lemma history_ok:
  assumes "buffer_history limits accepted left b" "sint (bl_bytes limits) < 2 ^ 62"
  shows "buffer_ok b \<and> bf_limits b = limits \<and> accepted = left @ bf_entries b"
  using assms(1)
proof induction
  case (new b)
  then show ?case by (auto simp: NewBuffer_def buffer_ok_def split: if_splits)
next
  case (append accepted left b e b')
  then show ?case using TryAppend_ok [of b e b'] assms(2) by auto
next
  case (drain accepted left b maxEntries maxBytes es b')
  then show ?case using drain_prefix [of b maxEntries maxBytes None es b'] by (simp add: Drain_def)
next
  case (drain_through accepted left b stop maxEntries maxBytes es b')
  then show ?case using drain_prefix [of b maxEntries maxBytes "Some stop" es b'] by (simp add: DrainThrough_def)
next
  case (reset accepted left b removed b')
  then show ?case by (auto simp: Reset_def buffer_ok_def)
qed

section \<open>Waiting\<close>

inductive buffer_step :: "Buffer \<Rightarrow> Buffer \<Rightarrow> bool" where
  append: "length (en_raw e) < 2 ^ 63 \<Longrightarrow> TryAppend b e = Ok b' \<Longrightarrow> buffer_step b b'"
| drain: "drain b maxEntries maxBytes stop = (es, b') \<Longrightarrow> buffer_step b b'"
| reset: "Reset b = (removed, b') \<Longrightarrow> buffer_step b b'"

lemma buffer_step_channels:
  assumes "buffer_step b b'"
  shows "bf_data b \<le> bf_data b' \<and> bf_space b \<le> bf_space b' \<and> bf_limits b' = bf_limits b \<and>
    (bf_data b' = bf_data b \<and> bf_entries b = [] \<longrightarrow> bf_entries b' = []) \<and>
    (bf_space b' = bf_space b \<longrightarrow> b' = b \<or> (\<exists>e. TryAppend b e = Ok b'))"
  using assms
proof cases
  case (append e)
  then show ?thesis by (auto simp: TryAppend_def split: if_splits)
next
  case (drain maxEntries maxBytes stop es)
  then show ?thesis by (auto simp: drain_def Let_def split: if_splits prod.splits)
next
  case (reset removed)
  then show ?thesis by (auto simp: Reset_def)
qed

interpretation data_wait: waiting bf_data "\<lambda>b. bf_entries b \<noteq> []" "\<lambda>b. bf_entries b = []" buffer_step
  by unfold_locales (auto dest: buffer_step_channels)

text \<open>Steps from a buffer in its invariant, whose limit leaves room for the sums.\<close>

definition buffer_small :: "Buffer \<Rightarrow> bool" where
  "buffer_small b \<longleftrightarrow> buffer_ok b \<and> sint (bl_bytes (bf_limits b)) < 2 ^ 62"

lemma buffer_step_small: "buffer_step b b' \<Longrightarrow> buffer_small b \<Longrightarrow> buffer_small b'"
proof (induction rule: buffer_step.induct)
  case (append e b b')
  then show ?case using TryAppend_ok [of b e b'] by (simp add: buffer_small_def)
next
  case (drain b maxEntries maxBytes stop es b')
  then show ?case using drain_prefix [of b maxEntries maxBytes stop es b'] by (simp add: buffer_small_def)
next
  case (reset b removed b')
  then show ?case by (auto simp: Reset_def buffer_small_def buffer_ok_def)
qed

lemma has_space_iff:
  assumes "buffer_small b" "0 \<le> sint n" "sint n < 2 ^ 62"
  shows "has_space n b \<longleftrightarrow> int (length (bf_entries b)) < bl_entries (bf_limits b) \<and>
    int (total_size (bf_entries b)) + sint n \<le> sint (bl_bytes (bf_limits b))"
proof -
  have "sint (bf_bytes b) = int (total_size (bf_entries b))" "int (total_size (bf_entries b)) < 2 ^ 62"
    using assms(1) by (auto simp: buffer_small_def buffer_ok_def)
  then show ?thesis using sint_add [of "bf_bytes b" n] assms(2,3) by (simp add: has_space_def)
qed

interpretation space_wait: waiting bf_space "has_space n"
  "\<lambda>b. \<not> has_space n b \<or> \<not> (0 \<le> sint n \<and> sint n < 2 ^ 62)" "\<lambda>b b'. buffer_small b \<and> buffer_step b b'" for n
proof
  fix b b'
  assume step: "buffer_small b \<and> buffer_step b b'"
  show "bf_space b \<le> bf_space b'" using step buffer_step_channels by blast
  assume same: "bf_space b' = bf_space b" and blocked: "\<not> has_space n b \<or> \<not> (0 \<le> sint n \<and> sint n < 2 ^ 62)"
  have small: "buffer_small b" "buffer_small b'" using step buffer_step_small by blast+
  have "b' = b \<or> (\<exists>e. TryAppend b e = Ok b')" using buffer_step_channels step same by blast
  then consider "b' = b" | e where "bf_limits b' = bf_limits b" "bf_entries b' = bf_entries b @ [e]"
    by (auto simp: TryAppend_def split: if_splits)
  then show "\<not> has_space n b' \<or> \<not> (0 \<le> sint n \<and> sint n < 2 ^ 62)"
  proof cases
    case 2
    show ?thesis
    proof (cases "0 \<le> sint n \<and> sint n < 2 ^ 62")
      case True
      then have iff: "has_space n b \<longleftrightarrow> int (length (bf_entries b)) < bl_entries (bf_limits b) \<and>
          int (total_size (bf_entries b)) + sint n \<le> sint (bl_bytes (bf_limits b))"
        "has_space n b' \<longleftrightarrow> int (length (bf_entries b')) < bl_entries (bf_limits b') \<and>
          int (total_size (bf_entries b')) + sint n \<le> sint (bl_bytes (bf_limits b'))"
        using has_space_iff [OF small(1)] has_space_iff [OF small(2)] by blast+
      have "\<not> has_space n b" using blocked True by blast
      then show ?thesis unfolding iff 2 by (simp, linarith)
    qed blast
  qed (use blocked in simp)
qed blast

lemma run_small:
  assumes "wait_run buffer_step waits (b0, w0) c" "buffer_small b0"
  shows "wait_run (\<lambda>b b'. buffer_small b \<and> buffer_step b b') waits (b0, w0) c \<and> buffer_small (fst c) \<and> bf_limits (fst c) = bf_limits b0"
  using assms(1)
proof induction
  case (other b w b')
  then show ?case using buffer_step_small [of b b'] buffer_step_channels [of b b'] by (auto intro: wait_run.other)
next
  case (waiter b w w')
  then show ?case by (auto intro: wait_run.waiter)
qed (auto intro: wait_run.start simp: assms(2))

section \<open>Properties\<close>

definition sample_entry :: "nat \<Rightarrow> Entry" where
  "sample_entry n = \<lparr>en_opTime = \<lparr>ot_seconds = word_of_nat n, ot_increment = 0, ot_term = 1\<rparr>, en_operation = ''n'', en_namespace = ''db.c'',
     en_raw = [5, 0, 0, 0, 0]\<rparr>"

definition sample_limits :: BufferLimits where
  "sample_limits = \<lparr>bl_entries = 2, bl_bytes = 12\<rparr>"

definition sample_buffer :: "Entry list \<Rightarrow> int64 \<Rightarrow> nat \<Rightarrow> nat \<Rightarrow> Buffer" where
  "sample_buffer es n space data = \<lparr>bf_limits = sample_limits, bf_entries = es, bf_bytes = n, bf_space = space, bf_data = data\<rparr>"

lemma sample_new: "NewBuffer sample_limits = Ok (sample_buffer [] 0 0 0)"
  by (simp add: NewBuffer_def sample_limits_def sample_buffer_def)

lemma sample_append: "TryAppend (sample_buffer [] 0 0 0) (sample_entry 1) = Ok (sample_buffer [sample_entry 1] 5 0 1)"
  by code_simp

lemma sample_append2: "TryAppend (sample_buffer [sample_entry 1] 5 0 1) (sample_entry 2) = Ok (sample_buffer [sample_entry 1, sample_entry 2] 10 0 2)"
  by code_simp

lemma sample_drain: "Drain (sample_buffer [sample_entry 1, sample_entry 2] 10 0 2) 1 5 = ([sample_entry 1], sample_buffer [sample_entry 2] 5 1 2)"
  by code_simp

lemma sample_buffer_history: "buffer_history sample_limits [sample_entry 1, sample_entry 2] [sample_entry 1] (sample_buffer [sample_entry 2] 5 1 2)"
proof -
  have "buffer_history sample_limits ([] @ [sample_entry 1]) [] (sample_buffer [sample_entry 1] 5 0 1)"
    by (rule buffer_history.append [OF buffer_history.new [OF sample_new] _ sample_append]) (simp add: sample_entry_def)
  from buffer_history.append [OF this _ sample_append2]
  have "buffer_history sample_limits [sample_entry 1, sample_entry 2] [] (sample_buffer [sample_entry 1, sample_entry 2] 10 0 2)"
    by (simp add: sample_entry_def)
  from buffer_history.drain [OF this sample_drain] show ?thesis by simp
qed

text \<open>
  Property C12 (bounds). The buffer never exceeds its limits, and its count of bytes is the exact sum, without
  wrapping around, as long as the limit is below \<open>2\<^sup>6\<^sup>2\<close>; its entries are in the order
  of their times.
\<close>

theorem buffer_within_limits:
  assumes "buffer_history limits accepted left b" "sint (bl_bytes limits) < 2 ^ 62"
  shows "int (length (bf_entries b)) \<le> bl_entries limits \<and> int (total_size (bf_entries b)) \<le> sint (bl_bytes limits) \<and>
    sint (bf_bytes b) = int (total_size (bf_entries b)) \<and>
    sorted_wrt (\<lambda>a b. OpTime_Compare (en_opTime b) (en_opTime a) > 0) (bf_entries b)"
  using history_ok [OF assms] by (auto simp: buffer_ok_def)

theorem buffer_within_limits_witness:
  "int (length (bf_entries (sample_buffer [sample_entry 2] 5 1 2))) \<le> 2 \<and> total_size (bf_entries (sample_buffer [sample_entry 2] 5 1 2)) = 5"
  using buffer_within_limits [OF sample_buffer_history] by (simp add: sample_limits_def sample_buffer_def)

text \<open>
  Property C18 (refinement). The buffer is a queue: what has been accepted is what has left it followed by what it
  holds, in order, whatever the sequence of appends, drains and resets.
\<close>

theorem buffer_fifo:
  assumes "buffer_history limits accepted left b" "sint (bl_bytes limits) < 2 ^ 62"
  shows "accepted = left @ bf_entries b"
  using history_ok [OF assms] by blast

theorem buffer_fifo_witness:
  "[sample_entry 1, sample_entry 2] = [sample_entry 1] @ bf_entries (sample_buffer [sample_entry 2] 5 1 2)"
  by (rule buffer_fifo [OF sample_buffer_history]) (simp add: sample_limits_def)

text \<open>
  Property C19 (liveness). Fetcher and applier never block each other: with entries in the buffer a consumer in
  \<open>WaitForData\<close> returns, without entries a producer in \<open>WaitForSpace\<close> returns whose entry
  is within the limit, each by its own steps.
\<close>

theorem fetcher_applier_proceed:
  assumes "NewBuffer limits = Ok b0" "sint (bl_bytes limits) < 2 ^ 62"
  shows "(wait_run buffer_step WaitForData (b0, Checking) (b, w) \<longrightarrow> w \<noteq> Expired \<longrightarrow> bf_entries b \<noteq> [] \<longrightarrow>
      wait_run alone WaitForData (b, w) (b, Returned)) \<and>
    (wait_run buffer_step (WaitForSpace n) (b0, Checking) (b, w) \<longrightarrow> w \<noteq> Expired \<longrightarrow> bf_entries b = [] \<longrightarrow>
      0 \<le> sint n \<longrightarrow> sint n \<le> sint (bl_bytes limits) \<longrightarrow> wait_run alone (WaitForSpace n) (b, w) (b, Returned))"
proof (intro conjI impI)
  assume r: "wait_run buffer_step WaitForData (b0, Checking) (b, w)" "w \<noteq> Expired" "bf_entries b \<noteq> []"
  show "wait_run alone WaitForData (b, w) (b, Returned)"
    using data_wait.free_returns [OF r(1) [unfolded WaitForData_def] r(2)] r(3) by (simp add: WaitForData_def)
next
  assume r: "wait_run buffer_step (WaitForSpace n) (b0, Checking) (b, w)" "w \<noteq> Expired" "bf_entries b = []"
    and n: "0 \<le> sint n" "sint n \<le> sint (bl_bytes limits)"
  have "buffer_small b0" "bf_limits b0 = limits"
    using assms by (auto simp: NewBuffer_def buffer_small_def buffer_ok_def split: if_splits)
  with run_small [OF r(1)] have s: "wait_run (\<lambda>b b'. buffer_small b \<and> buffer_step b b') (WaitForSpace n) (b0, Checking) (b, w)"
    "buffer_small b" "bf_limits b = limits" by auto
  have small: "sint n < 2 ^ 62" using n(2) assms(2) by linarith
  have "has_space n b" using has_space_iff [OF s(2) n(1) small] s(2,3) r(3) n(2) by (simp add: buffer_small_def buffer_ok_def)
  then show "wait_run alone (WaitForSpace n) (b, w) (b, Returned)"
    using space_wait.free_returns [OF s(1) [unfolded WaitForSpace_def] r(2)] n(1) small by (simp add: WaitForSpace_def)
qed

theorem fetcher_applier_proceed_witness:
  "wait_run buffer_step WaitForData (sample_buffer [] 0 0 0, Checking) (sample_buffer [sample_entry 1] 5 0 1, Parked 0) \<and>
   wait_run alone WaitForData (sample_buffer [sample_entry 1] 5 0 1, Parked 0) (sample_buffer [sample_entry 1] 5 0 1, Returned)"
proof
  have "wait_run buffer_step WaitForData (sample_buffer [] 0 0 0, Checking) (sample_buffer [] 0 0 0, Parked 0)"
    by (rule wait_run.waiter, rule wait_run.start) (simp add: WaitForData_def wait_step_simps sample_buffer_def)
  then show run: "wait_run buffer_step WaitForData (sample_buffer [] 0 0 0, Checking) (sample_buffer [sample_entry 1] 5 0 1, Parked 0)"
    by (rule wait_run.other) (rule buffer_step.append [OF _ sample_append], simp add: sample_entry_def)
  have "bf_entries (sample_buffer [sample_entry 1] 5 0 1) \<noteq> []" "sint (bl_bytes sample_limits) < 2 ^ 62"
    by (simp_all add: sample_buffer_def sample_limits_def)
  with fetcher_applier_proceed [OF sample_new] run
  show "wait_run alone WaitForData (sample_buffer [sample_entry 1] 5 0 1, Parked 0) (sample_buffer [sample_entry 1] 5 0 1, Returned)"
    by blast
qed

end
