(* ===== verification/OplogDiff.thy ===== *)
theory OplogDiff
  imports Filters
begin

text \<open>
  Application of version 2 diffs of the oplog (\<open>internal/replication/oplog/diff.go\<close>). Errors
  lose their text, nil arguments are left out, and \<open>cloneDiffValue\<close> is the identity on values.
  \<open>maxSlots\<close> is the largest capacity the runtime can allocate for an array:
  \<open>MakeArray\<close> panics beyond it; it is below \<open>2\<^sup>6\<^sup>3\<close>, where the length would wrap.
\<close>

section \<open>Diffs\<close>

type_synonym 'a diffed = "(unit, 'a) result"

definition isArrayDiff :: "fields \<Rightarrow> bool diffed" where
  "isArrayDiff diff = bind_result (get_value diff ''a'') (\<lambda>r. Ok (r \<noteq> None))"

fun is_document :: "bson \<Rightarrow> bool" where
  "is_document (BDocument _) = True"
| "is_document _ = False"

definition section_order :: "string \<Rightarrow> nat option" where
  "section_order field =
     (if field = ''d'' then Some 1 else if field = ''u'' then Some 2 else if field = ''i'' then Some 3
      else if HasPrefix field ''s'' \<and> length field > 1 then Some 5 else None)"

fun order_loop :: "fields \<Rightarrow> nat \<Rightarrow> bool \<Rightarrow> unit diffed" where
  "order_loop [] previousOrder inSubDiffs = Ok ()"
| "order_loop ((field, v) # fs) previousOrder inSubDiffs =
     (case section_order field of
        None \<Rightarrow> Err ()
      | Some n \<Rightarrow>
          let inSub = inSubDiffs \<or> n = 5 in
          if inSub \<and> n \<noteq> 5 \<or> n < previousOrder \<or> n = previousOrder \<and> n \<noteq> 5 then Err ()
          else if \<not> is_document v then Err ()
          else order_loop fs n inSub)"

definition validateObjectDiffOrder :: "fields \<Rightarrow> unit diffed" where
  "validateObjectDiffOrder diff = (if diff = [] then Err () else order_loop diff 0 False)"

text \<open>One field of a section; \<open>modified\<close> are the fields changed so far.\<close>

definition change_field :: "string \<Rightarrow> fields \<Rightarrow> string \<Rightarrow> bson \<Rightarrow> fields diffed" where
  "change_field sec res field replacement =
     (if key_count res field > 1 then Panic
      else Ok (if sec = ''d'' then fields_del res field
        else if sec = ''u'' then fields_put res field replacement
        else fields_put (fields_del res field) field replacement))"

fun section_loop :: "string \<Rightarrow> fields \<Rightarrow> fields \<times> string list \<Rightarrow> (fields \<times> string list) diffed" where
  "section_loop sec [] s = Ok s"
| "section_loop sec ((field, replacement) # fs) (res, modified) =
     (if field \<in> set modified then Err ()
      else bind_result (change_field sec res field replacement) (\<lambda>res'. section_loop sec fs (res', field # modified)))"

fun sections_loop :: "fields \<Rightarrow> string list \<Rightarrow> fields \<times> string list \<Rightarrow> (fields \<times> string list) diffed" where
  "sections_loop diff [] s = Ok s"
| "sections_loop diff (sec # secs) s =
     bind_result (get_value diff sec) (\<lambda>r.
       case r of
         None \<Rightarrow> sections_loop diff secs s
       | Some (BDocument document) \<Rightarrow> bind_result (section_loop sec document s) (sections_loop diff secs)
       | Some _ \<Rightarrow> Err ())"

section \<open>Diffs of arrays\<close>

definition array_header :: "fields \<Rightarrow> unit diffed" where
  "array_header diff =
     (if diff = [] \<or> fst (hd diff) \<noteq> ''a'' then Err ()
      else if list_ex (\<lambda>(index, field). field = ''l'' \<and> index \<noteq> 1) (List.enumerate 0 (map fst diff)) then Err ()
      else bind_result (get_value diff ''a'') (\<lambda>header. if header \<noteq> Some (BBool True) then Err () else Ok ()))"

definition array_length :: "nat \<Rightarrow> fields \<Rightarrow> nat diffed" where
  "array_length len diff =
     bind_result (get_value diff ''l'') (\<lambda>r.
       case r of
         None \<Rightarrow> Ok len
       | Some (BInt32 i) \<Rightarrow> if sint i < 0 then Err () else Ok (nat (sint i))
       | Some _ \<Rightarrow> Err ())"

text \<open>The replaced and the changed elements, by index.\<close>

fun collect_loop :: "fields \<Rightarrow> (nat \<times> bson) list \<Rightarrow> (nat \<times> fields) list \<Rightarrow> ((nat \<times> bson) list \<times> (nat \<times> fields) list) diffed" where
  "collect_loop [] modifications subDiffs = Ok (modifications, subDiffs)"
| "collect_loop ((field, v) # fs) modifications subDiffs =
     (if field = ''a'' \<or> field = ''l'' then collect_loop fs modifications subDiffs
      else if length field < 2 \<or> hd field \<noteq> CHR ''u'' \<and> hd field \<noteq> CHR ''s'' then Err ()
      else case Atoi (tl field) of
        None \<Rightarrow> Err ()
      | Some i \<Rightarrow>
          if i < 0 \<or> Itoa (nat i) \<noteq> tl field then Err ()
          else let index = nat i in
            if index \<in> fst ` set modifications \<or> index \<in> fst ` set subDiffs then Err ()
            else if hd field = CHR ''u'' then collect_loop fs ((index, v) # modifications) subDiffs
            else (case v of BDocument subDiff \<Rightarrow> collect_loop fs modifications ((index, subDiff) # subDiffs) | _ \<Rightarrow> Err ()))"

definition final_length :: "nat \<Rightarrow> (nat \<times> bson) list \<Rightarrow> (nat \<times> fields) list \<Rightarrow> nat" where
  "final_length newLength modifications subDiffs = fold (\<lambda>i n. max n (Suc i)) (map fst modifications @ map fst subDiffs) newLength"

lemma final_length_least: "final_length n ms ss = Max (insert n (Suc ` (fst ` set ms \<union> fst ` set ss)))"
proof -
  have *: "fold (\<lambda>i n. max n (Suc i)) is n = Max (insert n (Suc ` set is))" for "is"
  proof (induction "is" arbitrary: n)
    case (Cons i "is")
    have "Max (insert (max n (Suc i)) (Suc ` set is)) = Max (insert n (insert (Suc i) (Suc ` set is)))"
      by (cases "is = []") (simp_all add: max.assoc)
    then show ?case by (simp add: Cons.IH)
  qed simp
  show ?thesis unfolding final_length_def * by (simp add: image_Un image_image)
qed

fun each_result :: "('a \<Rightarrow> ('e, 'b) result) \<Rightarrow> 'a list \<Rightarrow> ('e, 'b list) result" where
  "each_result f [] = Ok []"
| "each_result f (x # xs) = bind_result (f x) (\<lambda>y. bind_result (each_result f xs) (\<lambda>ys. Ok (y # ys)))"

lemma each_result_cong [fundef_cong]:
  "xs = ys \<Longrightarrow> (\<And>x. x \<in> set ys \<Longrightarrow> f x = g x) \<Longrightarrow> each_result f xs = each_result g ys"
  by (induction xs arbitrary: ys) auto

lemma collect_sub: "collect_loop fs ms ss = Ok (ms', ss') \<Longrightarrow> (i, d) \<in> set ss' \<Longrightarrow> (i, d) \<in> set ss \<or> (\<exists>k. (k, BDocument d) \<in> set fs)"
proof (induction fs ms ss rule: collect_loop.induct)
  case (2 field v fs ms ss)
  then show ?case by (auto simp: Let_def split: if_splits option.splits bson.splits) fastforce+
qed simp

lemma collected_size: "collect_loop fs [] [] = Ok (ms, ss) \<Longrightarrow> map_of ss i = Some d \<Longrightarrow> Suc (doc_size d) < doc_size fs"
  using collect_sub [of fs "[]" "[]" ms ss i d] pair_value_size by (fastforce dest: map_of_SomeD)

function (sequential) ApplyV2Diff :: "nat \<Rightarrow> fields \<Rightarrow> fields \<Rightarrow> fields diffed"
  and sub_loop :: "nat \<Rightarrow> fields \<Rightarrow> fields \<Rightarrow> string list \<Rightarrow> fields diffed"
  and sub_value :: "nat \<Rightarrow> bson \<Rightarrow> fields \<Rightarrow> bson diffed"
  and applyArrayDiff :: "nat \<Rightarrow> bson list \<Rightarrow> fields \<Rightarrow> bson list diffed" where
  "ApplyV2Diff maxSlots preImage diff =
     bind_result (isArrayDiff diff) (\<lambda>array.
       if array then Err ()
       else bind_result (validateObjectDiffOrder diff) (\<lambda>_.
         bind_result (sections_loop diff [''d'', ''u'', ''i''] (preImage, [])) (\<lambda>(res, modified).
           sub_loop maxSlots diff res modified)))"
| "sub_loop maxSlots [] res modified = Ok res"
| "sub_loop maxSlots ((sec, v) # rest) res modified =
     (if sec = ''d'' \<or> sec = ''u'' \<or> sec = ''i'' then sub_loop maxSlots rest res modified
      else if \<not> HasPrefix sec ''s'' \<or> length sec = 1 then Err ()
      else if tl sec \<in> set modified then Err ()
      else case v of
        BDocument subDiff \<Rightarrow>
          bind_result (get_value subDiff ''a'') (\<lambda>header.
            if header \<noteq> None \<and> header \<noteq> Some (BBool True) then Err ()
            else bind_result (if header \<noteq> None then bind_result (applyArrayDiff maxSlots [] subDiff) (\<lambda>_. Ok ())
                else bind_result (ApplyV2Diff maxSlots [] subDiff) (\<lambda>_. Ok ())) (\<lambda>_.
              bind_result (get_value res (tl sec)) (\<lambda>preValue.
                case preValue of
                  None \<Rightarrow> sub_loop maxSlots rest res (tl sec # modified)
                | Some pre \<Rightarrow>
                    bind_result (sub_value maxSlots pre subDiff) (\<lambda>updated.
                      sub_loop maxSlots rest (fields_put res (tl sec) updated) (tl sec # modified)))))
      | _ \<Rightarrow> Err ())"
| "sub_value maxSlots pre subDiff =
     (case pre of
        BArray vs \<Rightarrow> bind_result (isArrayDiff subDiff) (\<lambda>array.
          if array then bind_result (applyArrayDiff maxSlots vs subDiff) (\<lambda>vs'. Ok (BArray vs')) else Ok BNull)
      | BDocument fs \<Rightarrow> bind_result (isArrayDiff subDiff) (\<lambda>array.
          if array then Ok BNull else bind_result (ApplyV2Diff maxSlots fs subDiff) (\<lambda>fs'. Ok (BDocument fs')))
      | _ \<Rightarrow> Ok BNull)"
| "applyArrayDiff maxSlots preImage diff =
     bind_result (array_header diff) (\<lambda>_.
       bind_result (array_length (length preImage) diff) (\<lambda>len.
         bind_result (collect_loop diff [] []) (\<lambda>(modifications, subDiffs).
           if final_length len modifications subDiffs > maxSlots then Panic
           else each_result (\<lambda>index.
             case map_of modifications index of
               Some v \<Rightarrow> Ok v
             | None \<Rightarrow>
                 let preExists = index < length preImage in
                 case map_of subDiffs index of
                   Some subDiff \<Rightarrow> if \<not> preExists then Ok BNull else sub_value maxSlots (preImage ! index) subDiff
                 | None \<Rightarrow> Ok (if preExists then preImage ! index else BNull))
             [0..<final_length len modifications subDiffs])))"
  by pat_completeness auto
termination
  by (relation "measure (\<lambda>x. case x of
        Inl (Inl (_, _, diff)) \<Rightarrow> 4 * doc_size diff + 1
      | Inl (Inr (_, rest, _, _)) \<Rightarrow> 4 * doc_size rest
      | Inr (Inl (_, _, diff)) \<Rightarrow> 4 * doc_size diff + 2
      | Inr (Inr (_, _, diff)) \<Rightarrow> 4 * doc_size diff + 1)")
    (auto dest!: collected_size)

declare ApplyV2Diff.simps [simp del] sub_loop.simps(2) [simp del] sub_value.simps [simp del] applyArrayDiff.simps [simp del]

section \<open>Sections of a diff\<close>

abbreviation keys_of :: "fields \<Rightarrow> string set" where
  "keys_of fs \<equiv> fst ` set fs"

definition same_at :: "fields \<Rightarrow> fields \<Rightarrow> string \<Rightarrow> bool" where
  "same_at fs gs k \<longleftrightarrow> field_get fs k = field_get gs k \<and> key_count fs k = key_count gs k"

lemma fields_put_same: "field_get fs k = Some v \<Longrightarrow> fields_put fs k v = fs"
  by (induction fs) (auto split: if_splits)

lemma fields_put_absent: "k \<notin> keys_of fs \<Longrightarrow> fields_put fs k v = fs @ [(k, v)]"
  by (induction fs) auto

lemma fields_put_append: "k \<in> keys_of fs \<Longrightarrow> fields_put (fs @ gs) k v = fields_put fs k v @ gs"
  by (induction fs) force+

lemma fields_del_append1: "k \<notin> keys_of gs \<Longrightarrow> fields_del (fs @ gs) k = fields_del fs k @ gs"
  by (induction fs) (auto simp: fields_del_absent key_count_zero)

lemma fields_del_append2: "k \<notin> keys_of fs \<Longrightarrow> fields_del (fs @ gs) k = fs @ fields_del gs k"
  by (induction fs) auto

lemma fields_del_keys: "key_count fs k \<le> 1 \<Longrightarrow> keys_of (fields_del fs k) = keys_of fs - {k}"
proof (rule set_eqI)
  fix x
  assume "key_count fs k \<le> 1"
  then show "x \<in> keys_of (fields_del fs k) \<longleftrightarrow> x \<in> keys_of fs - {k}"
    using key_count_zero [of "fields_del fs k" x] key_count_zero [of fs x] by (cases "x = k") simp_all
qed

lemma change_field_frame:
  "change_field sec res k v = Ok res' \<Longrightarrow> k' \<noteq> k \<Longrightarrow> same_at res' res k'"
  by (auto simp: change_field_def same_at_def field_get_del split: if_splits)

lemma section_loop_frame:
  "section_loop sec fs (res, m) = Ok (res', m') \<Longrightarrow>
    m' = rev (map fst fs) @ m \<and> distinct (map fst fs) \<and> keys_of fs \<inter> set m = {} \<and> (\<forall>k. k \<notin> keys_of fs \<longrightarrow> same_at res' res k)"
proof (induction fs arbitrary: res m)
  case Nil
  then show ?case by (simp add: same_at_def)
next
  case (Cons f fs)
  obtain k v where f: "f = (k, v)" by (cases f)
  from Cons.prems obtain res1 where c: "change_field sec res k v = Ok res1" "k \<notin> set m"
    and l: "section_loop sec fs (res1, k # m) = Ok (res', m')"
    by (auto simp: f split: if_splits)
  show ?case using Cons.IH [OF l] c(2) change_field_frame [OF c(1)] by (auto simp: f same_at_def)
qed

lemma section_loop_again:
  "distinct (map fst fs) \<Longrightarrow> keys_of fs \<inter> set m = {} \<Longrightarrow> (\<And>k v. (k, v) \<in> set fs \<Longrightarrow> change_field sec r k v = Ok r) \<Longrightarrow>
    section_loop sec fs (r, m) = Ok (r, rev (map fst fs) @ m)"
proof (induction fs arbitrary: m)
  case (Cons f fs)
  then show ?case by (cases f) (auto simp: image_iff)
qed simp

lemma section_deletes:
  "section_loop ''d'' fs (res, m) = Ok (res', m') \<Longrightarrow> k \<in> keys_of fs \<Longrightarrow> key_count res' k = 0"
proof (induction fs arbitrary: res m)
  case (Cons f fs)
  obtain k1 v where f: "f = (k1, v)" by (cases f)
  from Cons.prems obtain res1 where c: "change_field ''d'' res k1 v = Ok res1"
    and l: "section_loop ''d'' fs (res1, k1 # m) = Ok (res', m')"
    by (auto simp: f split: if_splits)
  have "key_count res1 k1 = 0" using c by (auto simp: change_field_def split: if_splits)
  then show ?case using Cons.IH [OF l] Cons.prems(2) section_loop_frame [OF l] by (auto simp: f same_at_def)
qed simp

lemma section_updates:
  "section_loop ''u'' fs (res, m) = Ok (res', m') \<Longrightarrow> (k, v) \<in> set fs \<Longrightarrow> field_get res' k = Some v \<and> key_count res' k = 1"
proof (induction fs arbitrary: res m)
  case (Cons f fs)
  obtain k1 v1 where f: "f = (k1, v1)" by (cases f)
  from Cons.prems obtain res1 where c: "change_field ''u'' res k1 v1 = Ok res1"
    and l: "section_loop ''u'' fs (res1, k1 # m) = Ok (res', m')"
    by (auto simp: f split: if_splits)
  have "field_get res1 k1 = Some v1 \<and> key_count res1 k1 = 1" using c by (auto simp: change_field_def split: if_splits)
  then show ?case using Cons.IH [OF l] Cons.prems(2) section_loop_frame [OF l] by (auto simp: f same_at_def)
qed simp

lemma section_inserts:
  "section_loop ''i'' fs (res @ done, m) = Ok (res', m') \<Longrightarrow> keys_of done \<subseteq> set m \<Longrightarrow> keys_of done \<inter> keys_of res = {} \<Longrightarrow>
    \<exists>base. res' = base @ done @ fs \<and> keys_of base \<inter> keys_of (done @ fs) = {}"
proof (induction fs arbitrary: res m "done")
  case Nil
  then show ?case by auto
next
  case (Cons f fs)
  obtain k v where f: "f = (k, v)" by (cases f)
  from Cons.prems obtain res1 where c: "change_field ''i'' (res @ done) k v = Ok res1" "k \<notin> set m"
    and l: "section_loop ''i'' fs (res1, k # m) = Ok (res', m')"
    by (auto simp: f split: if_splits)
  have n: "k \<notin> keys_of done" using c(2) Cons.prems(2) by auto
  have kc: "key_count res k \<le> 1" using c(1) by (auto simp: change_field_def key_count_def split: if_splits)
  have res1: "res1 = fields_del res k @ done @ [(k, v)]"
    using c(1) n fields_put_absent [of k "fields_del res k @ done" v] fields_del_keys [OF kc]
    by (auto simp: change_field_def fields_del_append1 image_Un split: if_splits)
  have "\<exists>base. res' = base @ (done @ [(k, v)]) @ fs \<and> keys_of base \<inter> keys_of ((done @ [(k, v)]) @ fs) = {}"
    by (rule Cons.IH [of "fields_del res k" _ "k # m"]) (use l res1 Cons.prems(2,3) kc fields_del_keys [OF kc] in auto)
  then show ?case by (simp add: f)
qed

lemma section_inserts_again:
  "distinct (map fst fs) \<Longrightarrow> keys_of fs \<inter> set m = {} \<Longrightarrow> keys_of fs \<inter> keys_of (base @ done) = {} \<Longrightarrow>
    section_loop ''i'' fs (base @ fs @ done, m) = Ok (base @ done @ fs, rev (map fst fs) @ m)"
proof (induction fs arbitrary: m "done")
  case (Cons f fs)
  obtain k v where f: "f = (k, v)" by (cases f)
  have n: "k \<notin> keys_of base" "k \<notin> keys_of done" "k \<notin> keys_of fs" "k \<notin> set m" using Cons.prems by (auto simp: f)
  have kc: "key_count base k = 0" "key_count done k = 0" "key_count fs k = 0" using n by (simp_all add: key_count_zero)
  then have kc: "key_count (base @ (k, v) # fs @ done) k = 1" by (auto simp: key_count_def)
  have "change_field ''i'' (base @ (k, v) # fs @ done) k v = Ok (base @ fs @ done @ [(k, v)])"
    using n kc fields_put_absent [of k "base @ fs @ done" v] by (simp add: change_field_def fields_del_append2 image_Un)
  then show ?case using Cons.IH [of "k # m" "done @ [(k, v)]"] Cons.prems n by (auto simp: f)
qed simp

definition section_of :: "fields \<Rightarrow> string \<Rightarrow> fields" where
  "section_of diff sec = (case field_get diff sec of Some (BDocument document) \<Rightarrow> document | _ \<Rightarrow> [])"

definition section_ok :: "fields \<Rightarrow> string \<Rightarrow> bool" where
  "section_ok diff sec \<longleftrightarrow> key_count diff sec \<le> 1 \<and> (case field_get diff sec of None \<Rightarrow> True | Some v \<Rightarrow> is_document v)"

lemma sections_loop_step:
  "sections_loop diff (sec # secs) s = Ok s' \<longleftrightarrow>
    section_ok diff sec \<and> (\<exists>s1. section_loop sec (section_of diff sec) s = Ok s1 \<and> sections_loop diff secs s1 = Ok s')"
  by (cases s) (auto simp: section_ok_def section_of_def get_value_def split: option.splits bson.splits)

text \<open>A document in which the sections have taken effect.\<close>

definition sections_done :: "fields \<Rightarrow> fields \<Rightarrow> bool" where
  "sections_done diff r \<longleftrightarrow>
     (\<forall>k. k \<in> keys_of (section_of diff ''d'') \<longrightarrow> key_count r k = 0) \<and>
     (\<forall>k v. (k, v) \<in> set (section_of diff ''u'') \<longrightarrow> field_get r k = Some v \<and> key_count r k = 1) \<and>
     (\<exists>base. r = base @ section_of diff ''i'' \<and> keys_of base \<inter> keys_of (section_of diff ''i'') = {})"

lemma sections_doneD:
  assumes "sections_done diff r"
  shows "k \<in> keys_of (section_of diff ''d'') \<Longrightarrow> key_count r k = 0"
    and "(k, v) \<in> set (section_of diff ''u'') \<Longrightarrow> field_get r k = Some v \<and> key_count r k = 1"
  using assms by (auto simp: sections_done_def)

lemma sections_loop_done:
  assumes "sections_loop diff [''d'', ''u'', ''i''] (pre, []) = Ok (res, m)"
  shows "sections_done diff res" and "keys_of (section_of diff ''i'') \<subseteq> set m"
    and "keys_of (section_of diff ''d'') \<union> keys_of (section_of diff ''u'') \<subseteq> set m"
    and "sections_done diff r \<Longrightarrow> sections_loop diff [''d'', ''u'', ''i''] (r, []) = Ok (r, m)"
proof -
  let ?d = "section_of diff ''d''" and ?u = "section_of diff ''u''" and ?i = "section_of diff ''i''"
  obtain r1 m1 r2 m2 where ok: "section_ok diff ''d''" "section_ok diff ''u''" "section_ok diff ''i''"
    and d: "section_loop ''d'' ?d (pre, []) = Ok (r1, m1)" and u: "section_loop ''u'' ?u (r1, m1) = Ok (r2, m2)"
    and i: "section_loop ''i'' ?i (r2, m2) = Ok (res, m)"
    using assms by (auto simp: sections_loop_step simp del: sections_loop.simps(2))
  note df = section_loop_frame [OF d] and uf = section_loop_frame [OF u] and "if" = section_loop_frame [OF i]
  show "keys_of ?i \<subseteq> set m" "keys_of ?d \<union> keys_of ?u \<subseteq> set m" using df uf "if" by auto
  have "key_count res k = 0" if "k \<in> keys_of ?d" for k
  proof -
    have "k \<notin> keys_of ?u" "k \<notin> keys_of ?i" using that df uf "if" by auto
    then show ?thesis using section_deletes [OF d that] uf "if" by (simp add: same_at_def)
  qed
  moreover have "field_get res k = Some v \<and> key_count res k = 1" if "(k, v) \<in> set ?u" for k v
  proof -
    have "k \<in> keys_of ?u" using that by force
    then have "k \<notin> keys_of ?i" using uf "if" by auto
    then show ?thesis using section_updates [OF u that] "if" by (simp add: same_at_def)
  qed
  moreover have "\<exists>base. res = base @ ?i \<and> keys_of base \<inter> keys_of ?i = {}"
    using section_inserts [of ?i r2 "[]" m2 res m] i by simp
  ultimately show "sections_done diff res" by (auto simp: sections_done_def)
  assume r: "sections_done diff r"
  then obtain base where base: "r = base @ ?i" "keys_of base \<inter> keys_of ?i = {}" by (auto simp: sections_done_def)
  have done_d: "change_field ''d'' r k v = Ok r" if "(k, v) \<in> set ?d" for k v
  proof -
    have "key_count r k = 0" using r that by (force simp: sections_done_def)
    then show ?thesis by (simp add: change_field_def fields_del_absent)
  qed
  have done_u: "change_field ''u'' r k v = Ok r" if "(k, v) \<in> set ?u" for k v
  proof -
    have "field_get r k = Some v \<and> key_count r k = 1" using r that by (auto simp: sections_done_def)
    then show ?thesis by (simp add: change_field_def fields_put_same)
  qed
  have "section_loop ''d'' ?d (r, []) = Ok (r, m1)"
    using section_loop_again [of ?d "[]" "''d''" r] df done_d by simp
  moreover have "section_loop ''u'' ?u (r, m1) = Ok (r, m2)"
    using section_loop_again [of ?u m1 "''u''" r] uf done_u by simp
  moreover have "section_loop ''i'' ?i (r, m2) = Ok (r, m)"
    using section_inserts_again [of ?i m2 base "[]"] "if" base by (simp add: Int_commute)
  ultimately show "sections_loop diff [''d'', ''u'', ''i''] (r, []) = Ok (r, m)"
    using ok by (simp add: sections_loop_step del: sections_loop.simps(2))
qed

section \<open>Nested diffs\<close>

text \<open>What a step of the loop over nested diffs did.\<close>

lemma sub_loop_cases:
  assumes "sub_loop M ((sec, v) # rest) res m = Ok r"
  obtains "sec \<in> {''d'', ''u'', ''i''}" "sub_loop M rest res m = Ok r"
  | sd where "v = BDocument sd" "tl sec \<notin> set m" "field_get res (tl sec) = None" "sub_loop M rest res (tl sec # m) = Ok r"
      "\<And>r'. field_get r' (tl sec) = None \<Longrightarrow> sub_loop M ((sec, v) # rest) r' m = sub_loop M rest r' (tl sec # m)"
  | sd pre w where "v = BDocument sd" "tl sec \<notin> set m" "field_get res (tl sec) = Some pre" "key_count res (tl sec) \<le> 1"
      "sub_value M pre sd = Ok w" "sub_loop M rest (fields_put res (tl sec) w) (tl sec # m) = Ok r"
      "\<And>r' pre' w'. field_get r' (tl sec) = Some pre' \<Longrightarrow> key_count r' (tl sec) \<le> 1 \<Longrightarrow> sub_value M pre' sd = Ok w' \<Longrightarrow>
         sub_loop M ((sec, v) # rest) r' m = sub_loop M rest (fields_put r' (tl sec) w') (tl sec # m)"
proof (cases "sec \<in> {''d'', ''u'', ''i''}")
  case True
  then show ?thesis using that(1) assms by (auto simp: sub_loop.simps(2))
next
  case False
  then obtain sd header where v: "v = BDocument sd" "tl sec \<notin> set m" "HasPrefix sec ''s''" "length sec \<noteq> 1"
    and h: "get_value sd ''a'' = (Ok header :: bson option diffed)" "\<not> (header \<noteq> None \<and> header \<noteq> Some (BBool True))"
    and chk: "(if header \<noteq> None then bind_result (applyArrayDiff M [] sd) (\<lambda>_. Ok ())
      else bind_result (ApplyV2Diff M [] sd) (\<lambda>_. Ok ())) = Ok ()"
    and kc: "key_count res (tl sec) \<le> 1"
    using assms by (auto simp: sub_loop.simps(2) get_value_def split: if_splits bson.splits option.splits)
  have eq: "sub_loop M ((sec, v) # rest) r' m = (case field_get r' (tl sec) of
      None \<Rightarrow> sub_loop M rest r' (tl sec # m)
    | Some pre \<Rightarrow> bind_result (sub_value M pre sd) (\<lambda>w. sub_loop M rest (fields_put r' (tl sec) w) (tl sec # m)))"
    if "key_count r' (tl sec) \<le> 1" for r'
    using False v h chk that by (cases header) (simp_all add: sub_loop.simps(2) get_value_def [of r'] del: bind_result_Ok_iff)
  show ?thesis
  proof (cases "field_get res (tl sec)")
    case None
    have "sub_loop M ((sec, v) # rest) r' m = sub_loop M rest r' (tl sec # m)" if "field_get r' (tl sec) = None" for r'
      using that eq [of r'] field_get_None [of r' "tl sec"] by simp
    then show ?thesis using that(2) v(1,2) None assms by simp
  next
    case (Some pre)
    then obtain w where "sub_value M pre sd = Ok w" "sub_loop M rest (fields_put res (tl sec) w) (tl sec # m) = Ok r"
      using assms eq [OF kc] by auto
    then show ?thesis using that(3) v(1,2) Some kc eq by simp
  qed
qed

lemma sub_loop_frame:
  "sub_loop M rest res m = Ok r \<Longrightarrow> (\<forall>k\<in>set m. same_at r res k) \<and>
    (\<forall>base tail. res = base @ tail \<longrightarrow> keys_of tail \<subseteq> set m \<longrightarrow> (\<exists>base'. r = base' @ tail \<and> keys_of base' = keys_of base))"
proof (induction rest arbitrary: res m)
  case Nil
  then show ?case by (auto simp: same_at_def)
next
  case (Cons f rest)
  obtain sec v where f: "f = (sec, v)" by (cases f)
  from Cons.prems show ?case unfolding f
  proof (cases rule: sub_loop_cases)
    case 1
    then show ?thesis using Cons.IH by blast
  next
    case (2 sd)
    then show ?thesis using Cons.IH [OF 2(4)] by (auto simp: subset_iff)
  next
    case (3 sd pre w)
    have put: "fields_put (base @ tail) (tl sec) w = fields_put base (tl sec) w @ tail \<and> tl sec \<in> keys_of base"
      if "res = base @ tail" "keys_of tail \<subseteq> set m" for base tail
    proof -
      have "tl sec \<in> keys_of (base @ tail)" using 3(3) that(1) by (auto simp: field_get_map_of dest!: map_of_SomeD intro: rev_image_eqI)
      then have "tl sec \<in> keys_of base" using 3(2) that(2) by auto
      then show ?thesis by (simp add: fields_put_append)
    qed
    note ih = Cons.IH [OF 3(6)]
    have "\<exists>base'. r = base' @ tail \<and> keys_of base' = keys_of base" if "res = base @ tail" "keys_of tail \<subseteq> set m" for base tail
    proof -
      have "\<exists>base'. r = base' @ tail \<and> keys_of base' = keys_of (fields_put base (tl sec) w)"
        using ih put [OF that] that by (auto simp: subset_iff)
      then show ?thesis using put [OF that] by (auto simp: fields_put_fst insert_absorb)
    qed
    then show ?thesis using ih 3(2) by (auto simp: same_at_def)
  qed
qed

definition sub_again :: "nat \<Rightarrow> fields \<Rightarrow> bool" where
  "sub_again M sd \<longleftrightarrow> (\<forall>v w. sub_value M v sd = Ok w \<longrightarrow> sub_value M w sd = Ok w)"

lemma sub_loop_again:
  "sub_loop M rest res m = Ok r \<Longrightarrow> (\<And>sec sd. (sec, BDocument sd) \<in> set rest \<Longrightarrow> sub_again M sd) \<Longrightarrow> sub_loop M rest r m = Ok r"
proof (induction rest arbitrary: res m)
  case (Cons f rest)
  obtain sec v where f: "f = (sec, v)" by (cases f)
  have again: "sub_loop M rest r m' = Ok r" if "sub_loop M rest res' m' = Ok r" for res' m'
    by (rule Cons.IH [OF that]) (rule Cons.prems(2), erule list.set_intros(2))
  from Cons.prems(1) [unfolded f] show ?case
  proof (cases rule: sub_loop_cases)
    case 1
    then show ?thesis using again by (auto simp: f sub_loop.simps(2))
  next
    case (2 sd)
    then show ?thesis using again [OF 2(4)] sub_loop_frame [OF 2(4)] by (simp add: f same_at_def)
  next
    case (3 sd pre w)
    have r: "field_get r (tl sec) = Some w" "key_count r (tl sec) \<le> 1"
      using sub_loop_frame [OF 3(6)] 3(4) by (simp_all add: same_at_def)
    have "sub_value M w sd = Ok w" using Cons.prems(2) [of sec sd] 3(1,5) by (auto simp: f sub_again_def)
    then show ?thesis using 3(7) [OF r] again [OF 3(6)] r(1) by (simp add: f fields_put_same)
  qed
qed simp

lemma each_result_Ok_iff:
  "each_result f xs = Ok ys \<longleftrightarrow> length ys = length xs \<and> (\<forall>i < length xs. f (xs ! i) = Ok (ys ! i))"
proof (induction xs arbitrary: ys)
  case (Cons x xs)
  then show ?case by (cases ys) (auto simp: All_less_Suc2)
qed auto

lemma final_length_final [simp]: "final_length (final_length n ms ss) ms ss = final_length n ms ss"
proof -
  have "Max (insert (Max (insert n A)) A) = Max (insert n A)" if "finite A" for A
    using that by (cases "A = {}") auto
  then show ?thesis by (simp only: final_length_least) simp
qed

lemma ApplyV2Diff_again_step:
  assumes "ApplyV2Diff M pre diff = Ok r" and "\<And>sec sd. (sec, BDocument sd) \<in> set diff \<Longrightarrow> sub_again M sd"
  shows "ApplyV2Diff M r diff = Ok r"
proof -
  obtain res m where checks: "isArrayDiff diff = Ok False" "validateObjectDiffOrder diff = Ok ()"
    and s: "sections_loop diff [''d'', ''u'', ''i''] (pre, []) = Ok (res, m)" and l: "sub_loop M diff res m = Ok r"
    using assms(1) by (auto simp: ApplyV2Diff.simps split: if_splits simp del: sections_loop.simps)
  note sd = sections_loop_done [OF s] and fr = sub_loop_frame [OF l]
  obtain base where "res = base @ section_of diff ''i''" "keys_of base \<inter> keys_of (section_of diff ''i'') = {}"
    using sd(1) by (auto simp: sections_done_def)
  then have "\<exists>base. r = base @ section_of diff ''i'' \<and> keys_of base \<inter> keys_of (section_of diff ''i'') = {}"
    using fr sd(2) by metis
  moreover have "key_count r k = 0" if "k \<in> keys_of (section_of diff ''d'')" for k
  proof -
    have "same_at r res k" using that sd(3) conjunct1 [OF fr] by blast
    moreover have "key_count res k = 0" by (rule sections_doneD(1) [OF sd(1) that])
    ultimately show ?thesis by (simp add: same_at_def)
  qed
  moreover have "field_get r k = Some v \<and> key_count r k = 1" if "(k, v) \<in> set (section_of diff ''u'')" for k v
  proof -
    have "k \<in> set m" using that sd(3) by force
    then have "same_at r res k" using conjunct1 [OF fr] by blast
    moreover have "field_get res k = Some v \<and> key_count res k = 1" by (rule sections_doneD(2) [OF sd(1) that])
    ultimately show ?thesis by (simp add: same_at_def)
  qed
  ultimately have "sections_done diff r" unfolding sections_done_def
    by (intro conjI allI impI) simp_all
  then show ?thesis
    using sd(4) [of r] checks sub_loop_again [OF l assms(2)] by (simp add: ApplyV2Diff.simps del: sections_loop.simps)
qed

lemma each_result_upt: "each_result f [0..<n] = Ok ys \<longleftrightarrow> length ys = n \<and> (\<forall>i < n. f i = Ok (ys ! i))"
  by (auto simp: each_result_Ok_iff)

text \<open>An element of the array a diff makes.\<close>

definition array_element :: "nat \<Rightarrow> bson list \<Rightarrow> (nat \<times> bson) list \<Rightarrow> (nat \<times> fields) list \<Rightarrow> nat \<Rightarrow> bson diffed" where
  "array_element M pre ms ss i =
     (case map_of ms i of
        Some v \<Rightarrow> Ok v
      | None \<Rightarrow>
          let preExists = i < length pre in
          case map_of ss i of
            Some sd \<Rightarrow> if \<not> preExists then Ok BNull else sub_value M (pre ! i) sd
          | None \<Rightarrow> Ok (if preExists then pre ! i else BNull))"

lemma applyArrayDiff_eq:
  "applyArrayDiff M pre diff =
     bind_result (array_header diff) (\<lambda>_.
       bind_result (array_length (length pre) diff) (\<lambda>len.
         bind_result (collect_loop diff [] []) (\<lambda>(ms, ss).
           if final_length len ms ss > M then Panic
           else each_result (array_element M pre ms ss) [0..<final_length len ms ss])))"
  unfolding applyArrayDiff.simps [of M pre diff] array_element_def [abs_def] by (rule refl)

lemma applyArrayDiff_Ok_iff:
  "applyArrayDiff M pre diff = Ok r \<longleftrightarrow>
    (\<exists>len ms ss. array_header diff = Ok () \<and> array_length (length pre) diff = Ok len \<and> collect_loop diff [] [] = Ok (ms, ss) \<and>
      length r \<le> M \<and> length r = final_length len ms ss \<and> (\<forall>i < length r. array_element M pre ms ss i = Ok (r ! i)))"
proof (cases "collect_loop diff [] []")
  case (Ok p)
  then show ?thesis
    by (cases p; cases "array_length (length pre) diff") (auto simp: applyArrayDiff_eq each_result_upt split: if_splits)
qed (auto simp: applyArrayDiff_eq)

lemma array_length_again:
  assumes "array_length n diff = Ok len"
  shows "array_length k diff = Ok len \<or> array_length k diff = Ok k"
proof (cases "field_get diff ''l''")
  case (Some v)
  then show ?thesis using assms by (cases v) (simp_all add: array_length_def get_value_def split: if_splits)
qed (use assms in \<open>simp add: array_length_def get_value_def split: if_splits\<close>)

lemma applyArrayDiff_again_step:
  assumes "applyArrayDiff M pre diff = Ok r" and "\<And>sec sd. (sec, BDocument sd) \<in> set diff \<Longrightarrow> sub_again M sd"
  shows "applyArrayDiff M r diff = Ok r"
proof -
  obtain len ms ss where h: "array_header diff = Ok ()" and l: "array_length (length pre) diff = Ok len"
    and c: "collect_loop diff [] [] = Ok (ms, ss)" and n: "length r \<le> M" "length r = final_length len ms ss"
    and el: "\<And>i. i < length r \<Longrightarrow> array_element M pre ms ss i = Ok (r ! i)"
    using assms(1) by (auto simp: applyArrayDiff_Ok_iff)
  have len': "\<exists>len'. array_length (length r) diff = Ok len' \<and> length r = final_length len' ms ss"
    using array_length_again [OF l, of "length r"] n(2) by (metis final_length_final)
  have "array_element M r ms ss i = Ok (r ! i)" if "i < length r" for i
  proof (cases "map_of ms i = None \<and> map_of ss i \<noteq> None")
    case True
    then obtain sd where sd: "map_of ss i = Some sd" by auto
    then have "sub_again M sd"
      using collect_sub [OF c, of i sd] assms(2) by (auto dest: map_of_SomeD)
    then show ?thesis using el [OF that] True sd that
      by (auto simp: array_element_def sub_again_def sub_value.simps [of M BNull] split: if_splits)
  qed (use el [OF that] that in \<open>auto simp: array_element_def Let_def split: option.splits\<close>)
  then show ?thesis using h c n len' by (auto simp: applyArrayDiff_Ok_iff)
qed

lemma diff_again:
  "(ApplyV2Diff M pre diff = Ok r \<longrightarrow> ApplyV2Diff M r diff = Ok r) \<and>
   (applyArrayDiff M vs diff = Ok ws \<longrightarrow> applyArrayDiff M ws diff = Ok ws)"
proof (induction "doc_size diff" arbitrary: diff pre r vs ws rule: less_induct)
  case less
  have "sub_again M sd" if "(sec, BDocument sd) \<in> set diff" for sec sd
  proof -
    have "doc_size sd < doc_size diff" using pair_value_size [OF that] by simp
    note ih = less [OF this]
    show ?thesis unfolding sub_again_def
    proof (intro allI impI)
      fix v w
      assume "sub_value M v sd = Ok w"
      then show "sub_value M w sd = Ok w"
        using ih by (auto simp: sub_value.simps split: bson.splits if_splits)
    qed
  qed
  then show ?case using ApplyV2Diff_again_step applyArrayDiff_again_step by blast
qed

section \<open>Replay\<close>

definition sample_pre :: fields where
  "sample_pre = [(''x'', BInt32 1), (''l'', BArray [BInt32 7, BDocument [(''b'', BInt32 2)]]), (''c'', BInt32 3)]"

definition sample_array_diff :: fields where
  "sample_array_diff = [(''a'', BBool True), (''u3'', BNull), (''s1'', BDocument [(''u'', BDocument [(''b'', BInt32 9)])])]"

definition sample_diff :: fields where
  "sample_diff = [(''d'', BDocument [(''c'', BBool False)]), (''i'', BDocument [(''x'', BInt32 5)]), (''sl'', BDocument sample_array_diff)]"

definition sample_post :: fields where
  "sample_post = [(''l'', BArray [BInt32 7, BDocument [(''b'', BInt32 9)], BNull, BNull]), (''x'', BInt32 5)]"

lemma sample_collected: "collect_loop sample_array_diff [] [] = Ok ([(3, BNull)], [(1, [(''u'', BDocument [(''b'', BInt32 9)])])])"
proof -
  have "Itoa 3 = ''3''" "Itoa 1 = ''1''" "Atoi ''3'' = Some 3" "Atoi ''1'' = Some 1" by code_simp+
  then show ?thesis by (simp add: sample_array_diff_def)
qed

lemmas diff_defs = isArrayDiff_def get_value_def validateObjectDiffOrder_def section_order_def change_field_def
  array_header_def array_length_def final_length_def

lemma sample_array_applied:
  assumes "4 \<le> M"
  shows "applyArrayDiff M [BInt32 7, BDocument [(''b'', BInt32 2)]] sample_array_diff =
      Ok [BInt32 7, BDocument [(''b'', BInt32 9)], BNull, BNull]"
    and "applyArrayDiff M [] sample_array_diff = Ok [BNull, BNull, BNull, BNull]"
proof -
  have u: "[0..<4] = [0, 1, 2, 3]" by code_simp
  have h: "array_header sample_array_diff = Ok ()" "array_length n sample_array_diff = Ok n" for n
    by (simp_all add: sample_array_diff_def array_header_def array_length_def get_value_def)
  have "ApplyV2Diff M [(''b'', BInt32 2)] [(''u'', BDocument [(''b'', BInt32 9)])] = Ok [(''b'', BInt32 9)]"
    by (simp add: ApplyV2Diff.simps sub_loop.simps(2) diff_defs)
  then show "applyArrayDiff M [BInt32 7, BDocument [(''b'', BInt32 2)]] sample_array_diff =
      Ok [BInt32 7, BDocument [(''b'', BInt32 9)], BNull, BNull]"
    using assms by (simp add: applyArrayDiff_eq h sample_collected final_length_def u array_element_def sub_value.simps isArrayDiff_def get_value_def)
  show "applyArrayDiff M [] sample_array_diff = Ok [BNull, BNull, BNull, BNull]"
    using assms by (simp add: applyArrayDiff_eq h sample_collected final_length_def u array_element_def)
qed

lemma sample_applied: "4 \<le> M \<Longrightarrow> ApplyV2Diff M sample_pre sample_diff = Ok sample_post"
  by (simp add: sample_pre_def sample_diff_def sample_post_def ApplyV2Diff.simps [of M "(''x'', BInt32 1) # fs" for fs] sub_loop.simps(2)
      sub_value.simps sample_array_applied diff_defs) (simp add: sample_array_diff_def)

text \<open>
  Property C8 (functional). A diff can be replayed: applying it to the document it has produced changes
  nothing, for nested documents and arrays too and down to the order of the fields. An oplog
  entry applied twice leaves the document of one application.
\<close>

theorem ApplyV2Diff_replay:
  assumes "ApplyV2Diff maxSlots preImage diff = Ok postImage"
  shows "ApplyV2Diff maxSlots postImage diff = Ok postImage"
  using diff_again assms by blast

theorem ApplyV2Diff_replay_witness:
  "ApplyV2Diff (2 ^ 31) sample_pre sample_diff = Ok sample_post \<and> ApplyV2Diff (2 ^ 31) sample_post sample_diff = Ok sample_post"
  using ApplyV2Diff_replay [OF sample_applied, of "2 ^ 31"] sample_applied [of "2 ^ 31"] by simp

end
