(* ===== verification/DiffSafety.thy ===== *)
theory DiffSafety
  imports OplogDiff
begin

text \<open>
  What the diffs of \<open>OplogDiff\<close> return: from documents and diffs without duplicate keys a
  document without them, and a panic only when an array cannot be allocated.
\<close>

section \<open>Results of diffs\<close>

text \<open>No panic, and a value only with the property.\<close>

definition yields :: "('a \<Rightarrow> bool) \<Rightarrow> ('e, 'a) result \<Rightarrow> bool" where
  "yields P r \<longleftrightarrow> r \<noteq> Panic \<and> (\<forall>x. r = Ok x \<longrightarrow> P x)"

lemma yields_simps [simp]: "yields P (Ok x) \<longleftrightarrow> P x" "yields P (Err e)" "\<not> yields P Panic"
  by (simp_all add: yields_def)

lemma yields_bind: "yields Q r \<Longrightarrow> (\<And>x. r = Ok x \<Longrightarrow> Q x \<Longrightarrow> yields P (f x)) \<Longrightarrow> yields P (bind_result r f)"
  by (cases r) simp_all

lemma yields_each_result: "(\<And>x. x \<in> set xs \<Longrightarrow> yields P (f x)) \<Longrightarrow> yields (list_all P) (each_result f xs)"
proof (induction xs)
  case (Cons x xs)
  then have "yields P (f x)" "yields (list_all P) (each_result f xs)" by simp_all
  then show ?case by (auto intro!: yields_bind)
qed simp

definition good_fields :: "fields \<Rightarrow> bool" where
  "good_fields fs \<longleftrightarrow> no_dup (BDocument fs)"

lemma good_fields_get: "good_fields fs \<Longrightarrow> get_value fs k = Ok (field_get fs k)"
  using key_count_distinct [of fs k] by (auto simp: good_fields_def get_value_def)

lemma good_fields_value: "good_fields fs \<Longrightarrow> field_get fs k = Some v \<Longrightarrow> no_dup v"
  by (auto simp: good_fields_def field_get_map_of list_all_iff dest!: map_of_SomeD)

lemma good_fields_put: "good_fields fs \<Longrightarrow> no_dup v \<Longrightarrow> good_fields (fields_put fs k v)"
  by (simp add: good_fields_def no_dup_put del: no_dup.simps)

lemma good_fields_del: "good_fields fs \<Longrightarrow> good_fields (fields_del fs k)"
proof (induction fs)
  case (Cons f fs)
  then show ?case using fields_del_subset [of fs k] by (cases f) (auto simp: good_fields_def image_iff)
qed simp

lemma change_field_good: "good_fields res \<Longrightarrow> no_dup v \<Longrightarrow> yields good_fields (change_field sec res k v)"
  using key_count_distinct [of res k] by (auto simp: change_field_def good_fields_put good_fields_del) (simp add: good_fields_def)

lemma section_loop_good:
  "good_fields res \<Longrightarrow> list_all (\<lambda>(k, v). no_dup v) fs \<Longrightarrow> yields (\<lambda>s. good_fields (fst s)) (section_loop sec fs (res, m))"
proof (induction fs arbitrary: res m)
  case (Cons f fs)
  then show ?case by (cases f) (auto intro!: yields_bind change_field_good)
qed simp

lemma sections_loop_good:
  "good_fields diff \<Longrightarrow> good_fields res \<Longrightarrow> yields (\<lambda>s. good_fields (fst s)) (sections_loop diff secs (res, m))"
proof (induction secs arbitrary: res m)
  case (Cons sec secs)
  show ?case
  proof (cases "field_get diff sec")
    case (Some v)
    show ?thesis
    proof (cases v)
      case (BDocument document)
      then have "list_all (\<lambda>(k, v). no_dup v) document" using good_fields_value [OF Cons.prems(1) Some] by simp
      note s = section_loop_good [OF Cons.prems(2) this, of sec m]
      have "yields (\<lambda>s. good_fields (fst s)) (bind_result (section_loop sec document (res, m)) (sections_loop diff secs))"
        by (rule yields_bind [OF s]) (use Cons.IH [OF Cons.prems(1)] in auto)
      then show ?thesis using Cons.prems(1) Some BDocument by (simp add: good_fields_get)
    qed (use Cons.prems Some in \<open>simp_all add: good_fields_get\<close>)
  qed (use Cons in \<open>simp add: good_fields_get\<close>)
qed simp

lemma validateObjectDiffOrder_good: "yields (\<lambda>_. True) (validateObjectDiffOrder diff)"
proof -
  have "yields (\<lambda>_. True) (order_loop fs n b)" for fs n b
    by (induction fs n b rule: order_loop.induct) (auto simp: Let_def split: option.splits)
  then show ?thesis by (simp add: validateObjectDiffOrder_def)
qed

lemma collect_loop_good: "yields (\<lambda>_. True) (collect_loop fs ms ss)"
  by (induction fs ms ss rule: collect_loop.induct) (auto simp: Let_def split: option.splits bson.splits)

text \<open>Arrays within the capacity, and array diffs whose indexes are.\<close>

fun arrays_fit :: "nat \<Rightarrow> bson \<Rightarrow> bool" where
  "arrays_fit M (BDocument fs) = list_all (\<lambda>(k, v). arrays_fit M v) fs"
| "arrays_fit M (BArray vs) = (length vs \<le> M \<and> list_all (arrays_fit M) vs)"
| "arrays_fit M _ = True"

fun diff_fits :: "nat \<Rightarrow> bson \<Rightarrow> bool" where
  "diff_fits M (BDocument fs) =
     ((case collect_loop fs [] [] of Ok (ms, ss) \<Rightarrow> field_get fs ''a'' = None \<or> final_length 0 ms ss \<le> M | _ \<Rightarrow> True) \<and>
      list_all (\<lambda>(k, v). diff_fits M v) fs)"
| "diff_fits M _ = True"

definition good_diff :: "nat \<Rightarrow> fields \<Rightarrow> bool" where
  "good_diff M diff \<longleftrightarrow> no_dup (BDocument diff) \<and> diff_fits M (BDocument diff)"

lemma good_diff_fields: "good_diff M diff \<Longrightarrow> good_fields diff"
  by (simp add: good_diff_def good_fields_def)

lemma good_diff_sub: "good_diff M diff \<Longrightarrow> (k, BDocument sd) \<in> set diff \<Longrightarrow> good_diff M sd"
  by (fastforce simp: good_diff_def list_all_iff)

definition sub_good :: "nat \<Rightarrow> fields \<Rightarrow> bool" where
  "sub_good M sd \<longleftrightarrow>
     (\<forall>fs. good_fields fs \<longrightarrow> arrays_fit M (BDocument fs) \<longrightarrow> yields good_fields (ApplyV2Diff M fs sd)) \<and>
     (\<forall>vs. no_dup (BArray vs) \<longrightarrow> arrays_fit M (BArray vs) \<longrightarrow> field_get sd ''a'' \<noteq> None \<longrightarrow>
       yields (list_all no_dup) (applyArrayDiff M vs sd))"

lemma sub_value_good:
  assumes "sub_good M sd" "good_diff M sd" "no_dup v" "arrays_fit M v"
  shows "yields no_dup (sub_value M v sd)"
proof -
  have a: "isArrayDiff sd = Ok (field_get sd ''a'' \<noteq> None)"
    by (simp add: isArrayDiff_def good_fields_get [OF good_diff_fields [OF assms(2)]])
  show ?thesis
  proof (cases v)
    case (BDocument fs)
    have "yields good_fields (ApplyV2Diff M fs sd)"
      using assms BDocument by (auto simp: sub_good_def good_fields_def)
    from yields_bind [OF this, of no_dup "\<lambda>fs. Ok (BDocument fs)"] show ?thesis
      using BDocument a by (auto simp: sub_value.simps good_fields_def)
  next
    case (BArray vs)
    have "field_get sd ''a'' \<noteq> None \<longrightarrow> yields (list_all no_dup) (applyArrayDiff M vs sd)"
      using assms BArray by (auto simp: sub_good_def)
    then show ?thesis using yields_bind [of "list_all no_dup" _ no_dup "\<lambda>vs. Ok (BArray vs)"] BArray a
      by (auto simp: sub_value.simps)
  qed (simp_all add: sub_value.simps)
qed

lemma sub_loop_good:
  assumes "good_fields pre" "arrays_fit M (BDocument pre)"
  shows "good_fields res \<Longrightarrow> (\<And>k. k \<notin> set m \<Longrightarrow> field_get res k = field_get pre k) \<Longrightarrow>
    (\<And>k sd. (k, BDocument sd) \<in> set rest \<Longrightarrow> good_diff M sd \<and> sub_good M sd) \<Longrightarrow> yields good_fields (sub_loop M rest res m)"
proof (induction rest arbitrary: res m)
  case (Cons f rest)
  obtain sec v where f: "f = (sec, v)" by (cases f)
  have sub: "good_diff M sd \<and> sub_good M sd" if "(k, BDocument sd) \<in> set rest" for k sd
    by (rule Cons.prems(3)) (rule list.set_intros(2) [OF that])
  have ih: "yields good_fields (sub_loop M rest res' m')"
    if "good_fields res'" "\<And>k. k \<notin> set m' \<Longrightarrow> field_get res' k = field_get pre k" for res' m'
    by (rule Cons.IH) (fact that, fact that, fact sub)
  show ?case
  proof (cases "sec \<in> {''d'', ''u'', ''i''} \<or> \<not> HasPrefix sec ''s'' \<or> length sec = 1 \<or> tl sec \<in> set m \<or> \<not> is_document v")
    case True
    then show ?thesis using ih [OF Cons.prems(1,2)] by (cases v) (auto simp: f sub_loop.simps(2))
  next
    case False
    then obtain sd where v: "v = BDocument sd" by (cases v) auto
    have sd: "good_diff M sd" "sub_good M sd" using Cons.prems(3) [of sec sd] by (simp_all add: f v)
    note g = good_fields_get [OF good_diff_fields [OF sd(1)]]
    have chk: "yields (\<lambda>_. True) (applyArrayDiff M [] sd)" if "field_get sd ''a'' \<noteq> None"
      using sd(2) that by (auto simp: sub_good_def yields_def)
    have chk': "yields (\<lambda>_. True) (ApplyV2Diff M [] sd)"
      using sd(2) by (auto simp: sub_good_def yields_def good_fields_def)
    have step: "yields good_fields (case field_get res (tl sec) of
        None \<Rightarrow> sub_loop M rest res (tl sec # m)
      | Some pre \<Rightarrow> bind_result (sub_value M pre sd) (\<lambda>w. sub_loop M rest (fields_put res (tl sec) w) (tl sec # m)))"
    proof (cases "field_get res (tl sec)")
      case None
      then show ?thesis using ih [of res "tl sec # m"] Cons.prems(1,2) by simp
    next
      case (Some w)
      then have w: "field_get pre (tl sec) = Some w" using False Cons.prems(2) [of "tl sec"] by simp
      then have "arrays_fit M w" using assms(2) by (auto simp: field_get_map_of list_all_iff dest!: map_of_SomeD)
      note s = sub_value_good [OF sd(2,1) good_fields_value [OF assms(1) w] this]
      have "yields good_fields (bind_result (sub_value M w sd) (\<lambda>w. sub_loop M rest (fields_put res (tl sec) w) (tl sec # m)))"
        by (rule yields_bind [OF s], rule ih) (simp_all add: good_fields_put Cons.prems(1,2))
      then show ?thesis using Some by simp
    qed
    show ?thesis
    proof (cases "field_get sd ''a''")
      case None
      then show ?thesis using False chk' step
        by (cases "ApplyV2Diff M [] sd") (auto simp: f v sub_loop.simps(2) g good_fields_get [OF Cons.prems(1)])
    next
      case (Some header)
      then show ?thesis using False chk step
        by (cases "applyArrayDiff M [] sd") (auto simp: f v sub_loop.simps(2) g good_fields_get [OF Cons.prems(1)])
    qed
  qed
qed simp

lemma sections_loop_same:
  "sections_loop diff secs (res, m) = Ok (res', m') \<Longrightarrow>
    set m \<subseteq> set m' \<and> (\<forall>k. k \<notin> set m' \<longrightarrow> field_get res' k = field_get res k)"
proof (induction secs arbitrary: res m)
  case (Cons sec secs)
  obtain res1 m1 where s: "section_loop sec (section_of diff sec) (res, m) = Ok (res1, m1)"
    and l: "sections_loop diff secs (res1, m1) = Ok (res', m')"
    using Cons.prems by (auto simp: sections_loop_step simp del: sections_loop.simps(2))
  have "set m \<union> keys_of (section_of diff sec) = set m1" using section_loop_frame [OF s] by auto
  then show ?case using Cons.IH [OF l] section_loop_frame [OF s] unfolding same_at_def by (metis Un_iff subset_iff)
qed simp

lemma ApplyV2Diff_good_step:
  assumes "good_diff M diff" "good_fields pre" "arrays_fit M (BDocument pre)"
    and "\<And>k sd. (k, BDocument sd) \<in> set diff \<Longrightarrow> good_diff M sd \<and> sub_good M sd"
  shows "yields good_fields (ApplyV2Diff M pre diff)"
proof -
  note gf = good_diff_fields [OF assms(1)]
  have a: "isArrayDiff diff = Ok (field_get diff ''a'' \<noteq> None)"
    by (simp add: isArrayDiff_def good_fields_get [OF gf])
  have "yields good_fields (case s of (res, m) \<Rightarrow> sub_loop M diff res m)"
    if "sections_loop diff [''d'', ''u'', ''i''] (pre, []) = Ok s" "good_fields (fst s)" for s
    using sub_loop_good [OF assms(2,3) that(2), of "snd s" diff] sections_loop_same [of diff _ pre "[]" "fst s" "snd s"] that(1) assms(4)
    by (simp add: case_prod_unfold del: sections_loop.simps)
  from yields_bind [OF sections_loop_good [OF gf assms(2)] this] show ?thesis
    using a yields_bind [OF validateObjectDiffOrder_good, of diff good_fields] by (auto simp: ApplyV2Diff.simps simp del: sections_loop.simps)
qed

lemma collect_mod: "collect_loop fs ms ss = Ok (ms', ss') \<Longrightarrow> (i, v) \<in> set ms' \<Longrightarrow> (i, v) \<in> set ms \<or> (\<exists>k. (k, v) \<in> set fs)"
proof (induction fs ms ss rule: collect_loop.induct)
  case (2 field v fs ms ss)
  then show ?case by (auto simp: Let_def split: if_splits option.splits bson.splits)
qed simp

lemma final_length_max: "final_length n ms ss = max n (final_length 0 ms ss)"
proof -
  have "Max (insert n A) = max n (Max (insert 0 A))" if "finite A" for A :: "nat set"
    using that by (cases "A = {}") auto
  then show ?thesis by (simp only: final_length_least) simp
qed

lemma array_length_fits:
  assumes "array_length n diff = Ok len" "n \<le> M" "2 ^ 31 \<le> M"
  shows "len \<le> M"
proof (cases "field_get diff ''l''")
  case (Some v)
  have "nat (sint i) < 2 ^ 31" for i :: int32 using sint_lt [of i] by simp
  then have "nat (sint i) \<le> M" for i :: int32 using assms(3) less_le_trans less_imp_le by blast
  then show ?thesis using assms(1) Some
    by (cases v) (auto simp: array_length_def get_value_def split: if_splits)
qed (use assms in \<open>simp add: array_length_def get_value_def split: if_splits\<close>)

lemma array_length_good: "good_fields diff \<Longrightarrow> yields (\<lambda>_. True) (array_length n diff)"
  by (auto simp: array_length_def good_fields_get split: option.splits bson.splits)

lemma array_element_good:
  assumes "collect_loop diff [] [] = Ok (ms, ss)" "good_fields diff" "no_dup (BArray vs)" "arrays_fit M (BArray vs)"
    and "\<And>k sd. (k, BDocument sd) \<in> set diff \<Longrightarrow> good_diff M sd \<and> sub_good M sd"
  shows "yields no_dup (array_element M vs ms ss i)"
proof (cases "map_of ms i")
  case (Some v)
  then have "\<exists>k. (k, v) \<in> set diff" using collect_mod [OF assms(1)] by (auto dest: map_of_SomeD)
  then show ?thesis using assms(2) Some by (auto simp: array_element_def good_fields_def list_all_iff)
next
  case None
  show ?thesis
  proof (cases "map_of ss i")
    case (Some sd)
    then have "good_diff M sd \<and> sub_good M sd" using collect_sub [OF assms(1) map_of_SomeD] assms(5) by fastforce
    then show ?thesis using None Some assms(3,4) by (auto simp: array_element_def list_all_length intro!: sub_value_good)
  qed (use None assms(3) in \<open>auto simp: array_element_def list_all_length\<close>)
qed

lemma applyArrayDiff_good_step:
  assumes "good_diff M diff" "no_dup (BArray vs)" "arrays_fit M (BArray vs)" "field_get diff ''a'' \<noteq> None" "2 ^ 31 \<le> M"
    and "\<And>k sd. (k, BDocument sd) \<in> set diff \<Longrightarrow> good_diff M sd \<and> sub_good M sd"
  shows "yields (list_all no_dup) (applyArrayDiff M vs diff)"
proof -
  note gf = good_diff_fields [OF assms(1)]
  have h: "yields (\<lambda>_. True) (array_header diff)" by (simp add: array_header_def good_fields_get [OF gf])
  show ?thesis unfolding applyArrayDiff_eq
  proof (rule yields_bind [OF h], rule yields_bind [OF array_length_good [OF gf]], rule yields_bind [OF collect_loop_good])
    fix len p
    assume l: "array_length (length vs) diff = Ok len" and c: "collect_loop diff [] [] = Ok p"
    obtain ms ss where p: "p = (ms, ss)" by (cases p)
    have "final_length 0 ms ss \<le> M" using assms(1,4) c by (simp add: p good_diff_def)
    moreover have "len \<le> M" using array_length_fits [OF l _ assms(5)] assms(3) by simp
    ultimately have "final_length len ms ss \<le> M" by (simp add: final_length_max [of len])
    then show "yields (list_all no_dup) (case p of (ms, ss) \<Rightarrow> if final_length len ms ss > M then Panic
        else each_result (array_element M vs ms ss) [0..<final_length len ms ss])"
      using yields_each_result [OF array_element_good [OF c [unfolded p] gf assms(2,3,6)]] by (simp add: p)
  qed
qed

lemma diff_good:
  assumes "2 ^ 31 \<le> M"
  shows "good_diff M diff \<Longrightarrow> sub_good M diff"
proof (induction "doc_size diff" arbitrary: diff rule: less_induct)
  case less
  have sub: "good_diff M sd \<and> sub_good M sd" if "(k, BDocument sd) \<in> set diff" for k sd
    using less.hyps [of sd] pair_value_size [OF that] good_diff_sub [OF less.prems that] by simp
  show ?case unfolding sub_good_def
  proof (intro conjI allI impI)
    show "yields good_fields (ApplyV2Diff M fs diff)" if "good_fields fs" "arrays_fit M (BDocument fs)" for fs
      by (rule ApplyV2Diff_good_step [OF less.prems that]) (fact sub)
    show "yields (list_all no_dup) (applyArrayDiff M vs diff)"
      if "no_dup (BArray vs)" "arrays_fit M (BArray vs)" "field_get diff ''a'' \<noteq> None" for vs
      by (rule applyArrayDiff_good_step [OF less.prems that assms]) (fact sub)
  qed
qed

section \<open>Properties\<close>

text \<open>
  Property C10 (type). A diff keeps documents well formed: without duplicate keys in the document and in the
  diff, and with arrays within what the runtime can allocate, \<open>ApplyV2Diff\<close> does not panic and
  what it returns has no duplicate keys at any level.
\<close>

theorem ApplyV2Diff_well_formed:
  assumes "no_dup (BDocument preImage)" "no_dup (BDocument diff)" "arrays_fit maxSlots (BDocument preImage)"
    and "diff_fits maxSlots (BDocument diff)" "2 ^ 31 \<le> maxSlots"
  shows "ApplyV2Diff maxSlots preImage diff \<noteq> Panic \<and>
    (\<forall>postImage. ApplyV2Diff maxSlots preImage diff = Ok postImage \<longrightarrow> no_dup (BDocument postImage))"
  using diff_good [OF assms(5), of diff] assms(1-4)
  by (simp add: sub_good_def good_diff_def good_fields_def yields_def del: no_dup.simps arrays_fit.simps diff_fits.simps)

theorem ApplyV2Diff_well_formed_witness:
  "ApplyV2Diff (2 ^ 31) sample_pre sample_diff \<noteq> Panic \<and> no_dup (BDocument sample_post)"
proof -
  have "no_dup (BDocument sample_pre)" "no_dup (BDocument sample_diff)" "arrays_fit (2 ^ 31) (BDocument sample_pre)"
    by (simp_all add: sample_pre_def sample_diff_def sample_array_diff_def)
  moreover have "diff_fits (2 ^ 31) (BDocument sample_diff)"
    using sample_collected by (simp add: sample_diff_def final_length_def sample_array_diff_def Let_def)
  ultimately show ?thesis using ApplyV2Diff_well_formed [of sample_pre sample_diff "2 ^ 31"] sample_applied [of "2 ^ 31"] by simp
qed

text \<open>
  Property C40 (error). A diff of an array with the index \<open>2\<^sup>6\<^sup>3 - 1\<close> makes \<open>ApplyV2Diff\<close> panic, whatever the
  document and the memory of the machine: no capacity can hold the array.
\<close>

theorem ApplyV2Diff_index_panics:
  assumes "maxSlots < 2 ^ 63" "field \<noteq> []"
  shows "ApplyV2Diff maxSlots preImage [(''s'' @ field, BDocument [(''a'', BBool True), (''u'' @ Itoa (2 ^ 63 - 1), v)])] = Panic"
  using assms Atoi_Itoa [of "2 ^ 63 - 1"]
  by (cases field) (simp_all add: ApplyV2Diff.simps sub_loop.simps(2) applyArrayDiff_eq diff_defs Let_def)

theorem ApplyV2Diff_index_panics_witness:
  "ApplyV2Diff (2 ^ 48) sample_pre [(''sl'', BDocument [(''a'', BBool True), (''u'' @ Itoa (2 ^ 63 - 1), BNull)])] = Panic"
  using ApplyV2Diff_index_panics [of "2 ^ 48" "''l''" sample_pre BNull] by simp

end
