(* ===== verification/Spec2Isabelle.thy ===== *)
theory Spec2Isabelle
  imports Validation CompoundBounds DocLocks OplogBuffer DiffSafety
begin

text \<open>
  A verification of the documents, filters, indexes, locks and oplog diffs of dumbodb, the
  MongoDB-compatible server on Dolt storage whose sources are under \<^verbatim>\<open>src/internal\<close>.

  \<^bold>\<open>The program.\<close> A client's message is decoded from BSON into documents
  (\<^verbatim>\<open>bson\<close>, \<^verbatim>\<open>types\<close>), validated, filtered (\<^verbatim>\<open>handler/common\<close>) and
  stored; every collection keeps secondary indexes, ordered maps from byte keys
  (\<^verbatim>\<open>index\<close>) to the primary keys of documents. The parts meet in the value order: sorting,
  filters and index keys have to agree on it.

  \<^bold>\<open>Theories and sources.\<close>
  \<^item> \<^verbatim>\<open>Prelude\<close>, \<^verbatim>\<open>Ordering\<close>, \<^verbatim>\<open>Float64\<close>, \<^verbatim>\<open>Strconv\<close>: results of fallible
    code (a value, an error or a panic), three-way comparison with its contract, the locale
    \<open>three_way\<close>, double precision numbers as 64-bit words with their exact value, and the
    string routines of the Go library.
  \<^item> \<^verbatim>\<open>Values\<close>, \<^verbatim>\<open>Codec\<close>: the BSON value type, \<open>Identical\<close>, sizes, the encoder
    (\<^verbatim>\<open>types/bson_encode.go\<close>) and the raw decoder (\<^verbatim>\<open>bson/decode_raw.go\<close>). The lemmas
    show that decoding inverts encoding in both directions.
  \<^item> \<^verbatim>\<open>Compare\<close>, \<^verbatim>\<open>ValueOrder\<close>: \<^verbatim>\<open>types/compare.go\<close> and
    \<^verbatim>\<open>compare_order.go\<close>. The order is a total preorder on all values, the fast
    comparison of numbers agrees with the exact one, and sorts and minima are correct.
  \<^item> \<^verbatim>\<open>Paths\<close>, \<^verbatim>\<open>Document\<close>, \<^verbatim>\<open>Validation\<close>: dotted paths, the document with its
    lazy decoding, cached bytes and key index, and document validation. The document refines
    its list of fields; the locale \<open>field_container\<close> states what both promise.
  \<^item> \<^verbatim>\<open>KeyString\<close>, \<^verbatim>\<open>KeyOrder\<close>, \<^verbatim>\<open>KeyValues\<close>, \<^verbatim>\<open>KeySplit\<close>: index keys
    (\<^verbatim>\<open>index/keystring.go\<close>). Byte order of keys is value order where keys are exact, which
    \<open>key_exact\<close> delimits; splitting a compound key finds its parts.
  \<^item> \<^verbatim>\<open>Index\<close>: \<^verbatim>\<open>index/index.go\<close>. Scans return the entries in the bounds,
    maintenance keeps the map equal to the indexed documents, the uniqueness probe is exact.
  \<^item> \<^verbatim>\<open>CommonPath\<close>, \<^verbatim>\<open>FilterOps\<close>, \<^verbatim>\<open>Filters\<close>, \<^verbatim>\<open>FilterLaws\<close>,
    \<^verbatim>\<open>FilterMatch\<close>, \<^verbatim>\<open>FilterSafety\<close>: paths into arrays (\<^verbatim>\<open>handler/commonpath\<close>) and the filter language
    (\<^verbatim>\<open>handler/common/filter.go\<close>), one recursive group with the call structure of the
    code. Comparison operators look for one candidate of the operand's type, the negated
    operators are complements, and a panic comes only from duplicate keys, an operand of
    \<^verbatim>\<open>$mod\<close> that is not an array, an \<^verbatim>\<open>$expr\<close> with a result of a type its switch does not
    name, or an operator that is a parameter.
  \<^item> \<^verbatim>\<open>IndexMaintenance\<close>: the entries a document owns in an index and the batches of
    writes (\<^verbatim>\<open>backends/dolt/index_resolve.go\<close>, \<^verbatim>\<open>collection.go\<close>). After any history of
    inserts, updates and deletes the index maps hold the entries of the documents present.
  \<^item> \<^verbatim>\<open>IndexPlan\<close>, \<^verbatim>\<open>PartialImplication\<close>, \<^verbatim>\<open>PlanBounds\<close>, \<^verbatim>\<open>IndexLookup\<close>,
    \<^verbatim>\<open>CompoundBounds\<close>: the query planner (\<^verbatim>\<open>backends/dolt/collection.go\<close>,
    \<^verbatim>\<open>partial_implication.go\<close>). An implied partial filter is true of every match, the
    bounds of a condition contain the keys of the values that satisfy it, and the two with
    the filters and the maintenance give that a lookup in one-field indexes drops no match.
    \<^verbatim>\<open>CompoundBounds\<close> shows that ranges on compound indexes do.
  \<^item> \<^verbatim>\<open>Waiting\<close>, \<^verbatim>\<open>DocLocks\<close>, \<^verbatim>\<open>OplogBuffer\<close>: the document locks of
    transactions (\<^verbatim>\<open>backends/dolt/doc_locks.go\<close>) and the buffer between the fetcher and the
    applier of replication (\<^verbatim>\<open>replication/oplog/buffer.go\<close>). Both park a goroutine on a
    channel that is closed and replaced on every change; the channel is a counter, a step
    relation interleaves the waiter with the others, and the locale \<open>waiting\<close> shows once
    that no wakeup is lost.
  \<^item> \<^verbatim>\<open>OplogDiff\<close>, \<^verbatim>\<open>DiffSafety\<close>: the diffs of oplog updates
    (\<^verbatim>\<open>replication/oplog/diff.go\<close>). A diff can be replayed; without duplicate keys in
    the document and in the diff the result has none, and the only panic left is that of an
    array that cannot be allocated.

  \<^bold>\<open>State and errors.\<close> Documents and arrays are values: a nested document is its list of
  fields, neither lazily decoded nor frozen, and \<open>SetByPath\<close> replaces it. What sharing does to
  a document with cached bytes is a step of its own, \<open>nested_write\<close>: the change of a nested
  value through the pointer \<open>Get\<close> returned. A Go function that returns an error or panics has the type
  \<open>('e, 'a) result\<close>. Error values keep their code and lose their message.

  \<^bold>\<open>Parameters.\<close> Code outside the repository is an argument: the big-integer view of
  Decimal128 (\<open>bigint_fun\<close>), the conversion of an out-of-range double to an integer, which
  Go leaves to the platform (\<open>conversions\<close>), the ordered map of the Dolt library
  (\<open>prolly\<close>, with its documented behaviour in \<open>prolly_ok\<close>), the regular expression
  engine, the collator, the hash of an id (\<open>id_hash\<close>)
  and the largest capacity of an array (\<open>maxSlots\<close>). The filter operators \<^verbatim>\<open>$text\<close>,
  \<^verbatim>\<open>$jsonSchema\<close> and the geometric ones, the evaluation of an aggregation expression and the
  random numbers of \<^verbatim>\<open>$sampleRate\<close> are arguments too (\<open>filter_env\<close>). No theorem assumes
  that they do not panic in general: \<open>filter_ok\<close> asks it of the operands that occur in a filter.

  \<^bold>\<open>Bounds.\<close> No definition uses fuel. Recursion that is not structural has a termination
  proof by the size of the value, of the bytes left, of the filter or of the diff.

  \<^bold>\<open>Not modelled.\<close> Storage on Dolt (chunk stores and prolly trees of another repository),
  command handlers and aggregation stages, the application of oplog entries to the storage,
  collation tables and the sort keys of indexes with a collation, sockets, metrics and build information.
\<close>

end
